(* ===== verification/Alloc_Prelude.thy ===== *)
theory Alloc_Prelude
  imports Main "HOL-Library.Word" "HOL-Library.Monad_Syntax"
begin

text \<open>
  The prelude of the development: the machine types of the 32-bit build (the Makefile
  compiles with \<^verbatim>\<open>-m32\<close>, so pointers, \<open>size_t\<close>, \<open>unsigned\<close>, \<open>int\<close> and \<open>long\<close>
  are all 32 bits wide), the collections of simplification rules the component theories
  share, and the generic facts on words and bits they use.

  \<open>w32 n\<close> is the 32-bit word of a natural number. It is \<open>of_nat\<close> under a name of its own,
  so that the simplifier keeps pointer arithmetic on in-range addresses in the shape
  \<open>w32 (p + 4)\<close>, whose side conditions are linear arithmetic on naturals.
\<close>

unbundle bit_operations_syntax

type_synonym u32 = "32 word"
type_synonym u8 = "8 word"

named_theorems w32_simps \<open>arithmetic on in-range words, moved to the naturals\<close>

section \<open>Words and naturals\<close>

definition w32 :: "nat \<Rightarrow> u32" where
  "w32 n = of_nat n"

lemma unat_lt32: "unat (x :: u32) < 4294967296"
  using unsigned_less [of x] by simp

lemma unat_w32 [w32_simps]: "n < 4294967296 \<Longrightarrow> unat (w32 n) = n"
  by (simp add: w32_def unsigned_of_nat take_bit_nat_eq_self)

lemma w32_unat [simp]: "w32 (unat x) = x"
  by (simp add: w32_def)

lemma w32_0 [simp]: "w32 0 = 0"
  by (simp add: w32_def)

lemma w32_numeral: "w32 (numeral k) = numeral k"
  by (simp add: w32_def)

lemma w32_inject [w32_simps]:
  "a < 4294967296 \<Longrightarrow> b < 4294967296 \<Longrightarrow> w32 a = w32 b \<longleftrightarrow> a = b"
  by (metis unat_w32)

lemma w32_eq_0 [w32_simps]: "a < 4294967296 \<Longrightarrow> w32 a = 0 \<longleftrightarrow> a = 0"
  using w32_inject [of a 0] by simp

lemma w32_add [w32_simps]: "w32 a + w32 b = w32 (a + b)"
  by (simp add: w32_def)

lemma w32_add_numeral [w32_simps]: "w32 a + numeral k = w32 (a + numeral k)"
  by (simp add: w32_def)

lemma w32_mult_numeral [w32_simps]: "w32 a * numeral k = w32 (a * numeral k)"
  by (simp add: w32_def)

lemma w32_sub [w32_simps]: "b \<le> a \<Longrightarrow> w32 a - w32 b = w32 (a - b)"
  by (simp add: w32_def)

lemma w32_sub_numeral [w32_simps]: "numeral k \<le> a \<Longrightarrow> w32 a - numeral k = w32 (a - numeral k)"
  using w32_sub [of "numeral k" a] by (simp add: w32_numeral)

lemma w32_le [w32_simps]:
  "a < 4294967296 \<Longrightarrow> b < 4294967296 \<Longrightarrow> w32 a \<le> w32 b \<longleftrightarrow> a \<le> b"
  by (simp add: word_le_nat_alt unat_w32)

lemma w32_less [w32_simps]:
  "a < 4294967296 \<Longrightarrow> b < 4294967296 \<Longrightarrow> w32 a < w32 b \<longleftrightarrow> a < b"
  by (simp add: word_less_nat_alt unat_w32)

section \<open>Words read as signed integers\<close>

lemma sint_w32: "n < 2147483648 \<Longrightarrow> sint (w32 n) = int n"
  by (simp add: w32_def sint_uint signed_take_bit_int_eq_self uint_nat unsigned_of_nat
      take_bit_nat_eq_self signed_of_nat)

lemma sint_neg_iff: "sint (x :: u32) < 0 \<longleftrightarrow> 2147483648 \<le> unat x"
proof -
  have "sint x < 0 \<longleftrightarrow> bit (uint x) 31"
    by (simp add: sint_uint signed_take_bit_negative_iff)
  also have "\<dots> \<longleftrightarrow> odd (uint x div 2147483648)"
    by (simp add: bit_iff_odd)
  also have "\<dots> \<longleftrightarrow> 2147483648 \<le> uint x"
  proof -
    have b: "0 \<le> uint x" "uint x < 4294967296" using uint_bounded [of x] by simp_all
    then have "uint x div 2147483648 = (if 2147483648 \<le> uint x then 1 else 0)" by auto
    then show ?thesis by simp
  qed
  also have "\<dots> \<longleftrightarrow> 2147483648 \<le> unat x"
    using uint_nat [of x] by linarith
  finally show ?thesis .
qed

section \<open>The low three bits of a word\<close>

lemma bit_7_iff: "bit (7 :: int) i \<longleftrightarrow> i < 3"
proof -
  have "(7 :: int) = mask 3" by (simp add: mask_eq_exp_minus_1)
  moreover have "bit (mask 3 :: int) i \<longleftrightarrow> i < 3" by (simp add: bit_mask_iff)
  ultimately show ?thesis by simp
qed

lemma and_not_7: "(x :: u32) AND NOT 7 = push_bit 3 (drop_bit 3 x)"
  by (rule bit_word_eqI) (auto simp: bit_simps bit_7_iff)

lemma not_7: "NOT 7 = (- 8 :: u32)"
  by simp

lemma unat_and_not_7: "unat ((x :: u32) AND - 8) = unat x div 8 * 8"
proof -
  have lt: "unat x div 8 * 8 < 4294967296"
    using unat_lt32 [of x] by linarith
  have "unat (push_bit 3 (drop_bit 3 x)) = take_bit 32 (push_bit 3 (unat (drop_bit 3 x)))"
    by (simp add: unsigned_push_bit_eq)
  also have "unat (drop_bit 3 x) = unat x div 8"
    by (simp only: unat_drop_bit_eq) (simp add: drop_bit_eq_div)
  also have "push_bit 3 (unat x div 8) = unat x div 8 * 8"
    by (simp add: push_bit_eq_mult)
  also have "take_bit 32 (unat x div 8 * 8) = unat x div 8 * 8"
    using lt by (intro take_bit_nat_eq_self) simp
  finally show ?thesis by (simp only: and_not_7 not_7 [symmetric])
qed

lemma w32_and_not_7: "8 dvd n \<Longrightarrow> w32 n AND - 8 = w32 n"
proof -
  assume "8 dvd n"
  then obtain k where "n = push_bit 3 k" by (auto simp: push_bit_eq_mult elim: dvdE)
  then have "w32 n = push_bit 3 (w32 k)" by (simp add: w32_def push_bit_of_nat)
  then have "w32 n AND NOT 7 = w32 n"
    by (auto intro!: bit_word_eqI simp: bit_simps bit_7_iff)
  then show ?thesis by simp
qed

end
