(* ===== verification/Memlib.thy ===== *)
theory Memlib
  imports Alloc_Prelude
begin

text \<open>
  The simulated memory system of \<^verbatim>\<open>memlib.c\<close> and the C memory under it.

  \<^verbatim>\<open>memlib.c\<close> keeps three private pointers; they are the first fields of the record
  \<open>memlib\<close>. The others are \<open>errno\<close>, the bounds of the storage that \<open>mem_init\<close> obtains
  from the C library's \<open>malloc\<close> (the object the program may access), and its contents.
  The storage is kept as its 4-byte aligned little-endian words, \<open>words s a\<close> for an
  aligned byte address \<open>a\<close>; a byte is a byte of the word it lies in.

  An access outside the storage (the null pointer included), and a word access at a
  misaligned address, are undefined behaviour in C: the accessors return \<open>None\<close>, and every
  operation of the model threads them in the option monad, so \<open>None\<close> means "the run has no
  defined result" throughout (a fault, an \<open>exit\<close>, or a loop that does not end).
\<close>

section \<open>The private variables of memlib.c\<close>

record memlib =
  mem_start_brk :: u32
  mem_brk :: u32
  mem_max_addr :: u32
  errno :: nat
  store_lo :: nat
  store_hi :: nat
  words :: "nat \<Rightarrow> u32"

definition MAX_HEAP :: nat where
  "MAX_HEAP = 20 * 2 ^ 20"

definition ENOMEM :: nat where
  "ENOMEM = 12"

section \<open>Word and byte access\<close>

definition word_ok :: "u32 \<Rightarrow> 'a memlib_scheme \<Rightarrow> bool" where
  "word_ok p s \<longleftrightarrow> store_lo s \<le> unat p
     \<and> unat p + 4 \<le> store_hi s \<and> unat p mod 4 = 0"

definition byte_ok :: "u32 \<Rightarrow> 'a memlib_scheme \<Rightarrow> bool" where
  "byte_ok p s \<longleftrightarrow> store_lo s \<le> unat p \<and> unat p < store_hi s"

text \<open>\<open>GET\<close> and \<open>PUT\<close> of \<^verbatim>\<open>mm.c\<close>: a load and a store of one \<open>unsigned int\<close>.\<close>

definition GET :: "u32 \<Rightarrow> 'a memlib_scheme \<Rightarrow> u32 option" where
  "GET p s = (if word_ok p s then Some (words s (unat p)) else None)"

definition PUT :: "u32 \<Rightarrow> u32 \<Rightarrow> 'a memlib_scheme \<Rightarrow> 'a memlib_scheme option" where
  "PUT p v s = (if word_ok p s then Some (s\<lparr>words := (words s)(unat p := v)\<rparr>) else None)"

text \<open>Bytes: number \<open>a mod 4\<close> of the aligned word that holds address \<open>a\<close>.\<close>

definition byte_of :: "(nat \<Rightarrow> u32) \<Rightarrow> nat \<Rightarrow> u8" where
  "byte_of W a = ucast (drop_bit (8 * (a mod 4)) (W (a - a mod 4)))"

definition set_byte :: "(nat \<Rightarrow> u32) \<Rightarrow> nat \<Rightarrow> u8 \<Rightarrow> (nat \<Rightarrow> u32)" where
  "set_byte W a v = W(a - a mod 4 :=
     (W (a - a mod 4) AND NOT (push_bit (8 * (a mod 4)) 255))
       OR push_bit (8 * (a mod 4)) (ucast v))"

definition load_byte :: "u32 \<Rightarrow> 'a memlib_scheme \<Rightarrow> u8 option" where
  "load_byte p s = (if byte_ok p s then Some (byte_of (words s) (unat p)) else None)"

definition store_byte :: "u32 \<Rightarrow> u8 \<Rightarrow> 'a memlib_scheme \<Rightarrow> 'a memlib_scheme option" where
  "store_byte p v s =
     (if byte_ok p s then Some (s\<lparr>words := set_byte (words s) (unat p) v\<rparr>) else None)"

text \<open>
  The library's \<open>memcpy\<close> and \<open>memset\<close>, as the byte loops they are specified to be
  (\<open>memcpy\<close> is only called on disjoint objects, where the order of the copies is
  immaterial).
\<close>

fun memcpy :: "u32 \<Rightarrow> u32 \<Rightarrow> nat \<Rightarrow> 'a memlib_scheme \<Rightarrow> 'a memlib_scheme option" where
  "memcpy d p 0 s = Some s"
| "memcpy d p (Suc n) s = do {
     v \<leftarrow> load_byte p s;
     s \<leftarrow> store_byte d v s;
     memcpy (d + 1) (p + 1) n s }"

fun memset :: "u32 \<Rightarrow> u8 \<Rightarrow> nat \<Rightarrow> 'a memlib_scheme \<Rightarrow> 'a memlib_scheme option" where
  "memset d v 0 s = Some s"
| "memset d v (Suc n) s = do {
     s \<leftarrow> store_byte d v s;
     memset (d + 1) v n s }"

section \<open>The operations of memlib.c\<close>

text \<open>
  \<open>mem_init\<close>: the parameters are what \<open>malloc(MAX_HEAP)\<close> returned and what the fresh
  storage happens to contain; a null result ends the program (\<open>exit(1)\<close>).
\<close>

definition mem_init :: "u32 \<Rightarrow> (nat \<Rightarrow> u32) \<Rightarrow> 'a memlib_scheme \<Rightarrow> 'a memlib_scheme option" where
  "mem_init storage contents s =
     (if storage = 0 then None
      else Some (s\<lparr>mem_start_brk := storage, mem_max_addr := storage + w32 MAX_HEAP,
                   mem_brk := storage, store_lo := unat storage,
                   store_hi := unat storage + MAX_HEAP, words := contents\<rparr>))"

text \<open>\<open>mem_deinit\<close> frees the storage: no access to it is defined any more.\<close>

definition mem_deinit :: "'a memlib_scheme \<Rightarrow> 'a memlib_scheme" where
  "mem_deinit s = s\<lparr>store_lo := 0, store_hi := 0\<rparr>"

definition mem_reset_brk :: "'a memlib_scheme \<Rightarrow> 'a memlib_scheme" where
  "mem_reset_brk s = s\<lparr>mem_brk := mem_start_brk s\<rparr>"

text \<open>
  \<open>mem_sbrk\<close> takes an \<open>int\<close>: a request of \<open>2 ^ 31\<close> or more arrives negative. The
  comparison is on the 32-bit sum, which wraps as the machine's addition does.
\<close>

definition mem_sbrk :: "u32 \<Rightarrow> 'a memlib_scheme \<Rightarrow> u32 \<times> 'a memlib_scheme" where
  "mem_sbrk incr s =
     (let old_brk = mem_brk s in
      if sint incr < 0 \<or> mem_brk s + incr > mem_max_addr s
      then (- 1, s\<lparr>errno := ENOMEM\<rparr>)
      else (old_brk, s\<lparr>mem_brk := mem_brk s + incr\<rparr>))"

definition mem_heap_lo :: "'a memlib_scheme \<Rightarrow> u32" where
  "mem_heap_lo s = mem_start_brk s"

definition mem_heap_hi :: "'a memlib_scheme \<Rightarrow> u32" where
  "mem_heap_hi s = mem_brk s - 1"

definition mem_heapsize :: "'a memlib_scheme \<Rightarrow> u32" where
  "mem_heapsize s = mem_brk s - mem_start_brk s"

end
