(* ===== verification/Blocks.thy ===== *)
theory Blocks
  imports Memlib
begin

text \<open>
  The constants and macros of \<^verbatim>\<open>mm.c\<close> for boundary tags: a block is addressed by its block
  pointer \<open>bp\<close>; its header is the word at \<open>bp - 4\<close>, its footer the word at
  \<open>bp + size - 8\<close>, and both hold the block's size with the allocated bit in bit 0. The
  macros that read memory are in the option monad of \<open>Memlib\<close>.
\<close>

section \<open>Constants\<close>

definition ALIGNMENT :: u32 where [simp]: "ALIGNMENT = 8"
definition WSIZE :: u32 where [simp]: "WSIZE = 4"
definition DSIZE :: u32 where [simp]: "DSIZE = 8"
definition CHUNKSIZE :: u32 where [simp]: "CHUNKSIZE = 4096"
definition BUCKETS_COUNT :: u32 where [simp]: "BUCKETS_COUNT = 32"
definition OVERHEAD :: u32 where [simp]: "OVERHEAD = 32"

section \<open>Macros\<close>

definition ALIGN :: "u32 \<Rightarrow> u32" where
  "ALIGN sz = (sz + (ALIGNMENT - 1)) AND NOT 7"

definition MAX_of :: "u32 \<Rightarrow> u32 \<Rightarrow> u32" where
  "MAX_of x y = (if x > y then x else y)"

definition PACK :: "u32 \<Rightarrow> u32 \<Rightarrow> u32" where
  "PACK sz alloc = sz OR alloc"

definition GET_SIZE :: "u32 \<Rightarrow> 'a memlib_scheme \<Rightarrow> u32 option" where
  "GET_SIZE p s = do { w \<leftarrow> GET p s; Some (w AND NOT 7) }"

definition GET_ALLOC :: "u32 \<Rightarrow> 'a memlib_scheme \<Rightarrow> u32 option" where
  "GET_ALLOC p s = do { w \<leftarrow> GET p s; Some (w AND 1) }"

definition HDRP :: "u32 \<Rightarrow> u32" where
  "HDRP bp = bp - WSIZE"

definition FTRP :: "u32 \<Rightarrow> 'a memlib_scheme \<Rightarrow> u32 option" where
  "FTRP bp s = do { n \<leftarrow> GET_SIZE (HDRP bp) s; Some (bp + n - DSIZE) }"

definition NEXT_BLKP :: "u32 \<Rightarrow> 'a memlib_scheme \<Rightarrow> u32 option" where
  "NEXT_BLKP bp s = do { n \<leftarrow> GET_SIZE (bp - WSIZE) s; Some (bp + n) }"

definition PREV_BLKP :: "u32 \<Rightarrow> 'a memlib_scheme \<Rightarrow> u32 option" where
  "PREV_BLKP bp s = do { n \<leftarrow> GET_SIZE (bp - DSIZE) s; Some (bp - n) }"

section \<open>Boundary tags\<close>

text \<open>\<open>tag n a\<close> is the header and footer word of a block of \<open>n\<close> bytes.\<close>

definition tag :: "nat \<Rightarrow> bool \<Rightarrow> u32" where
  "tag n a = PACK (w32 n) (if a then 1 else 0)"

lemma PACK_tag: "PACK (w32 n) 0 = tag n False" "PACK (w32 n) 1 = tag n True"
  by (simp_all add: tag_def)

lemma tag_size: "8 dvd n \<Longrightarrow> tag n a AND - 8 = w32 n"
  by (simp add: tag_def PACK_def bit.conj_disj_distrib2 w32_and_not_7)

lemma w32_and_1: "8 dvd n \<Longrightarrow> w32 n AND 1 = 0"
proof -
  assume "8 dvd n"
  then have "w32 n AND 1 = w32 n AND (- 8 AND 1)"
    by (metis and.assoc w32_and_not_7)
  then show ?thesis by simp
qed

lemma tag_alloc: "8 dvd n \<Longrightarrow> tag n a AND 1 = (if a then 1 else 0)"
  by (simp add: tag_def PACK_def bit.conj_disj_distrib2 w32_and_1)

lemma tag_alloc_inject: "8 dvd n \<Longrightarrow> 8 dvd m \<Longrightarrow> tag n a = tag m b \<Longrightarrow> a = b"
  by (metis tag_alloc zero_neq_one)

lemma tag_size_inject:
  "8 dvd n \<Longrightarrow> 8 dvd m \<Longrightarrow> n < 4294967296 \<Longrightarrow> m < 4294967296 \<Longrightarrow> tag n a = tag m b \<Longrightarrow> n = m"
  by (metis tag_size unat_w32)

lemma ALIGN_w32: "n + 7 < 4294967296 \<Longrightarrow> ALIGN (w32 n) = w32 ((n + 7) div 8 * 8)"
proof -
  assume "n + 7 < 4294967296"
  then have "unat (ALIGN (w32 n)) = (n + 7) div 8 * 8"
    by (simp add: ALIGN_def w32_simps unat_and_not_7)
  then show ?thesis by (metis w32_unat)
qed

section \<open>Access under a state whose words are known\<close>

text \<open>The in-range test on the naturals, and the accessors on in-range addresses.\<close>

definition cell :: "'a memlib_scheme \<Rightarrow> nat \<Rightarrow> bool" where
  "cell s a \<longleftrightarrow> store_lo s \<le> a \<and> a + 4 \<le> store_hi s \<and> a mod 4 = 0 \<and> a < 4294967296"

lemma cell_words [simp]: "cell (s\<lparr>words := W\<rparr>) a = cell s a"
  by (simp add: cell_def)

lemma GET_cell: "cell s a \<Longrightarrow> GET (w32 a) s = Some (words s a)"
  by (simp add: GET_def word_ok_def cell_def unat_w32)

lemma PUT_cell: "cell s a \<Longrightarrow> PUT (w32 a) v s = Some (s\<lparr>words := (words s)(a := v)\<rparr>)"
  by (simp add: PUT_def word_ok_def cell_def unat_w32)

lemma GET_SIZE_cell:
  "cell s a \<Longrightarrow> words s a = tag n u \<Longrightarrow> 8 dvd n \<Longrightarrow> GET_SIZE (w32 a) s = Some (w32 n)"
  by (simp add: GET_SIZE_def GET_cell tag_size)

lemma GET_ALLOC_cell:
  "cell s a \<Longrightarrow> words s a = tag n u \<Longrightarrow> 8 dvd n \<Longrightarrow>
   GET_ALLOC (w32 a) s = Some (if u then 1 else 0)"
  by (simp add: GET_ALLOC_def GET_cell tag_alloc)

lemma HDRP_w32: "4 \<le> p \<Longrightarrow> HDRP (w32 p) = w32 (p - 4)"
  by (simp add: HDRP_def w32_simps)

lemma FTRP_cell:
  "4 \<le> p \<Longrightarrow> 8 \<le> p + n \<Longrightarrow> cell s (p - 4) \<Longrightarrow> words s (p - 4) = tag n u \<Longrightarrow> 8 dvd n \<Longrightarrow>
   FTRP (w32 p) s = Some (w32 (p + n - 8))"
  by (simp add: FTRP_def HDRP_w32 GET_SIZE_cell w32_simps)

lemma NEXT_BLKP_cell:
  "4 \<le> p \<Longrightarrow> cell s (p - 4) \<Longrightarrow> words s (p - 4) = tag n u \<Longrightarrow> 8 dvd n \<Longrightarrow>
   NEXT_BLKP (w32 p) s = Some (w32 (p + n))"
  by (simp add: NEXT_BLKP_def GET_SIZE_cell w32_simps)

lemma PREV_BLKP_cell:
  "8 \<le> p \<Longrightarrow> n \<le> p \<Longrightarrow> cell s (p - 8) \<Longrightarrow> words s (p - 8) = tag n u \<Longrightarrow> 8 dvd n \<Longrightarrow>
   PREV_BLKP (w32 p) s = Some (w32 (p - n))"
  by (simp add: PREV_BLKP_def GET_SIZE_cell w32_simps)

end
