(* ===== verification/Seglist.thy ===== *)
theory Seglist
  imports Blocks
begin

text \<open>
  The segregated free lists of \<^verbatim>\<open>mm.c\<close>: \<open>BUCKETS_COUNT\<close> words at the bottom of the heap,
  each the head of a doubly linked list threaded through the free blocks themselves (the
  next pointer is the word at the block pointer, the previous pointer the word after it,
  zero ends the list either way). Bucket \<open>k\<close> holds the free blocks whose size is at most
  \<open>2 ^ k\<close> and, but for the first bucket, more than \<open>2 ^ (k - 1)\<close>.
\<close>

section \<open>The code\<close>

text \<open>\<open>buckets_init\<close>: the loop that clears the buckets, and the function around it.\<close>

function buckets_clear :: "u32 \<Rightarrow> u32 \<Rightarrow> 'a memlib_scheme \<Rightarrow> 'a memlib_scheme option" where
  "buckets_clear buckets_count bucket s =
     (if buckets_count \<noteq> 0
      then do { s \<leftarrow> PUT bucket 0 s;
                buckets_clear (buckets_count - 1) (bucket + 4) s }
      else Some s)"
  by pat_completeness auto
termination
  by (relation "measure (\<lambda>(n, _, _). unat n)") (auto simp: unat_minus_one unat_gt_0)

definition buckets_init :: "u32 \<Rightarrow> u32 \<Rightarrow> 'a memlib_scheme \<Rightarrow> 'a memlib_scheme option" where
  "buckets_init buckets_count starting_position s =
     (let (_, s) = mem_sbrk (WSIZE * BUCKETS_COUNT) s
      in buckets_clear buckets_count starting_position s)"

text \<open>\<open>find_bucket\<close>: the counter \<open>k\<close> runs from 0; \<open>1 << 31\<close> is the machine's.\<close>

function find_bucket_from :: "nat \<Rightarrow> u32 \<Rightarrow> 'a memlib_scheme \<Rightarrow> u32" where
  "find_bucket_from k wds s =
     (if k < unat BUCKETS_COUNT
      then (if wds * WSIZE \<le> push_bit k 1 then mem_heap_lo s + w32 (4 * k)
            else find_bucket_from (Suc k) wds s)
      else 0)"
  by pat_completeness auto
termination
  by (relation "measure (\<lambda>(k, _, _). 32 - k)") auto

definition find_bucket :: "u32 \<Rightarrow> 'a memlib_scheme \<Rightarrow> u32" where
  "find_bucket wds s = find_bucket_from 0 wds s"

text \<open>
  \<open>find_fit\<close>: the inner loop over one list (0 when it is exhausted) and the outer loop over
  the buckets. Either may fault or run forever on a corrupt heap, so both are partial.
\<close>

partial_function (option) find_node ::
    "u32 \<Rightarrow> u32 \<Rightarrow> 'a memlib_scheme \<Rightarrow> u32 option" where
  "find_node newsize node s =
     (if node = 0 then Some 0
      else do { n \<leftarrow> GET_SIZE (HDRP node) s;
                if newsize * WSIZE \<le> n then Some node
                else do { node \<leftarrow> GET node s; find_node newsize node s } })"

partial_function (option) find_fit_from ::
    "u32 \<Rightarrow> u32 \<Rightarrow> 'a memlib_scheme \<Rightarrow> u32 option" where
  "find_fit_from newsize bucket s =
     (if bucket < mem_heap_lo s + 4 * BUCKETS_COUNT
      then do { node \<leftarrow> GET bucket s;
                fit \<leftarrow> find_node newsize node s;
                if fit \<noteq> 0 then Some fit
                else find_fit_from newsize (bucket + 4) s }
      else Some 0)"

definition find_fit :: "u32 \<Rightarrow> 'a memlib_scheme \<Rightarrow> u32 option" where
  "find_fit wds s = find_fit_from wds (find_bucket wds s) s"

definition add_to_bucket ::
    "u32 \<Rightarrow> u32 \<Rightarrow> 'a memlib_scheme \<Rightarrow> 'a memlib_scheme option" where
  "add_to_bucket block_ptr bucket s = do {
     node \<leftarrow> GET bucket s;
     s \<leftarrow> PUT block_ptr 0 s;
     s \<leftarrow> PUT (block_ptr + 4) 0 s;
     if node = 0 then PUT bucket block_ptr s
     else do {
       s \<leftarrow> PUT (node + 4) block_ptr s;
       s \<leftarrow> PUT block_ptr node s;
       PUT bucket block_ptr s } }"

definition add_to_seglist :: "u32 \<Rightarrow> 'a memlib_scheme \<Rightarrow> 'a memlib_scheme option" where
  "add_to_seglist ptr s = do {
     n \<leftarrow> GET_SIZE (HDRP ptr) s;
     add_to_bucket ptr (find_bucket (n div WSIZE) s) s }"

definition remove_from_bucket ::
    "u32 \<Rightarrow> u32 \<Rightarrow> 'a memlib_scheme \<Rightarrow> 'a memlib_scheme option" where
  "remove_from_bucket block_ptr bucket s = do {
     hd_ptr \<leftarrow> GET bucket s;
     if hd_ptr = block_ptr
     then do {
       v \<leftarrow> GET block_ptr s;
       s \<leftarrow> PUT bucket v s;
       node \<leftarrow> GET block_ptr s;
       if node \<noteq> 0 then PUT (node + 4) 0 s else Some s }
     else do {
       node \<leftarrow> GET (block_ptr + 4) s;
       s \<leftarrow> (if node \<noteq> 0 then do { v \<leftarrow> GET block_ptr s; PUT node v s } else Some s);
       node2 \<leftarrow> GET node s;
       if node2 \<noteq> 0 then PUT (node2 + 4) node s else Some s } }"

definition remove_from_seglist :: "u32 \<Rightarrow> 'a memlib_scheme \<Rightarrow> 'a memlib_scheme option" where
  "remove_from_seglist ptr s = do {
     n \<leftarrow> GET_SIZE (HDRP ptr) s;
     remove_from_bucket ptr (find_bucket (n div WSIZE) s) s }"

section \<open>Doubly linked segments\<close>

text \<open>
  \<open>dlseg W pv x ps pv' x'\<close>: in the memory \<open>W\<close>, the blocks \<open>ps\<close> are linked in this order
  from the pointer \<open>x\<close>, whose node has \<open>pv\<close> as its previous pointer, to the pointer \<open>x'\<close>,
  and \<open>pv'\<close> is what the node at \<open>x'\<close> would have as its previous pointer.
\<close>

fun dlseg :: "(nat \<Rightarrow> u32) \<Rightarrow> u32 \<Rightarrow> u32 \<Rightarrow> nat list \<Rightarrow> u32 \<Rightarrow> u32 \<Rightarrow> bool" where
  "dlseg W pv x [] pv' x' \<longleftrightarrow> pv = pv' \<and> x = x'"
| "dlseg W pv x (p # ps) pv' x' \<longleftrightarrow>
     x = w32 p \<and> W (p + 4) = pv \<and> dlseg W (w32 p) (W p) ps pv' x'"

definition bucket_list :: "(nat \<Rightarrow> u32) \<Rightarrow> nat \<Rightarrow> nat list \<Rightarrow> bool" where
  "bucket_list W b ps \<longleftrightarrow> (\<exists>l. dlseg W 0 (W b) ps l 0)"

definition link_cells :: "nat list \<Rightarrow> nat set" where
  "link_cells ps = {a. \<exists>q \<in> set ps. a = q \<or> a = q + 4}"

lemma dlseg_append:
  "dlseg W pv x (as @ bs) pv' x' \<longleftrightarrow>
   (\<exists>m y. dlseg W pv x as m y \<and> dlseg W m y bs pv' x')"
  by (induction as arbitrary: pv x) auto

lemma link_cells_simps [simp]:
  "link_cells [] = {}"
  "link_cells (p # ps) = insert p (insert (p + 4) (link_cells ps))"
  "link_cells (ps @ qs) = link_cells ps \<union> link_cells qs"
  by (auto simp: link_cells_def)

lemma dlseg_cong:
  assumes "\<forall>a \<in> link_cells ps. W' a = W a"
  shows "dlseg W' pv x ps pv' x' = dlseg W pv x ps pv' x'"
  using assms
proof (induction ps arbitrary: pv x)
  case Nil
  then show ?case by simp
next
  case (Cons p ps)
  then have "W' p = W p" "W' (p + 4) = W (p + 4)" "\<forall>a \<in> link_cells ps. W' a = W a"
    by simp_all
  with Cons.IH show ?case by simp
qed

lemma dlseg_upd [simp]:
  "a \<notin> link_cells ps \<Longrightarrow> dlseg (W(a := v)) pv x ps pv' x' = dlseg W pv x ps pv' x'"
  by (rule dlseg_cong) auto

lemma bucket_list_cong:
  assumes "W' b = W b" "\<forall>a \<in> link_cells ps. W' a = W a"
  shows "bucket_list W' b ps = bucket_list W b ps"
  unfolding bucket_list_def assms(1) dlseg_cong [OF assms(2)] by (rule refl)

section \<open>Insertion and deletion\<close>

text \<open>The nodes of a list headed at \<open>b\<close>: in-range, 8-aligned blocks above the bucket.\<close>

definition node_ok :: "'a memlib_scheme \<Rightarrow> nat \<Rightarrow> nat \<Rightarrow> bool" where
  "node_ok s b q \<longleftrightarrow> 8 dvd q \<and> b < q \<and> cell s q \<and> cell s (q + 4)"

lemma node_ok_words [simp]: "node_ok (s\<lparr>words := W\<rparr>) b q = node_ok s b q"
  by (simp add: node_ok_def)

lemma node_okD:
  assumes "node_ok s b q"
  shows "8 dvd q" "b < q" "cell s q" "cell s (q + 4)" "q < 4294967296" "0 < q"
    "w32 q \<noteq> 0" "b \<noteq> q" "b \<noteq> q + 4"
  using assms by (auto simp: node_ok_def cell_def w32_eq_0)

lemma aligned_neq: "8 dvd p \<Longrightarrow> 8 dvd q \<Longrightarrow> p \<noteq> q + (4 :: nat)"
  by presburger

lemma node_notin_cells:
  assumes "\<forall>q \<in> set ps. node_ok s b q" "8 dvd p" "p \<notin> set ps"
  shows "p \<notin> link_cells ps" "p + 4 \<notin> link_cells ps"
  using assms by (auto simp: link_cells_def node_ok_def dest: aligned_neq)

lemma bucket_notin_cells:
  "\<forall>q \<in> set ps. node_ok s b q \<Longrightarrow> b \<notin> link_cells ps"
  by (auto simp: link_cells_def node_ok_def)

lemma w32_add4: "w32 p + 4 = w32 (p + 4)"
  by (simp add: w32_add_numeral)

lemma add_to_bucket_spec:
  assumes b: "cell s b" and l: "bucket_list (words s) b ps"
    and ok: "\<forall>q \<in> set (p # ps). node_ok s b q" and d: "distinct (p # ps)"
  shows "\<exists>W. add_to_bucket (w32 p) (w32 b) s = Some (s\<lparr>words := W\<rparr>) \<and>
    bucket_list W b (p # ps) \<and>
    (\<forall>a. a \<noteq> b \<longrightarrow> a \<notin> link_cells (p # ps) \<longrightarrow> W a = words s a)"
proof (cases ps)
  case Nil
  from ok have np: "node_ok s b p" by simp
  from l Nil have "words s b = 0" by (simp add: bucket_list_def)
  with b Nil node_okD [OF np] show ?thesis
    by (intro exI [of _ "(words s)(p := 0, p + 4 := 0, b := w32 p)"])
      (simp add: add_to_bucket_def GET_cell PUT_cell w32_add4 bucket_list_def)
next
  case (Cons h t)
  from ok Cons have np: "node_ok s b p" and nh: "node_ok s b h"
    and nt: "\<forall>q \<in> set t. node_ok s b q" by simp_all
  from l Cons obtain l where hd: "words s b = w32 h" "words s (h + 4) = 0"
    and tl: "dlseg (words s) (w32 h) (words s h) t l 0"
    by (auto simp: bucket_list_def)
  note n = node_okD [OF np] node_okD [OF nh]
  have ne: "p \<noteq> h" "p \<notin> set t" "h \<notin> set t" using d Cons by auto
  have al: "h + 4 \<noteq> p" "p + 4 \<noteq> h" using n(1,10) by (auto dest: aligned_neq)
  have out: "p \<notin> link_cells t" "p + 4 \<notin> link_cells t" "h + 4 \<notin> link_cells t" "b \<notin> link_cells t"
    using node_notin_cells [OF nt] n(1,10) ne bucket_notin_cells [OF nt] by blast+
  let ?W = "(words s)(p := 0, p + 4 := 0, h + 4 := w32 p, p := w32 h, b := w32 p)"
  have "add_to_bucket (w32 p) (w32 b) s = Some (s\<lparr>words := ?W\<rparr>)"
    using b hd n by (simp add: add_to_bucket_def GET_cell PUT_cell w32_add4)
  moreover have "bucket_list ?W b (p # ps)"
    using hd tl n ne al out Cons by (auto simp: bucket_list_def)
  moreover have "\<forall>a. a \<noteq> b \<longrightarrow> a \<notin> link_cells (p # ps) \<longrightarrow> ?W a = words s a"
    using Cons by simp
  ultimately show ?thesis by blast
qed

lemma remove_first_spec:
  assumes b: "cell s b" and l: "bucket_list (words s) b (p # ps)"
    and ok: "\<forall>q \<in> set (p # ps). node_ok s b q" and d: "distinct (p # ps)"
  shows "\<exists>W. remove_from_bucket (w32 p) (w32 b) s = Some (s\<lparr>words := W\<rparr>) \<and>
    bucket_list W b ps \<and>
    (\<forall>a. a \<noteq> b \<longrightarrow> a \<notin> link_cells (p # ps) \<longrightarrow> W a = words s a)"
proof (cases ps)
  case Nil
  from ok have np: "node_ok s b p" by simp
  from l Nil have "words s b = w32 p" "words s p = 0" by (simp_all add: bucket_list_def)
  with b Nil node_okD [OF np] show ?thesis
    by (intro exI [of _ "(words s)(b := 0)"])
      (simp add: remove_from_bucket_def GET_cell PUT_cell bucket_list_def)
next
  case (Cons h t)
  from ok Cons have np: "node_ok s b p" and nh: "node_ok s b h"
    and nt: "\<forall>q \<in> set t. node_ok s b q" by simp_all
  from l Cons obtain l where hd: "words s b = w32 p" "words s p = w32 h"
    and tl: "dlseg (words s) (w32 h) (words s h) t l 0"
    by (auto simp: bucket_list_def)
  note n = node_okD [OF np] node_okD [OF nh]
  have ne: "p \<noteq> h" "h \<notin> set t" using d Cons by auto
  have al: "h + 4 \<noteq> p" using n(1,10) by (auto dest: aligned_neq)
  have out: "h + 4 \<notin> link_cells t" "b \<notin> link_cells t"
    using node_notin_cells [OF nt] n(10) ne bucket_notin_cells [OF nt] by blast+
  let ?W = "(words s)(b := w32 h, h + 4 := 0)"
  have "remove_from_bucket (w32 p) (w32 b) s = Some (s\<lparr>words := ?W\<rparr>)"
    using b hd n by (simp add: remove_from_bucket_def GET_cell PUT_cell w32_add4)
  moreover have "bucket_list ?W b ps"
    using tl n out Cons by (auto simp: bucket_list_def)
  moreover have "\<forall>a. a \<noteq> b \<longrightarrow> a \<notin> link_cells (p # ps) \<longrightarrow> ?W a = words s a"
    using Cons by simp
  ultimately show ?thesis by blast
qed

text \<open>The general case: \<open>q\<close> is the predecessor of the removed node \<open>p\<close>.\<close>

lemma remove_inner_spec:
  assumes b: "cell s b" and l: "bucket_list (words s) b (cs @ q # p # ps)"
    and ok: "\<forall>r \<in> set (cs @ q # p # ps). node_ok s b r" and d: "distinct (cs @ q # p # ps)"
  shows "\<exists>W. remove_from_bucket (w32 p) (w32 b) s = Some (s\<lparr>words := W\<rparr>) \<and>
    bucket_list W b (cs @ q # ps) \<and>
    (\<forall>a. a \<noteq> b \<longrightarrow> a \<notin> link_cells (cs @ q # p # ps) \<longrightarrow> W a = words s a)"
proof -
  from ok have np: "node_ok s b p" and nq: "node_ok s b q"
    and nc: "\<forall>r \<in> set cs. node_ok s b r" and nt: "\<forall>r \<in> set ps. node_ok s b r" by simp_all
  note n = node_okD [OF np] node_okD [OF nq]
  from l obtain l m where seg: "dlseg (words s) 0 (words s b) cs m (w32 q)"
    and q: "words s (q + 4) = m" "words s q = w32 p"
    and p: "words s (p + 4) = w32 q"
    and tl: "dlseg (words s) (w32 p) (words s p) ps l 0"
    by (auto simp: bucket_list_def dlseg_append)
  have ne: "p \<noteq> q" "p \<notin> set ps" "q \<notin> set ps" "p \<notin> set cs" "q \<notin> set cs" using d by auto
  have al: "q + 4 \<noteq> p" "p + 4 \<noteq> q" using n(1,10) by (auto dest: aligned_neq)
  have out: "q \<notin> link_cells cs" "b \<notin> link_cells cs" "q \<notin> link_cells ps" "b \<notin> link_cells ps"
    using node_notin_cells [OF nc] node_notin_cells [OF nt] n(1,10) ne
      bucket_notin_cells [OF nc] bucket_notin_cells [OF nt] by blast+
  have nhd: "words s b \<noteq> w32 p"
    using seg ne nc n by (cases cs) (auto simp: w32_inject dest!: node_okD(5))
  show ?thesis
  proof (cases ps)
    case Nil
    with tl have z: "words s p = 0" by simp
    let ?W = "(words s)(q := 0)"
    have "remove_from_bucket (w32 p) (w32 b) s = Some (s\<lparr>words := ?W\<rparr>)"
      using b nhd p z n by (simp add: remove_from_bucket_def GET_cell PUT_cell w32_add4)
    moreover have "bucket_list ?W b (cs @ q # ps)"
      using seg q n out Nil by (auto simp: bucket_list_def dlseg_append)
    ultimately show ?thesis by (intro exI [of _ ?W]) auto
  next
    case (Cons h t)
    with nt have nh: "node_ok s b h" and nt': "\<forall>r \<in> set t. node_ok s b r" by simp_all
    note n = n node_okD [OF nh]
    from tl Cons have h: "words s p = w32 h" "words s (h + 4) = w32 p"
      and tl': "dlseg (words s) (w32 h) (words s h) t l 0" by auto
    have ne': "h \<noteq> q" "h \<notin> set t" "h \<notin> set cs" "h \<noteq> p" "q \<notin> set t" using d Cons by auto
    have al': "h + 4 \<noteq> q" "q + 4 \<noteq> h" "h + 4 \<noteq> p" using n(1,10,19) by (auto dest: aligned_neq)
    have out': "h + 4 \<notin> link_cells cs" "h + 4 \<notin> link_cells t" "q \<notin> link_cells t"
      using node_notin_cells [OF nc] node_notin_cells [OF nt'] n(10,19) ne' by blast+
    let ?W = "(words s)(q := w32 h, h + 4 := w32 q)"
    have "remove_from_bucket (w32 p) (w32 b) s = Some (s\<lparr>words := ?W\<rparr>)"
      using b nhd p h n ne' al' by (simp add: remove_from_bucket_def GET_cell PUT_cell w32_add4)
    moreover have "bucket_list ?W b (cs @ q # ps)"
      using seg q tl' n ne' al' out out' Cons by (auto simp: bucket_list_def dlseg_append)
    ultimately show ?thesis using Cons by (intro exI [of _ ?W]) auto
  qed
qed

lemma remove_from_bucket_spec:
  assumes b: "cell s b" and l: "bucket_list (words s) b ps"
    and ok: "\<forall>q \<in> set ps. node_ok s b q" and d: "distinct ps" and p: "p \<in> set ps"
  shows "\<exists>W. remove_from_bucket (w32 p) (w32 b) s = Some (s\<lparr>words := W\<rparr>) \<and>
    bucket_list W b (remove1 p ps) \<and>
    (\<forall>a. a \<noteq> b \<longrightarrow> a \<notin> link_cells ps \<longrightarrow> W a = words s a)"
proof -
  from p obtain as bs where ps: "ps = as @ p # bs" by (meson split_list)
  show ?thesis
  proof (cases as rule: rev_cases)
    case Nil
    with remove_first_spec [of s b p bs] b l ok d ps show ?thesis by simp
  next
    case (snoc cs q)
    with d ps have "remove1 p ps = cs @ q # bs" by (simp add: remove1_append)
    with remove_inner_spec [of s b cs q p bs] b l ok d ps snoc show ?thesis by simp
  qed
qed

section \<open>The bucket of a size\<close>

text \<open>The number of the bucket \<open>find_bucket\<close> chooses for \<open>n\<close> bytes, \<open>32\<close> if there is none.\<close>

definition bucket_index :: "nat \<Rightarrow> nat" where
  "bucket_index n = length (takeWhile (\<lambda>k. 2 ^ k < n) [0..<32])"

lemma bucket_index_eqI:
  assumes "n \<le> 2 ^ k" "\<forall>j < k. 2 ^ j < n" "k < 32"
  shows "bucket_index n = k"
proof -
  have "[0..<32] = [0..<k] @ k # [Suc k..<32]"
    using upt_add_eq_append [of 0 k "32 - k"] assms(3) by (simp add: upt_conv_Cons)
  moreover have "takeWhile (\<lambda>k. 2 ^ k < n) ([0..<k] @ k # [Suc k..<32]) = [0..<k]"
    using assms(1,2) by (subst takeWhile_append2) auto
  ultimately show ?thesis by (simp add: bucket_index_def)
qed

lemma bucket_index_spec:
  assumes "n \<le> 2147483648"
  shows "bucket_index n < 32" "n \<le> 2 ^ bucket_index n" "\<forall>j < bucket_index n. 2 ^ j < n"
proof -
  define k where "k = (LEAST k. n \<le> 2 ^ k)"
  have ex: "n \<le> 2 ^ 31" using assms by simp
  have le: "n \<le> 2 ^ k" unfolding k_def by (rule LeastI) (rule ex)
  have "k \<le> 31" unfolding k_def by (rule Least_le) (rule ex)
  then have lt: "k < 32" by simp
  have less: "\<forall>j < k. 2 ^ j < n"
    unfolding k_def using not_less_Least not_le_imp_less by blast
  have "bucket_index n = k" by (rule bucket_index_eqI [OF le less lt])
  with le lt less show "bucket_index n < 32" "n \<le> 2 ^ bucket_index n"
    "\<forall>j < bucket_index n. 2 ^ j < n" by simp_all
qed

lemma bucket_index_none: "2147483648 < n \<Longrightarrow> bucket_index n = 32"
proof -
  assume n: "2147483648 < n"
  have "2 ^ k < n" if "k < 32" for k :: nat
  proof -
    have "(2 :: nat) ^ k \<le> 2 ^ 31" using that by (intro power_increasing) simp_all
    with n show ?thesis by simp
  qed
  then have "takeWhile (\<lambda>k. 2 ^ k < n) [0..<32] = [0..<32]"
    by (intro takeWhile_eq_all_conv [THEN iffD2]) simp
  then show ?thesis by (simp only: bucket_index_def length_upt)
qed

lemma bucket_index_mono:
  assumes "m \<le> n" "n \<le> 2147483648"
  shows "bucket_index m \<le> bucket_index n"
proof (rule ccontr)
  assume "\<not> ?thesis"
  then have "2 ^ bucket_index n < m" using bucket_index_spec(3) [of m] assms by simp
  with bucket_index_spec(2) [OF assms(2)] assms(1) show False by simp
qed

declare find_bucket_from.simps [simp del]

lemma shift_one: "(2 :: u32) ^ k = w32 (2 ^ k)"
  by (simp add: w32_def)

lemma find_bucket_from_eq:
  assumes n: "wds * 4 = w32 n" "n < 4294967296" "k \<le> bucket_index n"
  shows "find_bucket_from k wds s =
    (if bucket_index n < 32 then mem_heap_lo s + w32 (4 * bucket_index n) else 0)"
  using assms(3)
proof (induction "bucket_index n - k" arbitrary: k)
  case 0
  show ?case
  proof (cases "n \<le> 2147483648")
    case True
    note c = bucket_index_spec [OF True]
    have "(2 :: nat) ^ bucket_index n < 2 ^ 32" using c(1) by (intro power_strict_increasing) simp_all
    with 0 c n show ?thesis
      by (simp add: find_bucket_from.simps [of k] shift_one w32_simps)
  next
    case False
    with 0 bucket_index_none [of n] show ?thesis by (simp add: find_bucket_from.simps [of 32])
  qed
next
  case (Suc d)
  then have k: "k < bucket_index n" by simp
  then have k32: "k < 32"
    using bucket_index_spec(1) [of n] bucket_index_none [of n] by (cases "n \<le> 2147483648") auto
  then have lt: "(2 :: nat) ^ k < 4294967296"
    using power_strict_increasing [of k 32 "2 :: nat"] by simp
  have "2 ^ k < n"
    using k bucket_index_spec(3) [of n] bucket_index_none [of n] k32 lt
      power_increasing [of k 31 "2 :: nat"]
    by (cases "n \<le> 2147483648") auto
  with n k32 lt have "\<not> wds * 4 \<le> push_bit k 1"
    by (simp add: shift_one w32_simps)
  with k32 have "find_bucket_from k wds s = find_bucket_from (Suc k) wds s"
    by (simp add: find_bucket_from.simps [of k])
  also have "\<dots> = (if bucket_index n < 32 then mem_heap_lo s + w32 (4 * bucket_index n) else 0)"
    by (rule Suc.hyps(1)) (use Suc.hyps(2) k in simp_all)
  finally show ?case .
qed

lemma find_bucket_eq:
  "wds * 4 = w32 n \<Longrightarrow> n < 4294967296 \<Longrightarrow> find_bucket wds s =
    (if bucket_index n < 32 then mem_heap_lo s + w32 (4 * bucket_index n) else 0)"
  unfolding find_bucket_def by (rule find_bucket_from_eq) simp_all

text \<open>The word count that the callers pass, \<open>size / WSIZE\<close>, times \<open>WSIZE\<close> is the size again.\<close>

lemma div4_mult4: "4 dvd n \<Longrightarrow> n < 4294967296 \<Longrightarrow> w32 n div 4 * 4 = w32 n"
proof -
  assume n: "4 dvd n" "n < 4294967296"
  have "unat (w32 n div 4) = n div 4" using n(2) by (simp add: unat_div unat_w32)
  then have "w32 n div 4 = w32 (n div 4)" by (metis w32_unat)
  with n(1) show ?thesis by (simp add: w32_simps)
qed

lemma find_bucket_size:
  assumes "8 dvd n" "n \<le> 2147483648"
  shows "find_bucket (w32 n div 4) s = mem_heap_lo s + w32 (4 * bucket_index n)"
proof -
  have "4 dvd n" using assms(1) by presburger
  then have "w32 n div 4 * 4 = w32 n" using assms(2) by (intro div4_mult4) simp_all
  with assms(2) find_bucket_eq [of "w32 n div 4" n s] bucket_index_spec(1) [OF assms(2)]
  show ?thesis by simp
qed

section \<open>The search for a fit\<close>

text \<open>The pointer the C code returns for the outcome of a search: 0 when there is none.\<close>

definition ptr_of :: "nat option \<Rightarrow> u32" where
  "ptr_of r = (case r of None \<Rightarrow> 0 | Some p \<Rightarrow> w32 p)"

lemma ptr_of_simps [simp]: "ptr_of None = 0" "ptr_of (Some p) = w32 p"
  by (simp_all add: ptr_of_def)

lemma find_append:
  "find P (xs @ ys) = (case find P xs of None \<Rightarrow> find P ys | Some x \<Rightarrow> Some x)"
  by (induction xs) auto

text \<open>\<open>listed s b sz p\<close>: \<open>p\<close> can be on the list at \<open>b\<close> and its header says \<open>sz p\<close> bytes.\<close>

definition listed :: "'a memlib_scheme \<Rightarrow> nat \<Rightarrow> (nat \<Rightarrow> nat) \<Rightarrow> nat \<Rightarrow> bool" where
  "listed s b sz p \<longleftrightarrow> node_ok s b p \<and> cell s (p - 4) \<and> 8 dvd sz p \<and> sz p < 4294967296
     \<and> (\<exists>u. words s (p - 4) = tag (sz p) u)"

lemma find_node_spec:
  assumes "dlseg (words s) pv x ps l 0" "\<forall>p \<in> set ps. listed s b sz p"
    and n: "wds * 4 = w32 n" "n < 4294967296"
  shows "find_node wds x s = Some (ptr_of (find (\<lambda>p. n \<le> sz p) ps))"
  using assms(1,2)
proof (induction ps arbitrary: pv x)
  case Nil
  then show ?case by (simp add: find_node.simps)
next
  case (Cons p ps)
  then have ok: "node_ok s b p" "cell s (p - 4)" "8 dvd sz p" "sz p < 4294967296"
    and x: "x = w32 p" and tl: "dlseg (words s) (w32 p) (words s p) ps l 0"
    by (auto simp: listed_def)
  from Cons.prems obtain u where "words s (p - 4) = tag (sz p) u" by (auto simp: listed_def)
  moreover have "4 \<le> p" using node_okD(1,6) [OF ok(1)] by (auto dest: dvd_imp_le)
  ultimately have "GET_SIZE (HDRP x) s = Some (w32 (sz p))"
    using ok x by (simp add: HDRP_w32 GET_SIZE_cell)
  then show ?case
    using Cons.IH [OF tl] Cons.prems(2) n ok x node_okD [OF ok(1)]
    by (simp add: find_node.simps [of wds "w32 p"] GET_cell w32_le)
qed

lemma find_fit_from_spec:
  assumes lo: "mem_heap_lo s = w32 L" "L + 128 < 4294967296" "k \<le> 32"
    and fl: "\<forall>j < 32. cell s (L + 4 * j) \<and> bucket_list (words s) (L + 4 * j) (fl j)
      \<and> (\<forall>p \<in> set (fl j). listed s (L + 4 * j) sz p)"
    and n: "wds * 4 = w32 n" "n < 4294967296"
  shows "find_fit_from wds (w32 (L + 4 * k)) s =
    Some (ptr_of (find (\<lambda>p. n \<le> sz p) (concat (map fl [k..<32]))))"
  using lo(3)
proof (induction "32 - k" arbitrary: k)
  case 0
  then show ?case using lo(1,2) by (simp add: find_fit_from.simps w32_simps)
next
  case (Suc d)
  then have k: "k < 32" by simp
  with fl have c: "cell s (L + 4 * k)" and l: "\<forall>p \<in> set (fl k). listed s (L + 4 * k) sz p"
    by auto
  obtain e where "dlseg (words s) 0 (words s (L + 4 * k)) (fl k) e 0"
    using fl k unfolding bucket_list_def by blast
  note r = find_node_spec [OF this l n]
  have nz: "w32 p \<noteq> 0" if "find (\<lambda>p. n \<le> sz p) (fl k) = Some p" for p
    using that l node_okD(7) unfolding find_Some_iff listed_def by (metis nth_mem)
  have "find_fit_from wds (w32 (L + 4 * Suc k)) s =
      Some (ptr_of (find (\<lambda>p. n \<le> sz p) (concat (map fl [Suc k..<32]))))"
    by (rule Suc.hyps(1)) (use Suc.hyps(2) k in simp_all)
  moreover have "L + 4 * Suc k = L + 4 * k + 4" by simp
  ultimately have IH: "find_fit_from wds (w32 (L + 4 * k + 4)) s =
      Some (ptr_of (find (\<lambda>p. n \<le> sz p) (concat (map fl [Suc k..<32]))))"
    by (simp only:)
  have "concat (map fl [k..<32]) = fl k @ concat (map fl [Suc k..<32])"
    using k by (simp add: upt_conv_Cons)
  then show ?case
    using lo(1,2) k c r IH nz
    by (subst find_fit_from.simps)
      (simp add: w32_simps GET_cell find_append split: option.splits)
qed

text \<open>
  \<open>find_fit\<close> is a first-fit search through the lists from the request's own bucket upwards.
\<close>

theorem find_fit_spec:
  assumes lo: "mem_heap_lo s = w32 L" "L + 128 < 4294967296"
    and fl: "\<forall>j < 32. cell s (L + 4 * j) \<and> bucket_list (words s) (L + 4 * j) (fl j)
      \<and> (\<forall>p \<in> set (fl j). listed s (L + 4 * j) sz p)"
    and n: "wds * 4 = w32 n" "n \<le> 2147483648"
  shows "find_fit wds s =
    Some (ptr_of (find (\<lambda>p. n \<le> sz p) (concat (map fl [bucket_index n..<32]))))"
proof -
  have "find_bucket wds s = w32 (L + 4 * bucket_index n)"
    using find_bucket_eq [OF n(1), of s] n(2) bucket_index_spec(1) [OF n(2)] lo(1)
    by (simp add: w32_add)
  with find_fit_from_spec [OF lo _ fl n(1)] n(2) bucket_index_spec(1) [OF n(2)]
  show ?thesis by (simp add: find_fit_def)
qed

text \<open>
  A request above \<open>2 ^ 31\<close> bytes has no bucket: \<open>find_bucket\<close> returns the null pointer and
  \<open>find_fit\<close> dereferences it.
\<close>

lemma find_fit_null:
  assumes "mem_heap_lo s = w32 L" "0 < store_lo s" "L + 128 < 4294967296"
    and "wds * 4 = w32 n" "2147483648 < n" "n < 4294967296"
  shows "find_fit wds s = None"
proof -
  have "find_bucket wds s = 0"
    using find_bucket_eq [OF assms(4,6), of s] bucket_index_none [OF assms(5)] by simp
  moreover have "GET 0 s = None" using assms(2) by (simp add: GET_def word_ok_def)
  moreover have "(0 :: u32) < w32 (L + 128)"
    using assms(3) by (simp add: word_less_nat_alt unat_w32)
  ultimately show ?thesis
    using assms(1) by (simp add: find_fit_def find_fit_from.simps [of _ 0] w32_simps)
qed

end
