(* ===== verification/Heap_Layout.thy ===== *)
theory Heap_Layout
  imports Seglist
begin

text \<open>
  The heap invariant of \<^verbatim>\<open>mm.c\<close>. A heap is described by the list of its blocks, in address
  order, and by the lists of the free blocks its buckets thread; the invariant says what the
  words of the storage are under this description.

  Operations break the invariant while they run, and always in the same way: some blocks are
  taken out of the free lists and their boundary tags are rewritten. \<open>heap_core X\<close> is the
  invariant with the blocks at the addresses \<open>X\<close> \<^emph>\<open>opened\<close>: they count as used, and nothing
  is said of their tags. \<open>heap_core {}\<close> is the invariant between two calls. The lemmas of this
  theory are the steps between such states: unlinking a free block opens it, opened
  neighbours merge, an opened block splits, writing inside an opened block is unobservable,
  and writing its tags closes it again.
\<close>

section \<open>Blocks and their layout\<close>

datatype block = Blk (bptr: nat) (bsize: nat) (used: bool)

fun chain :: "nat \<Rightarrow> block list \<Rightarrow> nat \<Rightarrow> bool" where
  "chain p [] e \<longleftrightarrow> p = e"
| "chain p (b # bs) e \<longleftrightarrow>
     bptr b = p \<and> 32 \<le> bsize b \<and> 8 dvd bsize b \<and> chain (p + bsize b) bs e"

lemma chain_append:
  "chain p (xs @ ys) e \<longleftrightarrow> (\<exists>m. chain p xs m \<and> chain m ys e)"
  by (induction xs arbitrary: p) auto

lemma chain_le: "chain p bs e \<Longrightarrow> p \<le> e"
  by (induction bs arbitrary: p) force+

lemma chain_dvd: "chain p bs e \<Longrightarrow> 8 dvd p \<Longrightarrow> 8 dvd e"
  by (induction bs arbitrary: p) auto

lemma chain_mem:
  assumes "chain s bs e" "Blk p n u \<in> set bs"
  shows "s \<le> p" "p + n \<le> e" "32 \<le> n" "8 dvd n" "8 dvd s \<longrightarrow> 8 dvd p"
proof -
  from assms(2) obtain xs ys where "bs = xs @ Blk p n u # ys" by (meson split_list)
  with assms(1) have c: "chain s xs p" "chain (p + n) ys e" "32 \<le> n" "8 dvd n"
    by (auto simp: chain_append)
  from c chain_le chain_dvd show "s \<le> p" "p + n \<le> e" "32 \<le> n" "8 dvd n" "8 dvd s \<longrightarrow> 8 dvd p"
    by auto
qed

text \<open>Two blocks of a chain are the same block or lie apart.\<close>

lemma chain_apart:
  assumes "chain s bs e" "Blk p n u \<in> set bs" "Blk q m v \<in> set bs"
  shows "Blk p n u = Blk q m v \<or> p + n \<le> q \<or> q + m \<le> p"
  using assms
proof (induction bs arbitrary: s)
  case Nil
  then show ?case by simp
next
  case (Cons b bs)
  then have c: "chain (s + bsize b) bs e" by simp
  show ?case
    using Cons.prems Cons.IH [OF c] chain_mem(1) [OF c] by auto
qed

lemma chain_unique:
  assumes "chain s bs e" "Blk p n u \<in> set bs" "Blk p m v \<in> set bs"
  shows "n = m \<and> u = v"
  using chain_apart [OF assms] chain_mem(3) [OF assms(1,2)] chain_mem(3) [OF assms(1,3)] by auto

lemma chain_notin:
  assumes "chain s (xs @ Blk p n u # ys) e" "b \<in> set xs \<union> set ys"
  shows "bptr b \<noteq> p"
  using assms chain_le by (cases b) (force simp: chain_append in_set_conv_decomp)

text \<open>Blocks are ordered by their address; a heap lists them in increasing order, each once.\<close>

instantiation block :: linorder
begin

definition less_eq_block :: "block \<Rightarrow> block \<Rightarrow> bool" where
  "less_eq_block b c \<longleftrightarrow> bptr b < bptr c
     \<or> bptr b = bptr c \<and> (bsize b < bsize c \<or> bsize b = bsize c \<and> used b \<le> used c)"

definition less_block :: "block \<Rightarrow> block \<Rightarrow> bool" where
  "less_block b c \<longleftrightarrow> b \<le> c \<and> \<not> c \<le> b"

instance
  by standard (auto simp: less_eq_block_def less_block_def intro: block.expand)

end

lemma chain_sorted: "chain p bs e \<Longrightarrow> sorted_wrt (<) bs"
proof (induction bs arbitrary: p)
  case (Cons b bs)
  then have c: "chain (p + bsize b) bs e" and b: "bptr b = p" "32 \<le> bsize b" by simp_all
  have "b < b'" if "b' \<in> set bs" for b'
    using chain_mem(1) [OF c, of "bptr b'" "bsize b'" "used b'"] that b
    by (simp add: less_block_def less_eq_block_def)
  with Cons.IH [OF c] show ?case by simp
qed simp

lemma chain_distinct:
  assumes "chain p bs e"
  shows "distinct (map bptr bs)"
proof -
  have "inj_on bptr (set bs)"
  proof (rule inj_onI)
    fix b c assume "b \<in> set bs" "c \<in> set bs" "bptr b = bptr c"
    with chain_unique [OF assms, of "bptr b" "bsize b" "used b" "bsize c" "used c"] show "b = c"
      by (cases b; cases c) simp
  qed
  moreover have "distinct bs" using chain_sorted [OF assms] by (simp add: strict_sorted_iff)
  ultimately show ?thesis by (simp add: distinct_map)
qed

section \<open>The invariant\<close>

abbreviation lo :: "'a memlib_scheme \<Rightarrow> nat" where
  "lo s \<equiv> unat (mem_start_brk s)"

abbreviation hi :: "'a memlib_scheme \<Rightarrow> nat" where
  "hi s \<equiv> unat (mem_brk s)"

definition region_ok :: "'a memlib_scheme \<Rightarrow> bool" where
  "region_ok s \<longleftrightarrow> store_lo s = lo s \<and> store_hi s = lo s + MAX_HEAP
     \<and> unat (mem_max_addr s) = lo s + MAX_HEAP \<and> 0 < lo s \<and> 8 dvd lo s
     \<and> lo s + 144 \<le> hi s \<and> hi s \<le> lo s + MAX_HEAP"

definition tagged :: "(nat \<Rightarrow> u32) \<Rightarrow> block \<Rightarrow> bool" where
  "tagged W b \<longleftrightarrow> W (bptr b - 4) = tag (bsize b) (used b)
     \<and> W (bptr b + bsize b - 8) = tag (bsize b) (used b)"

definition no_free_pair :: "block list \<Rightarrow> bool" where
  "no_free_pair bs \<longleftrightarrow> successively (\<lambda>x y. used x \<or> used y) bs"

definition free_in :: "block list \<Rightarrow> nat \<Rightarrow> nat set" where
  "free_in bs k = {p. \<exists>n. Blk p n False \<in> set bs \<and> bucket_index n = k}"

definition heap_core ::
    "nat set \<Rightarrow> 'a memlib_scheme \<Rightarrow> block list \<Rightarrow> (nat \<Rightarrow> nat list) \<Rightarrow> bool" where
  "heap_core X s bs fl \<longleftrightarrow> region_ok s \<and> chain (lo s + 144) bs (hi s)
     \<and> words s (lo s + 132) = tag 8 True \<and> words s (lo s + 136) = tag 8 True
     \<and> words s (hi s - 4) = tag 0 True
     \<and> (\<forall>b \<in> set bs. bptr b \<notin> X \<longrightarrow> tagged (words s) b)
     \<and> (\<forall>b \<in> set bs. bptr b \<in> X \<longrightarrow> used b)
     \<and> (\<forall>k < 32. bucket_list (words s) (lo s + 4 * k) (fl k) \<and> distinct (fl k)
          \<and> set (fl k) = free_in bs k)
     \<and> no_free_pair bs"

text \<open>The words the invariant talks about, and those the free lists may change.\<close>

definition owned :: "nat set \<Rightarrow> 'a memlib_scheme \<Rightarrow> block list \<Rightarrow> nat set" where
  "owned X s bs = {lo s ..< lo s + 140} \<union> {hi s - 4}
     \<union> {a. \<exists>p n u. Blk p n u \<in> set bs \<and> p \<notin> X \<and> (a = p - 4 \<or> a = p + n - 8)}
     \<union> {a. \<exists>p n. Blk p n False \<in> set bs \<and> (a = p \<or> a = p + 4)}"

definition link_area :: "'a memlib_scheme \<Rightarrow> block list \<Rightarrow> nat set" where
  "link_area s bs = {lo s ..< lo s + 128}
     \<union> {a. \<exists>p n. Blk p n False \<in> set bs \<and> (a = p \<or> a = p + 4)}"

text \<open>The words of a used block that is not opened stay as they are.\<close>

definition preserves :: "nat set \<Rightarrow> block list \<Rightarrow> (nat \<Rightarrow> u32) \<Rightarrow> (nat \<Rightarrow> u32) \<Rightarrow> bool" where
  "preserves X bs V W \<longleftrightarrow> (\<forall>p n a. Blk p n True \<in> set bs \<longrightarrow> p \<notin> X \<longrightarrow>
     p - 4 \<le> a \<longrightarrow> a < p + n - 4 \<longrightarrow> W a = V a)"

section \<open>What the invariant says of a block\<close>

lemma heap_core_region: "heap_core X s bs fl \<Longrightarrow> region_ok s"
  by (simp add: heap_core_def)

lemma heap_core_chain: "heap_core X s bs fl \<Longrightarrow> chain (lo s + 144) bs (hi s)"
  by (simp add: heap_core_def)

lemma region_cell:
  assumes "region_ok s" "lo s \<le> a" "a + 4 \<le> hi s" "4 dvd a"
  shows "cell s a"
proof -
  have "a mod 4 = 0" using assms(4) by presburger
  moreover have "a < 4294967296" using assms(3) unat_lt32 [of "mem_brk s"] by linarith
  ultimately show ?thesis using assms(1-3) by (simp add: region_ok_def cell_def)
qed

lemma core_block:
  assumes "heap_core X s bs fl" "Blk p n u \<in> set bs"
  shows "lo s + 144 \<le> p" "p + n \<le> hi s" "32 \<le> n" "8 dvd n" "8 dvd p"
    "p < 4294967296" "n \<le> MAX_HEAP" "p + n < 4294967296"
proof -
  note c = chain_mem [OF heap_core_chain [OF assms(1)] assms(2)]
  have r: "8 dvd lo s" "hi s \<le> lo s + MAX_HEAP"
    using heap_core_region [OF assms(1)] by (auto simp: region_ok_def)
  show "lo s + 144 \<le> p" "p + n \<le> hi s" "32 \<le> n" "8 dvd n" "8 dvd p"
    "p < 4294967296" "n \<le> MAX_HEAP" "p + n < 4294967296"
    using c r unat_lt32 [of "mem_brk s"] by (simp_all add: dvd_add_right_iff)
qed

text \<open>Every aligned word from the header of a block to its last word is in the storage.\<close>

lemma core_cell:
  assumes "heap_core X s bs fl" "Blk p n u \<in> set bs" "p - 4 \<le> a" "a < p + n" "4 dvd a"
  shows "cell s a"
proof -
  note b = core_block [OF assms(1,2)]
  have "4 dvd p + n" using b(4,5) by presburger
  then have "a + 4 \<le> p + n" using assms(4,5) by presburger
  with b assms show ?thesis
    by (intro region_cell [OF heap_core_region [OF assms(1)]]) simp_all
qed

lemma core_tags:
  assumes "heap_core X s bs fl" "Blk p n u \<in> set bs" "p \<notin> X"
  shows "words s (p - 4) = tag n u" "words s (p + n - 8) = tag n u"
proof -
  have "tagged (words s) (Blk p n u)" using assms by (force simp: heap_core_def)
  then show "words s (p - 4) = tag n u" "words s (p + n - 8) = tag n u"
    by (simp_all add: tagged_def)
qed

section \<open>What the invariant does not depend on\<close>

text \<open>
  The invariant looks at the owned words only; a used block owns its two tags, and no more
  than that; an opened block owns nothing.
\<close>

lemma owned_tag:
  "Blk p n u \<in> set bs \<Longrightarrow> p \<notin> X \<Longrightarrow> p - 4 \<in> owned X s bs"
  "Blk p n u \<in> set bs \<Longrightarrow> p \<notin> X \<Longrightarrow> p + n - 8 \<in> owned X s bs"
  unfolding owned_def by blast+

lemma block_at: "bptr b = p \<Longrightarrow> b = Blk p (bsize b) (used b)"
  by auto

lemma heap_core_cong:
  assumes core: "heap_core X s bs fl" and W: "\<forall>a \<in> owned X s bs. W a = words s a"
  shows "heap_core X (s\<lparr>words := W\<rparr>) bs fl"
proof -
  have sentinels: "W (lo s + 132) = words s (lo s + 132)" "W (lo s + 136) = words s (lo s + 136)"
    "W (hi s - 4) = words s (hi s - 4)"
    using W by (auto simp: owned_def)
  have tags: "tagged W b" if b: "b \<in> set bs" "bptr b \<notin> X" for b
  proof -
    obtain p n u where p: "b = Blk p n u" by (cases b)
    with b have "p - 4 \<in> owned X s bs" "p + n - 8 \<in> owned X s bs"
      using owned_tag [of p n u bs X s] by simp_all
    with W core b p core_tags [OF core, of p n u] show ?thesis by (simp add: tagged_def)
  qed
  have lists: "bucket_list W (lo s + 4 * k) (fl k)" if k: "k < 32" for k
  proof -
    have f: "set (fl k) = free_in bs k" and l: "bucket_list (words s) (lo s + 4 * k) (fl k)"
      using core k by (simp_all add: heap_core_def)
    have "W (lo s + 4 * k) = words s (lo s + 4 * k)"
      using W k by (auto simp: owned_def)
    moreover have "\<forall>a \<in> link_cells (fl k). W a = words s a"
      using W f by (auto simp: link_cells_def free_in_def owned_def)
    ultimately show ?thesis using l bucket_list_cong by blast
  qed
  have r: "region_ok (s\<lparr>words := W\<rparr>)"
    using heap_core_region [OF core] by (simp add: region_ok_def)
  show ?thesis
    using core r sentinels unfolding heap_core_def
    by (simp add: tags lists)
qed

lemma owned_used:
  assumes core: "heap_core X s bs fl" and b: "Blk p n True \<in> set bs"
    and a: "p - 4 \<le> a" "a < p + n - 4" "a \<in> owned X s bs"
  shows "p \<notin> X \<and> (a = p - 4 \<or> a = p + n - 8)"
proof -
  note B = core_block [OF core b]
  note apart = chain_apart [OF heap_core_chain [OF core] b]
  consider "a \<in> {lo s ..< lo s + 140} \<union> {hi s - 4}"
    | q m v where "Blk q m v \<in> set bs" "q \<notin> X" "a = q - 4 \<or> a = q + m - 8"
    | q m where "Blk q m False \<in> set bs" "a = q \<or> a = q + 4"
    using a(3) unfolding owned_def by auto
  then show ?thesis
  proof cases
    case 1
    with B a show ?thesis by auto
  next
    case 2
    note C = core_block [OF core 2(1)]
    from apart [OF 2(1)] B C a 2 show ?thesis by (auto; linarith)
  next
    case 3
    note C = core_block [OF core 3(1)]
    from apart [OF 3(1)] B C a 3 show ?thesis by auto
  qed
qed

lemma used_notin_link_area:
  assumes core: "heap_core X s bs fl" and b: "Blk p n True \<in> set bs"
    and a: "p - 4 \<le> a" "a < p + n - 4"
  shows "a \<notin> link_area s bs"
proof
  assume "a \<in> link_area s bs"
  note B = core_block [OF core b]
  consider "a < lo s + 128" | q m where "Blk q m False \<in> set bs" "a = q \<or> a = q + 4"
    using \<open>a \<in> link_area s bs\<close> unfolding link_area_def by auto
  then show False
  proof cases
    case 1
    with B a show ?thesis by auto
  next
    case 2
    from chain_apart [OF heap_core_chain [OF core] b 2(1)] core_block [OF core 2(1)] B a 2
    show ?thesis by auto
  qed
qed

section \<open>Ghost steps: opened blocks\<close>

lemma core_write_opened:
  assumes core: "heap_core X s bs fl" and b: "Blk p n True \<in> set bs" "p \<in> X"
    and a: "p - 4 \<le> a" "a < p + n - 4"
  shows "heap_core X (s\<lparr>words := (words s)(a := v)\<rparr>) bs fl"
  using owned_used [OF core b(1) a] b(2) by (intro heap_core_cong [OF core]) auto

lemma core_write_body:
  assumes core: "heap_core X s bs fl" and b: "Blk p n True \<in> set bs"
    and W: "\<forall>a. W a \<noteq> words s a \<longrightarrow> p \<le> a \<and> a < p + n - 8"
  shows "heap_core X (s\<lparr>words := W\<rparr>) bs fl"
proof (rule heap_core_cong [OF core], rule ballI, rule ccontr)
  fix a
  assume a: "a \<in> owned X s bs" "W a \<noteq> words s a"
  with W have *: "p \<le> a" "a < p + n - 8" by auto
  then have "p - 4 \<le> a" "a < p + n - 4" by auto
  with owned_used [OF core b _ _ a(1)] core_block [OF core b] * show False by auto
qed

lemma core_open: "heap_core X s bs fl \<Longrightarrow> Blk p n True \<in> set bs \<Longrightarrow> heap_core (insert p X) s bs fl"
  using chain_unique [OF heap_core_chain, of X s bs fl]
  by (auto simp: heap_core_def) (metis block.collapse block.sel(3))

lemma core_close:
  assumes core: "heap_core X s bs fl" and b: "Blk p n True \<in> set bs"
    and t: "words s (p - 4) = tag n True" "words s (p + n - 8) = tag n True"
  shows "heap_core (X - {p}) s bs fl"
proof -
  have "tagged (words s) b'" if b': "b' \<in> set bs" "bptr b' = p" for b'
  proof -
    from b' obtain m v where eq: "b' = Blk p m v" using block_at by blast
    with chain_unique [OF heap_core_chain [OF core] b, of m v] b'(1) t
    show ?thesis by (simp add: tagged_def)
  qed
  with core show ?thesis by (auto simp: heap_core_def)
qed

lemma free_in_used:
  "free_in (xs @ Blk p n True # ys) k = free_in (xs @ ys) k"
  by (auto simp: free_in_def)

lemma core_merge:
  assumes core: "heap_core X s (xs @ Blk p n True # Blk q m True # ys) fl" and X: "p \<in> X"
  shows "q = p + n" "heap_core (X - {q}) s (xs @ Blk p (n + m) True # ys) fl"
proof -
  let ?bs = "xs @ Blk p n True # Blk q m True # ys"
  have c: "chain (lo s + 144) ?bs (hi s)" by (rule heap_core_chain [OF core])
  then show q: "q = p + n" by (auto simp: chain_append)
  have c': "chain (lo s + 144) (xs @ Blk p (n + m) True # ys) (hi s)"
    using c by (auto simp: chain_append ac_simps)
  have "bptr b \<noteq> q" if "b \<in> set xs \<union> set ys" for b
    using chain_notin [of "lo s + 144" "xs @ [Blk p n True]" q m True ys "hi s" b] c that by auto
  moreover have "free_in ?bs k = free_in (xs @ Blk p (n + m) True # ys) k" for k
    by (auto simp: free_in_def)
  moreover have "p \<noteq> q" using q c by (auto simp: chain_append)
  moreover have "no_free_pair (xs @ Blk p (n + m) True # ys)"
    using core by (auto simp: heap_core_def no_free_pair_def successively_append_iff successively_Cons)
  ultimately show "heap_core (X - {q}) s (xs @ Blk p (n + m) True # ys) fl"
    using core c' X by (auto simp: heap_core_def)
qed

lemma core_split:
  assumes core: "heap_core X s (xs @ Blk p (n + m) True # ys) fl" and X: "p \<in> X"
    and sz: "32 \<le> n" "8 dvd n" "32 \<le> m" "8 dvd m"
  shows "heap_core (insert (p + n) X) s (xs @ Blk p n True # Blk (p + n) m True # ys) fl"
proof -
  let ?bs = "xs @ Blk p n True # Blk (p + n) m True # ys"
  have c: "chain (lo s + 144) (xs @ Blk p (n + m) True # ys) (hi s)" by (rule heap_core_chain [OF core])
  then have c': "chain (lo s + 144) ?bs (hi s)"
    using sz by (auto simp: chain_append ac_simps)
  have "bptr b \<noteq> p + n" if "b \<in> set xs \<union> set ys" for b
    using chain_notin [of "lo s + 144" "xs @ [Blk p n True]" "p + n" m True ys "hi s" b] c' that by auto
  moreover have "free_in ?bs k = free_in (xs @ Blk p (n + m) True # ys) k" for k
    by (auto simp: free_in_def)
  moreover have "no_free_pair ?bs"
    using core by (auto simp: heap_core_def no_free_pair_def successively_append_iff successively_Cons)
  ultimately show ?thesis
    using core c' X by (auto simp: heap_core_def)
qed

end
