(* ===== verification/Free_Index.thy ===== *)
theory Free_Index
  imports Heap_Layout
begin

text \<open>
  The free lists as the index of the free blocks: unlinking a free block and linking an
  opened one, on the whole heap. These are the only two steps that write the buckets and
  the pointers in the free blocks; everything else an operation does is to tags.
\<close>

section \<open>Linking and unlinking keep the rest of the heap\<close>

lemma link_cell_not_tag:
  assumes c: "chain e bs h" and q: "Blk q m v \<in> set bs" and p: "Blk p n u \<in> set bs"
    and a: "a = q \<or> a = q + 4" and e: "4 < e"
  shows "a \<noteq> p - 4" "a \<noteq> p + n - 8"
proof -
  note P = chain_mem [OF c p] and Q = chain_mem [OF c q]
  show "a \<noteq> p - 4" "a \<noteq> p + n - 8"
    using chain_apart [OF c q p] P Q a e by auto
qed

text \<open>What lies between the sentinels is no cell of a bucket, and link cells are not tags.\<close>

lemma link_cells_high:
  assumes c: "chain (lo s + 144) bs (hi s)" and qs: "\<forall>q \<in> set qs. \<exists>m v. Blk q m v \<in> set bs"
    and a: "a \<in> link_cells qs"
  shows "lo s + 144 \<le> a" "a + 8 < hi s" "\<exists>q m v. Blk q m v \<in> set bs \<and> (a = q \<or> a = q + 4)"
proof -
  from a obtain q where "q \<in> set qs" "a = q \<or> a = q + 4" by (auto simp: link_cells_def)
  with qs obtain m v where q: "Blk q m v \<in> set bs" "a = q \<or> a = q + 4" by blast
  with chain_mem [OF c q(1)] show "lo s + 144 \<le> a" "a + 8 < hi s" by auto
  show "\<exists>q m v. Blk q m v \<in> set bs \<and> (a = q \<or> a = q + 4)" using q by blast
qed

lemma relink_tagged:
  assumes c: "chain (lo s + 144) bs (hi s)" and qs: "\<forall>q \<in> set qs. \<exists>m v. Blk q m v \<in> set bs"
    and k: "k < 32" and frame: "\<forall>a. a \<noteq> lo s + 4 * k \<longrightarrow> a \<notin> link_cells qs \<longrightarrow> W a = words s a"
    and b: "b \<in> set bs" "tagged (words s) b"
  shows "tagged W b"
proof -
  obtain p n u where p: "b = Blk p n u" by (cases b)
  have "a \<notin> link_cells qs" if a: "a = p - 4 \<or> a = p + n - 8" for a
  proof
    assume "a \<in> link_cells qs"
    then obtain q m v where "Blk q m v \<in> set bs" "a = q \<or> a = q + 4"
      using link_cells_high(3) [OF c qs] by blast
    from link_cell_not_tag [OF c this(1) b(1) [unfolded p] this(2)] a show False by auto
  qed
  then have "p - 4 \<notin> link_cells qs" "p + n - 8 \<notin> link_cells qs" by simp_all
  moreover have "p - 4 \<noteq> lo s + 4 * k" "p + n - 8 \<noteq> lo s + 4 * k"
    using chain_mem [OF c b(1) [unfolded p]] k by auto
  ultimately have "W (p - 4) = words s (p - 4)" "W (p + n - 8) = words s (p + n - 8)"
    using frame by blast+
  with b(2) p show ?thesis by (auto simp: tagged_def)
qed

text \<open>
  The common part of both steps: the list of bucket \<open>k\<close> has become \<open>ps\<close>, by writes to the
  bucket and to the link words of the blocks \<open>qs\<close>, while the blocks have become \<open>bs'\<close>.
\<close>

lemma core_relink:
  assumes core: "heap_core X s bs fl"
    and c': "chain (lo s + 144) bs' (hi s)" and nf: "no_free_pair bs'"
    and tags: "\<forall>b \<in> set bs'. bptr b \<notin> X' \<longrightarrow> tagged (words s) b"
    and opened: "\<forall>b \<in> set bs'. bptr b \<in> X' \<longrightarrow> used b"
    and k: "k < 32" "bucket_list W (lo s + 4 * k) ps" "distinct ps" "set ps = free_in bs' k"
    and others: "\<forall>j. j \<noteq> k \<longrightarrow> free_in bs' j = free_in bs j"
    and qs: "\<forall>q \<in> set qs. 8 dvd q \<and> (\<exists>m v. Blk q m v \<in> set bs') \<and> (\<forall>j. j \<noteq> k \<longrightarrow> q \<notin> free_in bs j)"
    and frame: "\<forall>a. a \<noteq> lo s + 4 * k \<longrightarrow> a \<notin> link_cells qs \<longrightarrow> W a = words s a"
  shows "heap_core X' (s\<lparr>words := W\<rparr>) bs' (fl(k := ps))"
proof -
  note r = heap_core_region [OF core]
  have L: "0 < lo s" "8 dvd lo s" "lo s + 144 \<le> hi s" using r by (simp_all add: region_ok_def)
  have qb: "\<forall>q \<in> set qs. \<exists>m v. Blk q m v \<in> set bs'" using qs by blast
  note high = link_cells_high(1,2) [OF c' qb]
  have sentinels: "W (lo s + 132) = words s (lo s + 132)" "W (lo s + 136) = words s (lo s + 136)"
    "W (hi s - 4) = words s (hi s - 4)"
  proof -
    have "lo s + 132 \<notin> link_cells qs" "lo s + 136 \<notin> link_cells qs" "hi s - 4 \<notin> link_cells qs"
      using high [of "lo s + 132"] high [of "lo s + 136"] high [of "hi s - 4"] by auto
    moreover have "lo s + 132 \<noteq> lo s + 4 * k" "lo s + 136 \<noteq> lo s + 4 * k" "hi s - 4 \<noteq> lo s + 4 * k"
      using k(1) L(3) by linarith+
    ultimately show "W (lo s + 132) = words s (lo s + 132)"
      "W (lo s + 136) = words s (lo s + 136)" "W (hi s - 4) = words s (hi s - 4)"
      using frame by blast+
  qed
  have tags': "tagged W b" if "b \<in> set bs'" "bptr b \<notin> X'" for b
    using relink_tagged [OF c' qb k(1) frame that(1)] tags that by blast
  have lists: "bucket_list W (lo s + 4 * j) (fl j)" if j: "j < 32" "j \<noteq> k" for j
  proof -
    have f: "set (fl j) = free_in bs j" and l: "bucket_list (words s) (lo s + 4 * j) (fl j)"
      using core j by (simp_all add: heap_core_def)
    have "lo s + 4 * j \<notin> link_cells qs" using high [of "lo s + 4 * j"] j by auto
    then have "W (lo s + 4 * j) = words s (lo s + 4 * j)"
      using frame j by auto
    moreover have "a \<notin> link_cells qs \<and> a \<noteq> lo s + 4 * k" if a: "a \<in> link_cells (fl j)" for a
    proof -
      obtain p where p: "p \<in> set (fl j)" "a = p \<or> a = p + 4" using a by (auto simp: link_cells_def)
      with f obtain n where b: "Blk p n False \<in> set bs" by (auto simp: free_in_def)
      have "p \<notin> set qs" using qs j p f by blast
      moreover have "8 dvd p" "lo s + 144 \<le> p" using core_block [OF core b] by auto
      ultimately show ?thesis
        using p(2) qs k(1) aligned_neq by (auto simp: link_cells_def)
    qed
    ultimately show ?thesis using l frame bucket_list_cong by blast
  qed
  have "region_ok (s\<lparr>words := W\<rparr>)" using r by (simp add: region_ok_def)
  moreover have "\<forall>j < 32. distinct ((fl(k := ps)) j) \<and> set ((fl(k := ps)) j) = free_in bs' j"
    using core k others by (simp add: heap_core_def)
  moreover have "\<forall>j < 32. bucket_list W (lo s + 4 * j) ((fl(k := ps)) j)"
    using lists k by simp
  ultimately show ?thesis
    using core c' nf opened sentinels tags' unfolding heap_core_def by simp
qed

section \<open>Unlinking a free block\<close>

lemma core_header:
  assumes core: "heap_core X s bs fl" and b: "Blk p n u \<in> set bs"
    and t: "words s (p - 4) = tag n v"
  shows "GET_SIZE (HDRP (w32 p)) s = Some (w32 n)"
    "find_bucket (w32 n div WSIZE) s = w32 (lo s + 4 * bucket_index n)" "bucket_index n < 32"
proof -
  note B = core_block [OF core b]
  have "4 dvd p - 4" using B(1,5) by presburger
  then have "cell s (p - 4)" using B by (intro core_cell [OF core b]) simp_all
  then show "GET_SIZE (HDRP (w32 p)) s = Some (w32 n)"
    using B t by (simp add: HDRP_w32 GET_SIZE_cell)
  have n: "n \<le> 2147483648" using B(7) by (simp add: MAX_HEAP_def)
  show "bucket_index n < 32" by (rule bucket_index_spec(1) [OF n])
  show "find_bucket (w32 n div WSIZE) s = w32 (lo s + 4 * bucket_index n)"
    using find_bucket_size [OF B(4) n, of s] by (simp add: mem_heap_lo_def w32_add [symmetric])
qed

lemma core_bucket:
  assumes core: "heap_core X s bs fl" and k: "k < 32"
  shows "cell s (lo s + 4 * k)" "bucket_list (words s) (lo s + 4 * k) (fl k)" "distinct (fl k)"
    "set (fl k) = free_in bs k" "\<forall>q \<in> set (fl k). node_ok s (lo s + 4 * k) q"
proof -
  note r = heap_core_region [OF core]
  then have r': "8 dvd lo s" "lo s + 144 \<le> hi s" by (simp_all add: region_ok_def)
  have "4 dvd lo s + 4 * k" using r'(1) by presburger
  then show "cell s (lo s + 4 * k)" using r' k by (intro region_cell [OF r]) simp_all
  show f: "bucket_list (words s) (lo s + 4 * k) (fl k)" "distinct (fl k)" "set (fl k) = free_in bs k"
    using core k by (simp_all add: heap_core_def)
  show "\<forall>q \<in> set (fl k). node_ok s (lo s + 4 * k) q"
  proof
    fix q assume "q \<in> set (fl k)"
    with f obtain n where b: "Blk q n False \<in> set bs" by (auto simp: free_in_def)
    note B = core_block [OF core b]
    have "4 dvd q" "4 dvd q + 4" using B(5) by presburger+
    then have "cell s q" "cell s (q + 4)" using B by (auto intro!: core_cell [OF core b])
    with B k show "node_ok s (lo s + 4 * k) q" by (simp add: node_ok_def)
  qed
qed

lemma free_in_block:
  "chain e bs h \<Longrightarrow> Blk q n False \<in> set bs \<Longrightarrow> q \<in> free_in bs j \<longleftrightarrow> j = bucket_index n"
  by (auto simp: free_in_def dest: chain_unique)

lemma frame_link_area:
  assumes "\<forall>a. a \<noteq> lo s + 4 * k \<longrightarrow> a \<notin> link_cells qs \<longrightarrow> W a = V a" "k < 32"
    and "\<forall>q \<in> set qs. \<exists>n. Blk q n False \<in> set bs"
  shows "\<forall>a. a \<notin> link_area s bs \<longrightarrow> W a = V a"
proof (intro allI impI)
  fix a assume a: "a \<notin> link_area s bs"
  then have "a \<noteq> lo s + 4 * k" using assms(2) by (auto simp: link_area_def)
  moreover have "a \<notin> link_cells qs" using a assms(3) by (force simp: link_area_def link_cells_def)
  ultimately show "W a = V a" using assms(1) by blast
qed

lemma core_unlink:
  assumes core: "heap_core X s (xs @ Blk p n False # ys) fl"
  shows "\<exists>W fl'. remove_from_seglist (w32 p) s = Some (s\<lparr>words := W\<rparr>)
    \<and> heap_core (insert p X) (s\<lparr>words := W\<rparr>) (xs @ Blk p n True # ys) fl'
    \<and> (\<forall>a. a \<notin> link_area s (xs @ Blk p n False # ys) \<longrightarrow> W a = words s a)"
proof -
  let ?bs = "xs @ Blk p n False # ys" and ?bs' = "xs @ Blk p n True # ys"
  let ?k = "bucket_index n"
  have b: "Blk p n False \<in> set ?bs" by simp
  have c: "chain (lo s + 144) ?bs (hi s)" by (rule heap_core_chain [OF core])
  have c': "chain (lo s + 144) ?bs' (hi s)" using c by (auto simp: chain_append)
  have pX: "p \<notin> X" using core by (auto simp: heap_core_def)
  note H = core_header [OF core b core_tags(1) [OF core b pX]]
  note L = core_bucket [OF core H(3)]
  have pk: "p \<in> set (fl ?k)" using L(4) by (auto simp: free_in_def)
  obtain W where W: "remove_from_bucket (w32 p) (w32 (lo s + 4 * ?k)) s = Some (s\<lparr>words := W\<rparr>)"
    "bucket_list W (lo s + 4 * ?k) (remove1 p (fl ?k))"
    "\<forall>a. a \<noteq> lo s + 4 * ?k \<longrightarrow> a \<notin> link_cells (fl ?k) \<longrightarrow> W a = words s a"
    using remove_from_bucket_spec [OF L(1,2,5,3) pk] by blast
  have notp: "bptr b' \<noteq> p" if "b' \<in> set xs \<union> set ys" for b'
    by (rule chain_notin [OF c that])
  then have fi: "free_in ?bs' j = free_in ?bs j - {p}" for j
    by (force simp: free_in_def)
  have fp: "p \<in> free_in ?bs j \<longleftrightarrow> j = ?k" for j
    by (rule free_in_block [OF c b])
  have "heap_core (insert p X) (s\<lparr>words := W\<rparr>) ?bs' (fl(?k := remove1 p (fl ?k)))"
  proof (rule core_relink [OF core c' _ _ _ H(3) W(2) _ _ _ _ W(3)])
    show "no_free_pair ?bs'"
      using core by (auto simp: heap_core_def no_free_pair_def successively_append_iff successively_Cons)
    show "\<forall>b \<in> set ?bs'. bptr b \<notin> insert p X \<longrightarrow> tagged (words s) b"
      and "\<forall>b \<in> set ?bs'. bptr b \<in> insert p X \<longrightarrow> used b"
      using core notp by (auto simp: heap_core_def)
    show "distinct (remove1 p (fl ?k))" "set (remove1 p (fl ?k)) = free_in ?bs' ?k"
      using L(3,4) fi by simp_all
    show "\<forall>j. j \<noteq> ?k \<longrightarrow> free_in ?bs' j = free_in ?bs j" using fi fp by auto
    show "\<forall>q \<in> set (fl ?k). 8 dvd q \<and> (\<exists>m v. Blk q m v \<in> set ?bs')
      \<and> (\<forall>j. j \<noteq> ?k \<longrightarrow> q \<notin> free_in ?bs j)"
    proof
      fix q assume "q \<in> set (fl ?k)"
      with L(4) obtain m where q: "Blk q m False \<in> set ?bs" "bucket_index m = ?k"
        by (auto simp: free_in_def)
      then have "\<exists>m v. Blk q m v \<in> set ?bs'" by auto
      moreover have "q \<in> free_in ?bs j \<longleftrightarrow> j = ?k" for j
        using free_in_block [OF c q(1)] q(2) by simp
      ultimately show "8 dvd q \<and> (\<exists>m v. Blk q m v \<in> set ?bs') \<and> (\<forall>j. j \<noteq> ?k \<longrightarrow> q \<notin> free_in ?bs j)"
        using core_block(5) [OF core q(1)] by blast
    qed
  qed
  moreover have "\<forall>a. a \<notin> link_area s ?bs \<longrightarrow> W a = words s a"
    using L(4) by (intro frame_link_area [OF W(3) H(3)]) (auto simp: free_in_def)
  moreover have "remove_from_seglist (w32 p) s = Some (s\<lparr>words := W\<rparr>)"
    using H(1,2) W(1) by (simp add: remove_from_seglist_def)
  ultimately show ?thesis by blast
qed

section \<open>Linking an opened block\<close>

lemma no_free_pair_insert:
  assumes "no_free_pair (xs @ Blk p n True # ys)"
    and "xs = [] \<or> used (last xs)" "ys = [] \<or> used (hd ys)"
  shows "no_free_pair (xs @ Blk p n False # ys)"
  using assms by (cases ys)
    (auto simp: no_free_pair_def successively_append_iff successively_Cons)

text \<open>The nodes of a list are blocks of its bucket and of no other.\<close>

lemma bucket_nodes:
  assumes c: "chain (lo s + 144) bs (hi s)" and r: "region_ok s"
    and old: "\<And>j. j \<noteq> k \<Longrightarrow> free_in bs j = F j" and q: "q \<in> free_in bs k"
  shows "8 dvd q \<and> (\<exists>m v. Blk q m v \<in> set bs) \<and> (\<forall>j. j \<noteq> k \<longrightarrow> q \<notin> F j)"
proof -
  obtain m where m: "Blk q m False \<in> set bs" "bucket_index m = k" using q by (auto simp: free_in_def)
  have "q \<in> F j \<Longrightarrow> j = k" for j
    using free_in_block [OF c m(1), of j] m(2) old [of j] by (cases "j = k") simp_all
  moreover have "8 dvd q" using chain_mem(5) [OF c m(1)] r by (simp add: region_ok_def)
  ultimately show ?thesis using m(1) by blast
qed

lemma core_link:
  assumes core: "heap_core X s (xs @ Blk p n True # ys) fl" and pX: "p \<in> X"
    and t: "words s (p - 4) = tag n False" "words s (p + n - 8) = tag n False"
    and nb: "xs = [] \<or> used (last xs)" "ys = [] \<or> used (hd ys)"
  shows "\<exists>W fl'. add_to_seglist (w32 p) s = Some (s\<lparr>words := W\<rparr>)
    \<and> heap_core (X - {p}) (s\<lparr>words := W\<rparr>) (xs @ Blk p n False # ys) fl'
    \<and> (\<forall>a. a \<notin> link_area s (xs @ Blk p n False # ys) \<longrightarrow> W a = words s a)"
proof -
  let ?bs = "xs @ Blk p n True # ys" and ?bs' = "xs @ Blk p n False # ys"
  let ?k = "bucket_index n"
  have b: "Blk p n True \<in> set ?bs" by simp
  have c: "chain (lo s + 144) ?bs (hi s)" by (rule heap_core_chain [OF core])
  have c': "chain (lo s + 144) ?bs' (hi s)" using c by (auto simp: chain_append)
  note B = core_block [OF core b]
  note H = core_header [OF core b t(1)]
  note L = core_bucket [OF core H(3)]
  have notp: "bptr b' \<noteq> p" if "b' \<in> set xs \<union> set ys" for b'
    by (rule chain_notin [OF c that])
  then have fp: "p \<notin> free_in ?bs j" for j
    by (force simp: free_in_def)
  have fi: "free_in ?bs' j = (if j = ?k then insert p (free_in ?bs j) else free_in ?bs j)" for j
    by (auto simp: free_in_def)
  have "4 dvd p" "4 dvd p + 4" using B(5) by presburger+
  then have "cell s p" "cell s (p + 4)" using B by (auto intro!: core_cell [OF core b])
  with B H(3) L(5) have ok: "\<forall>q \<in> set (p # fl ?k). node_ok s (lo s + 4 * ?k) q"
    by (simp add: node_ok_def)
  have d: "distinct (p # fl ?k)" using L(3,4) fp by simp
  obtain W where W: "add_to_bucket (w32 p) (w32 (lo s + 4 * ?k)) s = Some (s\<lparr>words := W\<rparr>)"
    "bucket_list W (lo s + 4 * ?k) (p # fl ?k)"
    "\<forall>a. a \<noteq> lo s + 4 * ?k \<longrightarrow> a \<notin> link_cells (p # fl ?k) \<longrightarrow> W a = words s a"
    using add_to_bucket_spec [OF L(1,2) ok d] by blast
  have "heap_core (X - {p}) (s\<lparr>words := W\<rparr>) ?bs' (fl(?k := p # fl ?k))"
  proof (rule core_relink [OF core c' _ _ _ H(3) W(2) d _ _ _ W(3)])
    show "no_free_pair ?bs'"
      using core nb by (intro no_free_pair_insert) (simp add: heap_core_def)
    show "\<forall>b \<in> set ?bs'. bptr b \<notin> X - {p} \<longrightarrow> tagged (words s) b"
      and "\<forall>b \<in> set ?bs'. bptr b \<in> X - {p} \<longrightarrow> used b"
      using core notp t by (auto simp: heap_core_def tagged_def)
    show "set (p # fl ?k) = free_in ?bs' ?k" using L(4) fi by simp
    show "\<forall>j. j \<noteq> ?k \<longrightarrow> free_in ?bs' j = free_in ?bs j" using fi by simp
    show "\<forall>q \<in> set (p # fl ?k). 8 dvd q \<and> (\<exists>m v. Blk q m v \<in> set ?bs')
      \<and> (\<forall>j. j \<noteq> ?k \<longrightarrow> q \<notin> free_in ?bs j)"
      using L(4) fi by (intro ballI bucket_nodes [OF c' heap_core_region [OF core]]) auto
  qed
  moreover have "\<forall>a. a \<notin> link_area s ?bs' \<longrightarrow> W a = words s a"
    using L(4) by (intro frame_link_area [OF W(3) H(3)]) (auto simp: free_in_def)
  moreover have "add_to_seglist (w32 p) s = Some (s\<lparr>words := W\<rparr>)"
    using H(1,2) W(1) by (simp add: add_to_seglist_def)
  ultimately show ?thesis by blast
qed

end
