(* ===== verification/Heap_Ops.thy ===== *)
theory Heap_Ops
  imports Free_Index
begin

text \<open>
  \<open>coalesce\<close>, \<open>extend_heap\<close> and \<open>place\<close> of \<^verbatim>\<open>mm.c\<close>, and what each does to the layout of
  the heap. The proofs are sequences of the ghost steps of \<open>Heap_Layout\<close> and
  \<open>Free_Index\<close>: unlink the free neighbours, merge (or split) the opened blocks, write the
  two tags, link the result.
\<close>

section \<open>The code\<close>

definition coalesce :: "u32 \<Rightarrow> 'a memlib_scheme \<Rightarrow> (u32 \<times> 'a memlib_scheme) option" where
  "coalesce bp s = do {
     prev \<leftarrow> PREV_BLKP bp s;
     prev_ftr \<leftarrow> FTRP prev s;
     prev_alloc \<leftarrow> GET_ALLOC prev_ftr s;
     nxt \<leftarrow> NEXT_BLKP bp s;
     next_alloc \<leftarrow> GET_ALLOC (HDRP nxt) s;
     sz \<leftarrow> GET_SIZE (HDRP bp) s;
     if prev_alloc \<noteq> 0 \<and> next_alloc \<noteq> 0 then do {
       s \<leftarrow> add_to_seglist bp s;
       Some (bp, s) }
     else if prev_alloc \<noteq> 0 \<and> next_alloc = 0 then do {
       nxt \<leftarrow> NEXT_BLKP bp s;
       nsz \<leftarrow> GET_SIZE (HDRP nxt) s;
       let sz = sz + nsz;
       nxt \<leftarrow> NEXT_BLKP bp s;
       s \<leftarrow> remove_from_seglist nxt s;
       s \<leftarrow> PUT (HDRP bp) (PACK sz 0) s;
       ftr \<leftarrow> FTRP bp s;
       s \<leftarrow> PUT ftr (PACK sz 0) s;
       s \<leftarrow> add_to_seglist bp s;
       Some (bp, s) }
     else if prev_alloc = 0 \<and> next_alloc \<noteq> 0 then do {
       prev \<leftarrow> PREV_BLKP bp s;
       psz \<leftarrow> GET_SIZE (HDRP prev) s;
       let sz = sz + psz;
       prev \<leftarrow> PREV_BLKP bp s;
       s \<leftarrow> remove_from_seglist prev s;
       ftr \<leftarrow> FTRP bp s;
       s \<leftarrow> PUT ftr (PACK sz 0) s;
       prev \<leftarrow> PREV_BLKP bp s;
       s \<leftarrow> PUT (HDRP prev) (PACK sz 0) s;
       bp \<leftarrow> PREV_BLKP bp s;
       s \<leftarrow> add_to_seglist bp s;
       Some (bp, s) }
     else do {
       prev \<leftarrow> PREV_BLKP bp s;
       psz \<leftarrow> GET_SIZE (HDRP prev) s;
       nxt \<leftarrow> NEXT_BLKP bp s;
       nftr \<leftarrow> FTRP nxt s;
       nsz \<leftarrow> GET_SIZE nftr s;
       let sz = sz + (psz + nsz);
       nxt \<leftarrow> NEXT_BLKP bp s;
       s \<leftarrow> remove_from_seglist nxt s;
       prev \<leftarrow> PREV_BLKP bp s;
       s \<leftarrow> remove_from_seglist prev s;
       prev \<leftarrow> PREV_BLKP bp s;
       s \<leftarrow> PUT (HDRP prev) (PACK sz 0) s;
       nxt \<leftarrow> NEXT_BLKP bp s;
       nftr \<leftarrow> FTRP nxt s;
       s \<leftarrow> PUT nftr (PACK sz 0) s;
       bp \<leftarrow> PREV_BLKP bp s;
       s \<leftarrow> add_to_seglist bp s;
       Some (bp, s) } }"

text \<open>\<open>extend_heap\<close>: \<open>(long) -1\<close> from \<open>mem_sbrk\<close> makes it return the null pointer.\<close>

definition extend_heap :: "u32 \<Rightarrow> 'a memlib_scheme \<Rightarrow> (u32 \<times> 'a memlib_scheme) option" where
  "extend_heap wds s =
     (let sz = (if wds mod 2 \<noteq> 0 then (wds + 1) * WSIZE else wds * WSIZE);
          (bp, s) = mem_sbrk sz s
      in if bp = - 1 then Some (0, s)
         else do {
           s \<leftarrow> PUT (HDRP bp) (PACK sz 0) s;
           ftr \<leftarrow> FTRP bp s;
           s \<leftarrow> PUT ftr (PACK sz 0) s;
           nxt \<leftarrow> NEXT_BLKP bp s;
           s \<leftarrow> PUT (HDRP nxt) (PACK 0 1) s;
           coalesce bp s })"

definition place :: "u32 \<Rightarrow> u32 \<Rightarrow> 'a memlib_scheme \<Rightarrow> 'a memlib_scheme option" where
  "place bp sz s = do {
     csize \<leftarrow> GET_SIZE (HDRP bp) s;
     if csize - sz \<ge> 4 * DSIZE then do {
       s \<leftarrow> remove_from_seglist bp s;
       s \<leftarrow> PUT (HDRP bp) (PACK sz 1) s;
       ftr \<leftarrow> FTRP bp s;
       s \<leftarrow> PUT ftr (PACK sz 1) s;
       bp \<leftarrow> NEXT_BLKP bp s;
       s \<leftarrow> PUT (HDRP bp) (PACK (csize - sz) 0) s;
       ftr \<leftarrow> FTRP bp s;
       s \<leftarrow> PUT ftr (PACK (csize - sz) 0) s;
       add_to_seglist bp s }
     else do {
       s \<leftarrow> remove_from_seglist bp s;
       s \<leftarrow> PUT (HDRP bp) (PACK csize 1) s;
       ftr \<leftarrow> FTRP bp s;
       PUT ftr (PACK csize 1) s } }"

section \<open>Words of the used blocks\<close>

lemma preserves_link:
  assumes "heap_core X s bs fl" "\<forall>a. a \<notin> link_area s bs \<longrightarrow> W a = words s a"
  shows "preserves Y bs (words s) W"
  using assms used_notin_link_area unfolding preserves_def by blast

lemma preserves_write:
  assumes core: "heap_core X s bs fl" and b: "Blk p n True \<in> set bs"
    and a: "p - 4 \<le> a" "a < p + n - 4"
  shows "preserves {p} bs V (V(a := v))"
  unfolding preserves_def
proof (intro allI impI)
  fix q m c assume q: "Blk q m True \<in> set bs" "q \<notin> {p}" "q - 4 \<le> c" "c < q + m - 4"
  from chain_apart [OF heap_core_chain [OF core] b q(1)] core_block [OF core b]
    core_block [OF core q(1)] q a have "c \<noteq> a" by auto
  then show "(V(a := v)) c = V c" by simp
qed

lemma preserves_trans:
  assumes "preserves X bs U V" "preserves Y bs' V W"
    and "\<And>q m. Blk q m True \<in> set bs \<Longrightarrow> q \<notin> X \<Longrightarrow> Blk q m True \<in> set bs' \<and> q \<notin> Y"
  shows "preserves X bs U W"
  using assms unfolding preserves_def by (metis (full_types))

lemma preserves_mono: "preserves X bs V W \<Longrightarrow> X \<subseteq> Y \<Longrightarrow> preserves Y bs V W"
  unfolding preserves_def by blast

section \<open>Writing the tags of an opened block\<close>

abbreviation tag_words :: "nat \<Rightarrow> nat \<Rightarrow> bool \<Rightarrow> (nat \<Rightarrow> u32) \<Rightarrow> (nat \<Rightarrow> u32)" where
  "tag_words p n u W \<equiv> W(p - 4 := tag n u, p + n - 8 := tag n u)"

lemma tag_words_swap: "W(p + n - 8 := tag n u, p - 4 := tag n u) = tag_words p n u W"
  by (auto simp: fun_eq_iff)

lemma tag_cells:
  assumes core: "heap_core X s bs fl" and b: "Blk p n u \<in> set bs"
  shows "cell s (p - 4)" "cell s (p + n - 8)" "p - 4 \<noteq> p + n - 8"
proof -
  note B = core_block [OF core b]
  have "4 dvd p - 4" "4 dvd p + n - 8" using B by presburger+
  with B show "cell s (p - 4)" "cell s (p + n - 8)" "p - 4 \<noteq> p + n - 8"
    by (auto intro!: core_cell [OF core b])
qed

lemma core_retag:
  assumes core: "heap_core X s bs fl" and b: "Blk p n True \<in> set bs" "p \<in> X"
  shows "heap_core X (s\<lparr>words := tag_words p n u (words s)\<rparr>) bs fl"
    "preserves {p} bs (words s) (tag_words p n u (words s))"
proof -
  note B = core_block [OF core b(1)]
  have h: "p - 4 \<le> p - 4" "p - 4 < p + n - 4" and f: "p - 4 \<le> p + n - 8" "p + n - 8 < p + n - 4"
    using B by auto
  have core': "heap_core X (s\<lparr>words := (words s)(p - 4 := tag n u)\<rparr>) bs fl"
    by (rule core_write_opened [OF core b h])
  from core_write_opened [OF core' b f, of "tag n u"]
  show "heap_core X (s\<lparr>words := tag_words p n u (words s)\<rparr>) bs fl" by simp
  show "preserves {p} bs (words s) (tag_words p n u (words s))"
    by (rule preserves_trans [OF preserves_write [OF core b(1) h] preserves_write [OF core b(1) f]]) simp
qed

text \<open>The last stage of freeing: tags written, the opened block goes on its list.\<close>

lemma close_free:
  assumes core: "heap_core {p} s (xs @ Blk p n True # ys) fl"
    and nb: "xs = [] \<or> used (last xs)" "ys = [] \<or> used (hd ys)"
  shows "\<exists>W fl'. add_to_seglist (w32 p) (s\<lparr>words := tag_words p n False (words s)\<rparr>)
      = Some (s\<lparr>words := W\<rparr>)
    \<and> heap_core {} (s\<lparr>words := W\<rparr>) (xs @ Blk p n False # ys) fl'
    \<and> preserves {p} (xs @ Blk p n True # ys) (words s) W"
proof -
  let ?bs = "xs @ Blk p n True # ys" and ?s = "s\<lparr>words := tag_words p n False (words s)\<rparr>"
  have b: "Blk p n True \<in> set ?bs" by simp
  note R = core_retag [OF core b, of False, simplified]
  have t: "words ?s (p - 4) = tag n False" "words ?s (p + n - 8) = tag n False"
    using tag_cells(3) [OF core b] by simp_all
  obtain W fl' where W: "add_to_seglist (w32 p) ?s = Some (?s\<lparr>words := W\<rparr>)"
    "heap_core ({p} - {p}) (?s\<lparr>words := W\<rparr>) (xs @ Blk p n False # ys) fl'"
    "\<forall>a. a \<notin> link_area ?s (xs @ Blk p n False # ys) \<longrightarrow> W a = words ?s a"
    using core_link [OF R(1) _ t nb] by blast
  have c: "chain (lo s + 144) ?bs (hi s)" by (rule heap_core_chain [OF core])
  have "preserves {p} ?bs (words ?s) W"
    unfolding preserves_def
  proof (intro allI impI)
    fix q m a assume q: "Blk q m True \<in> set ?bs" "q \<notin> {p}" "q - 4 \<le> a" "a < q + m - 4"
    then have "Blk q m True \<in> set (xs @ Blk p n False # ys)" by auto
    from used_notin_link_area [OF W(2) this q(3,4)] W(3) show "W a = words ?s a"
      by (simp add: link_area_def)
  qed
  then have "preserves {p} ?bs (words s) W"
    using R(2) preserves_trans [of "{p}" ?bs "words s" "words ?s" "{p}" ?bs W] by simp
  with W(1,2) show ?thesis by auto
qed

section \<open>Reading a tagged block\<close>

definition geom :: "'a memlib_scheme \<Rightarrow> nat \<Rightarrow> nat \<Rightarrow> bool" where
  "geom s p n \<longleftrightarrow> cell s (p - 4) \<and> cell s (p + n - 8) \<and> 8 dvd n \<and> 8 dvd p \<and> 32 \<le> n
     \<and> 144 \<le> p \<and> p + n < 4294967296"

lemma geom_words [simp]: "geom (s\<lparr>words := W\<rparr>) p n = geom s p n"
  by (simp add: geom_def)

lemma core_geom: "heap_core X s bs fl \<Longrightarrow> Blk p n u \<in> set bs \<Longrightarrow> geom s p n"
  using core_block [of X s bs fl p n u] tag_cells [of X s bs fl p n u] by (auto simp: geom_def)

text \<open>What the macros return at a block whose header and footer are \<open>tag n v\<close>.\<close>

lemma header_reads:
  assumes g: "geom s p n" and t: "words s (p - 4) = tag n v"
  shows "GET_SIZE (HDRP (w32 p)) s = Some (w32 n)"
    "GET_ALLOC (HDRP (w32 p)) s = Some (if v then 1 else 0)"
    "FTRP (w32 p) s = Some (w32 (p + n - 8))"
    "NEXT_BLKP (w32 p) s = Some (w32 (p + n))"
  using assms by (simp_all add: geom_def HDRP_w32 GET_SIZE_cell GET_ALLOC_cell FTRP_cell NEXT_BLKP_cell)

lemma footer_reads:
  assumes g: "geom s p n" and t: "words s (p + n - 8) = tag n v"
  shows "GET_ALLOC (w32 (p + n - 8)) s = Some (if v then 1 else 0)"
    "GET_SIZE (w32 (p + n - 8)) s = Some (w32 n)"
    "PREV_BLKP (w32 (p + n)) s = Some (w32 p)"
  using assms PREV_BLKP_cell [of "p + n" n s v]
  by (simp_all add: geom_def GET_SIZE_cell GET_ALLOC_cell)

lemma put_tags:
  assumes "geom s p n"
  shows "PUT (HDRP (w32 p)) v s = Some (s\<lparr>words := (words s)(p - 4 := v)\<rparr>)"
    "PUT (w32 (p + n - 8)) v s = Some (s\<lparr>words := (words s)(p + n - 8 := v)\<rparr>)"
  using assms by (simp_all add: geom_def HDRP_w32 PUT_cell)

text \<open>The sentinels: the prologue before the first block, the epilogue after the last.\<close>

lemma prologue_reads:
  assumes "heap_core X s bs fl"
  shows "PREV_BLKP (w32 (lo s + 144)) s = Some (w32 (lo s + 136))"
    "FTRP (w32 (lo s + 136)) s = Some (w32 (lo s + 136))"
    "GET_ALLOC (w32 (lo s + 136)) s = Some 1"
proof -
  have r: "region_ok s" and w: "words s (lo s + 132) = tag 8 True" "words s (lo s + 136) = tag 8 True"
    using assms by (simp_all add: heap_core_def)
  then have lo: "8 dvd lo s" "lo s + 144 \<le> hi s" by (simp_all add: region_ok_def)
  have "4 dvd lo s + 132" "4 dvd lo s + 136" using lo(1) by presburger+
  then have c: "cell s (lo s + 132)" "cell s (lo s + 136)"
    using lo by (auto intro: region_cell [OF r])
  show "PREV_BLKP (w32 (lo s + 144)) s = Some (w32 (lo s + 136))"
    using PREV_BLKP_cell [of "lo s + 144" 8 s True] c w by (simp add: ac_simps)
  show "FTRP (w32 (lo s + 136)) s = Some (w32 (lo s + 136))"
    using FTRP_cell [of "lo s + 136" 8 s True] c w by (simp add: ac_simps)
  show "GET_ALLOC (w32 (lo s + 136)) s = Some 1"
    using GET_ALLOC_cell [OF c(2) w(2)] by simp
qed

lemma epilogue_reads:
  assumes "heap_core X s bs fl"
  shows "GET_ALLOC (HDRP (w32 (hi s))) s = Some 1" "GET_SIZE (HDRP (w32 (hi s))) s = Some 0"
    "cell s (hi s - 4)"
proof -
  have r: "region_ok s" and w: "words s (hi s - 4) = tag 0 True"
    using assms by (simp_all add: heap_core_def)
  then have lo: "8 dvd lo s" "lo s + 144 \<le> hi s" by (simp_all add: region_ok_def)
  have "8 dvd hi s" using chain_dvd [OF heap_core_chain [OF assms]] lo(1) by simp
  then have "4 dvd hi s - 4" using lo(2) by presburger
  then show c: "cell s (hi s - 4)" using lo by (auto intro: region_cell [OF r])
  show "GET_ALLOC (HDRP (w32 (hi s))) s = Some 1" "GET_SIZE (HDRP (w32 (hi s))) s = Some 0"
    using HDRP_w32 [of "hi s"] lo(2) GET_ALLOC_cell [OF c w] GET_SIZE_cell [OF c w] by simp_all
qed

text \<open>The tags of a block lie outside the words the free lists change.\<close>

lemma tag_notin_link_area:
  assumes core: "heap_core X s bs fl" and b: "Blk p n u \<in> set bs"
  shows "p - 4 \<notin> link_area s bs" "p + n - 8 \<notin> link_area s bs"
proof -
  note B = core_block [OF core b]
  have "a \<notin> link_area s bs" if a: "a = p - 4 \<or> a = p + n - 8" for a
  proof
    assume "a \<in> link_area s bs"
    then consider "a < lo s + 128" | q m where "Blk q m False \<in> set bs" "a = q \<or> a = q + 4"
      by (auto simp: link_area_def)
    then show False
    proof cases
      case 1
      with a B show ?thesis by auto
    next
      case 2
      from link_cell_not_tag [OF heap_core_chain [OF core] 2(1) b 2(2)] a show ?thesis by auto
    qed
  qed
  then show "p - 4 \<notin> link_area s bs" "p + n - 8 \<notin> link_area s bs" by blast+
qed

section \<open>coalesce\<close>

text \<open>
  The specification of coalescing on the block list: the block \<open>Blk p n\<close> between \<open>xs\<close> and
  \<open>ys\<close> is joined with a free last block of \<open>xs\<close> and a free first block of \<open>ys\<close>.
\<close>

definition prev_used :: "block list \<Rightarrow> bool" where
  "prev_used xs \<longleftrightarrow> xs = [] \<or> used (last xs)"

definition next_used :: "block list \<Rightarrow> bool" where
  "next_used ys \<longleftrightarrow> ys = [] \<or> used (hd ys)"

definition join_free :: "block list \<Rightarrow> nat \<Rightarrow> nat \<Rightarrow> block list \<Rightarrow> block list \<times> nat \<times> nat \<times> block list" where
  "join_free xs p n ys =
     (let (xs', p', n') = (if prev_used xs then (xs, p, n)
                           else (butlast xs, bptr (last xs), bsize (last xs) + n));
          (n'', ys') = (if next_used ys then (n', ys) else (n' + bsize (hd ys), tl ys))
      in (xs', p', n'', ys'))"

lemma prev_used_reads:
  assumes core: "heap_core {p} s (xs @ Blk p n u # ys) fl" and pu: "prev_used xs"
  shows "\<exists>q f. PREV_BLKP (w32 p) s = Some (w32 q) \<and> FTRP (w32 q) s = Some (w32 f)
    \<and> GET_ALLOC (w32 f) s = Some 1"
proof (cases xs rule: rev_cases)
  case Nil
  with heap_core_chain [OF core] have "p = lo s + 144" by simp
  with prologue_reads [OF core] show ?thesis by auto
next
  case (snoc zs b)
  with pu obtain q m where b: "b = Blk q m True" by (cases b) (auto simp: prev_used_def)
  have bm: "Blk q m True \<in> set (xs @ Blk p n u # ys)" using snoc b by simp
  have p: "p = q + m" using heap_core_chain [OF core] snoc b by (auto simp: chain_append)
  note g = core_geom [OF core bm]
  have "q \<noteq> p" using p g by (auto simp: geom_def)
  then have "q \<notin> {p}" by simp
  note t = core_tags [OF core bm this]
  from header_reads [OF g t(1)] footer_reads [OF g t(2)] p show ?thesis by auto
qed

lemma next_used_reads:
  assumes core: "heap_core {p} s (xs @ Blk p n u # ys) fl" and nu: "next_used ys"
  shows "GET_ALLOC (HDRP (w32 (p + n))) s = Some 1"
proof (cases ys)
  case Nil
  with heap_core_chain [OF core] have "p + n = hi s" by (auto simp: chain_append)
  with epilogue_reads [OF core] show ?thesis by simp
next
  case (Cons b zs)
  have "bptr b = p + n" using heap_core_chain [OF core] Cons by (auto simp: chain_append)
  with nu Cons obtain m where b: "b = Blk (p + n) m True"
    by (cases b) (auto simp: next_used_def)
  have bm: "Blk (p + n) m True \<in> set (xs @ Blk p n u # ys)" using Cons b by simp
  have pm: "Blk p n u \<in> set (xs @ Blk p n u # ys)" by simp
  have "p + n \<notin> {p}" using core_block [OF core pm] by auto
  from header_reads(2) [OF core_geom [OF core bm] core_tags(1) [OF core bm this]]
  show ?thesis by simp
qed

text \<open>A free block has no free neighbour.\<close>

lemma free_alone:
  "heap_core X s (xs @ Blk q m False # ys) fl \<Longrightarrow> prev_used xs"
  "heap_core X s (xs @ Blk q m False # ys) fl \<Longrightarrow> next_used ys"
  by (cases ys; auto simp: heap_core_def no_free_pair_def successively_append_iff successively_Cons
      prev_used_def next_used_def)+

text \<open>What is done to a merged block leaves the words of the blocks around it alone.\<close>

lemma preserves_joined:
  assumes "preserves {p} bs U V" "preserves {q} (xs @ Blk q l True # ys) V W"
    and core: "heap_core {q} s (xs @ Blk q l True # ys) fl"
    and bs: "\<And>b. b \<in> set bs \<Longrightarrow> used b \<Longrightarrow> bptr b \<noteq> p \<Longrightarrow> b \<in> set xs \<union> set ys"
  shows "preserves {p} bs U W"
proof (rule preserves_trans [OF assms(1,2)])
  fix a k assume "Blk a k True \<in> set bs" "a \<notin> {p}"
  with bs [of "Blk a k True"] have "Blk a k True \<in> set xs \<union> set ys" by simp
  with chain_notin [OF heap_core_chain [OF core]]
  show "Blk a k True \<in> set (xs @ Blk q l True # ys) \<and> a \<notin> {q}" by force
qed

text \<open>Case 1: both neighbours are allocated.\<close>

lemma coalesce_neither:
  assumes core: "heap_core {p} s (xs @ Blk p n True # ys) fl"
    and t: "words s (p - 4) = tag n False" "words s (p + n - 8) = tag n False"
    and nb: "prev_used xs" "next_used ys"
  shows "\<exists>W fl'. coalesce (w32 p) s = Some (w32 p, s\<lparr>words := W\<rparr>)
    \<and> heap_core {} (s\<lparr>words := W\<rparr>) (xs @ Blk p n False # ys) fl'
    \<and> preserves {p} (xs @ Blk p n True # ys) (words s) W"
proof -
  let ?bs = "xs @ Blk p n True # ys"
  have b: "Blk p n True \<in> set ?bs" by simp
  obtain q f where pr: "PREV_BLKP (w32 p) s = Some (w32 q)" "FTRP (w32 q) s = Some (w32 f)"
    "GET_ALLOC (w32 f) s = Some 1"
    using prev_used_reads [OF core nb(1)] by blast
  note nx = next_used_reads [OF core nb(2)]
  note hd = header_reads [OF core_geom [OF core b] t(1)]
  have same: "s\<lparr>words := tag_words p n False (words s)\<rparr> = s"
    using t by (simp add: fun_upd_idem)
  obtain W fl' where "add_to_seglist (w32 p) s = Some (s\<lparr>words := W\<rparr>)"
    "heap_core {} (s\<lparr>words := W\<rparr>) (xs @ Blk p n False # ys) fl'"
    "preserves {p} ?bs (words s) W"
    using close_free [OF core] nb unfolding same prev_used_def next_used_def by blast
  then show ?thesis using pr nx hd by (auto simp: coalesce_def)
qed

text \<open>Case 2: the next block is free.\<close>

lemma unlink_next:
  assumes core: "heap_core {p} s (xs @ Blk p n True # Blk q m False # ys) fl"
  shows "\<exists>V fl'. remove_from_seglist (w32 q) s = Some (s\<lparr>words := V\<rparr>)
    \<and> heap_core {p} (s\<lparr>words := V\<rparr>) (xs @ Blk p (n + m) True # ys) fl'
    \<and> preserves {p} (xs @ Blk p n True # Blk q m False # ys) (words s) V"
proof -
  have qp: "q \<notin> {p}" using core by (auto simp: heap_core_def)
  obtain V fl1 where V: "remove_from_seglist (w32 q) s = Some (s\<lparr>words := V\<rparr>)"
    "heap_core (insert q {p}) (s\<lparr>words := V\<rparr>) (xs @ Blk p n True # Blk q m True # ys) fl1"
    "\<forall>a. a \<notin> link_area s (xs @ Blk p n True # Blk q m False # ys) \<longrightarrow> V a = words s a"
    using core_unlink [of "{p}" s "xs @ [Blk p n True]" q m ys fl] core by auto
  have "heap_core ({q, p} - {q}) (s\<lparr>words := V\<rparr>) (xs @ Blk p (n + m) True # ys) fl1"
    by (rule core_merge(2) [OF V(2)]) simp
  moreover have "{q, p} - {q} = {p}" using qp by auto
  ultimately show ?thesis using V(1) preserves_link [OF core V(3)] by auto
qed

lemma coalesce_next:
  assumes core: "heap_core {p} s (xs @ Blk p n True # Blk q m False # ys) fl"
    and t: "words s (p - 4) = tag n False" "words s (p + n - 8) = tag n False"
    and nb: "prev_used xs"
  shows "\<exists>W fl'. coalesce (w32 p) s = Some (w32 p, s\<lparr>words := W\<rparr>)
    \<and> heap_core {} (s\<lparr>words := W\<rparr>) (xs @ Blk p (n + m) False # ys) fl'
    \<and> preserves {p} (xs @ Blk p n True # Blk q m False # ys) (words s) W"
proof -
  let ?bs = "xs @ Blk p n True # Blk q m False # ys"
  have b: "Blk p n True \<in> set ?bs" and c: "Blk q m False \<in> set ?bs" by simp_all
  obtain q' f where pr: "PREV_BLKP (w32 p) s = Some (w32 q')" "FTRP (w32 q') s = Some (w32 f)"
    "GET_ALLOC (w32 f) s = Some 1"
    using prev_used_reads [OF core nb] by blast
  have q: "q = p + n" using heap_core_chain [OF core] by (auto simp: chain_append)
  have qp: "q \<notin> {p}" using core by (auto simp: heap_core_def)
  note gp = core_geom [OF core b] and gq = core_geom [OF core c]
  note hp = header_reads [OF gp t(1)] and hq = header_reads [OF gq core_tags(1) [OF core c qp]]
  from unlink_next [OF core] obtain V fl1 where V: "remove_from_seglist (w32 q) s = Some (s\<lparr>words := V\<rparr>)"
    and core1: "heap_core {p} (s\<lparr>words := V\<rparr>) (xs @ Blk p (n + m) True # ys) fl1"
    and keep: "preserves {p} ?bs (words s) V" by blast
  let ?s1 = "s\<lparr>words := V\<rparr>"
  have nu: "next_used ys" using free_alone(2) [of "{p}" s "xs @ [Blk p n True]" q m ys fl] core by simp
  obtain W fl' where W: "add_to_seglist (w32 p) (?s1\<lparr>words := tag_words p (n + m) False V\<rparr>)
      = Some (?s1\<lparr>words := W\<rparr>)"
    "heap_core {} (?s1\<lparr>words := W\<rparr>) (xs @ Blk p (n + m) False # ys) fl'"
    "preserves {p} (xs @ Blk p (n + m) True # ys) V W"
    using close_free [OF core1] nb nu unfolding prev_used_def next_used_def by auto
  have g1: "geom ?s1 p (n + m)" by (rule core_geom [OF core1, of p _ True]) simp
  let ?s2 = "s\<lparr>words := V(p - 4 := tag (n + m) False)\<rparr>"
  have "FTRP (w32 p) ?s2 = Some (w32 (p + (n + m) - 8))"
    using g1 by (intro header_reads(3)) simp_all
  moreover have "PUT (HDRP (w32 p)) (tag (n + m) False) ?s1 = Some ?s2"
    using put_tags(1) [OF g1, of "tag (n + m) False"] by simp
  moreover have "PUT (w32 (p + (n + m) - 8)) (tag (n + m) False) ?s2
      = Some (s\<lparr>words := tag_words p (n + m) False V\<rparr>)"
    using put_tags(2) [of ?s2 p "n + m" "tag (n + m) False"] g1 by simp
  moreover have "PACK (w32 n + w32 m) 0 = tag (n + m) False"
    by (simp add: w32_add PACK_tag)
  ultimately have "coalesce (w32 p) s = Some (w32 p, s\<lparr>words := W\<rparr>)"
    using pr hp hq q V W(1) by (simp add: coalesce_def)
  moreover have "preserves {p} ?bs (words s) W" using keep W(3) by (rule preserves_trans) auto
  ultimately show ?thesis using W(2) by auto
qed

text \<open>Case 3: the previous block is free.\<close>

lemma unlink_prev:
  assumes core: "heap_core {p} s (xs @ Blk q m False # Blk p n True # ys) fl"
  shows "\<exists>V fl'. remove_from_seglist (w32 q) s = Some (s\<lparr>words := V\<rparr>)
    \<and> heap_core {q} (s\<lparr>words := V\<rparr>) (xs @ Blk q (m + n) True # ys) fl'
    \<and> V (p - 4) = words s (p - 4) \<and> V (q + m - 8) = words s (q + m - 8)
    \<and> preserves {p} (xs @ Blk q m False # Blk p n True # ys) (words s) V"
proof -
  let ?bs = "xs @ Blk q m False # Blk p n True # ys"
  have b: "Blk p n True \<in> set ?bs" and c: "Blk q m False \<in> set ?bs" by simp_all
  obtain V fl1 where V: "remove_from_seglist (w32 q) s = Some (s\<lparr>words := V\<rparr>)"
    "heap_core (insert q {p}) (s\<lparr>words := V\<rparr>) (xs @ Blk q m True # Blk p n True # ys) fl1"
    "\<forall>a. a \<notin> link_area s ?bs \<longrightarrow> V a = words s a"
    using core_unlink [OF core] by blast
  have "heap_core ({q, p} - {p}) (s\<lparr>words := V\<rparr>) (xs @ Blk q (m + n) True # ys) fl1"
    by (rule core_merge(2) [OF V(2)]) simp
  moreover have "{q, p} - {p} = {q}" using core by (auto simp: heap_core_def)
  moreover have "V (p - 4) = words s (p - 4)" "V (q + m - 8) = words s (q + m - 8)"
    using V(3) tag_notin_link_area [OF core b] tag_notin_link_area [OF core c] by auto
  ultimately show ?thesis using V(1) preserves_link [OF core V(3)] by auto
qed

lemma coalesce_prev:
  assumes core: "heap_core {p} s (xs @ Blk q m False # Blk p n True # ys) fl"
    and t: "words s (p - 4) = tag n False" "words s (p + n - 8) = tag n False"
    and nb: "next_used ys"
  shows "\<exists>W fl'. coalesce (w32 p) s = Some (w32 q, s\<lparr>words := W\<rparr>)
    \<and> heap_core {} (s\<lparr>words := W\<rparr>) (xs @ Blk q (m + n) False # ys) fl'
    \<and> preserves {p} (xs @ Blk q m False # Blk p n True # ys) (words s) W"
proof -
  let ?bs = "xs @ Blk q m False # Blk p n True # ys" and ?T = "tag (m + n) False"
  have b: "Blk p n True \<in> set ?bs" and c: "Blk q m False \<in> set ?bs" by simp_all
  have nx: "GET_ALLOC (HDRP (w32 (p + n))) s = Some 1"
    by (rule next_used_reads [OF _ nb, of p s "xs @ [Blk q m False]" n True]) (use core in simp)
  have p: "p = q + m" using heap_core_chain [OF core] by (auto simp: chain_append)
  have qp: "q \<notin> {p}" using core by (auto simp: heap_core_def)
  note gp = core_geom [OF core b] and gq = core_geom [OF core c]
  note hp = header_reads [OF gp t(1)] and hq = header_reads [OF gq core_tags(1) [OF core c qp]]
  note fq = footer_reads(1,2) [OF gq core_tags(2) [OF core c qp]]
    footer_reads(3) [OF gq core_tags(2) [OF core c qp], folded p]
  from unlink_prev [OF core] obtain V fl1 where V: "remove_from_seglist (w32 q) s = Some (s\<lparr>words := V\<rparr>)"
    and core1: "heap_core {q} (s\<lparr>words := V\<rparr>) (xs @ Blk q (m + n) True # ys) fl1"
    and same: "V (p - 4) = words s (p - 4)" "V (q + m - 8) = words s (q + m - 8)"
    and keep: "preserves {p} ?bs (words s) V" by blast
  let ?s1 = "s\<lparr>words := V\<rparr>"
  note pu = free_alone(1) [OF core]
  obtain W fl' where W: "add_to_seglist (w32 q) (?s1\<lparr>words := tag_words q (m + n) False V\<rparr>)
      = Some (?s1\<lparr>words := W\<rparr>)"
    "heap_core {} (?s1\<lparr>words := W\<rparr>) (xs @ Blk q (m + n) False # ys) fl'"
    "preserves {q} (xs @ Blk q (m + n) True # ys) V W"
    using close_free [OF core1] nb pu unfolding prev_used_def next_used_def by auto
  have v: "V (p - 4) = tag n False" "V (q + m - 8) = tag m False"
    using same t core_tags(2) [OF core c qp] by simp_all
  have g1: "geom ?s1 p n" "geom ?s1 q m" using gp gq by simp_all
  let ?s2 = "s\<lparr>words := V(p + n - 8 := ?T)\<rparr>" and ?s3 = "s\<lparr>words := tag_words q (m + n) False V\<rparr>"
  have sz: "PACK (w32 n + w32 m) 0 = ?T" by (simp add: w32_add PACK_tag add.commute)
  have ftr: "FTRP (w32 p) ?s1 = Some (w32 (p + n - 8))" "PUT (w32 (p + n - 8)) ?T ?s1 = Some ?s2"
    using header_reads(3) [OF g1(1), of False] v put_tags(2) [OF g1(1), of ?T] by simp_all
  have "p + n - 8 \<noteq> q + m - 8" using gp gq by (auto simp: geom_def p)
  with v have v2: "words ?s2 (q + m - 8) = tag m False" by simp
  have "PREV_BLKP (w32 p) ?s2 = Some (w32 q)"
    using footer_reads(3) [of ?s2 q m False] v2 gq p by simp
  moreover have "PUT (HDRP (w32 q)) ?T ?s2 = Some ?s3"
    using put_tags(1) [of ?s2 q m ?T] gq p by (simp add: tag_words_swap add.assoc)
  moreover have "PREV_BLKP (w32 p) ?s3 = Some (w32 q)"
  proof -
    have "words ?s3 (q + m - 8) = tag m False"
      using v gp gq p by (auto simp: geom_def)
    from footer_reads(3) [OF _ this] gq p show ?thesis by simp
  qed
  ultimately have "coalesce (w32 p) s = Some (w32 q, s\<lparr>words := W\<rparr>)"
    using hp hq fq nx V W(1) ftr sz by (simp add: coalesce_def)
  moreover have "preserves {p} ?bs (words s) W" by (rule preserves_joined [OF keep W(3) core1]) auto
  ultimately show ?thesis using W(2) by auto
qed

text \<open>
  Case 4: both neighbours are free. First what taking them off their lists does, then the
  three blocks as one.
\<close>

lemma unlink_both:
  assumes core: "heap_core {p} s (xs @ Blk q m False # Blk p n True # Blk r k False # ys) fl"
  shows "\<exists>U V fl'. remove_from_seglist (w32 r) s = Some (s\<lparr>words := U\<rparr>)
    \<and> remove_from_seglist (w32 q) (s\<lparr>words := U\<rparr>) = Some (s\<lparr>words := V\<rparr>)
    \<and> heap_core {q, r, p} (s\<lparr>words := V\<rparr>) (xs @ Blk q m True # Blk p n True # Blk r k True # ys) fl'
    \<and> (\<forall>a \<in> {p - 4, q + m - 8, r - 4}. U a = words s a \<and> V a = words s a)
    \<and> preserves {p} (xs @ Blk q m False # Blk p n True # Blk r k False # ys) (words s) V"
proof -
  let ?bs = "xs @ Blk q m False # Blk p n True # Blk r k False # ys"
  let ?bs1 = "xs @ Blk q m False # Blk p n True # Blk r k True # ys"
  have b: "Blk p n True \<in> set ?bs" and c: "Blk q m False \<in> set ?bs" and d: "Blk r k False \<in> set ?bs"
    by simp_all
  obtain U fl1 where U: "remove_from_seglist (w32 r) s = Some (s\<lparr>words := U\<rparr>)"
    "heap_core (insert r {p}) (s\<lparr>words := U\<rparr>) ?bs1 fl1" "\<forall>a. a \<notin> link_area s ?bs \<longrightarrow> U a = words s a"
    using core_unlink [of "{p}" s "xs @ [Blk q m False, Blk p n True]" r k ys fl] core by auto
  let ?s1 = "s\<lparr>words := U\<rparr>"
  obtain V fl2 where V: "remove_from_seglist (w32 q) ?s1 = Some (?s1\<lparr>words := V\<rparr>)"
    "heap_core (insert q {r, p}) (?s1\<lparr>words := V\<rparr>)
      (xs @ Blk q m True # Blk p n True # Blk r k True # ys) fl2"
    "\<forall>a. a \<notin> link_area ?s1 ?bs1 \<longrightarrow> V a = U a"
    using core_unlink [OF U(2)] by auto
  have "U (p - 4) = words s (p - 4)" "U (q + m - 8) = words s (q + m - 8)" "U (r - 4) = words s (r - 4)"
    using U(3) tag_notin_link_area [OF core b] tag_notin_link_area [OF core c]
      tag_notin_link_area [OF core d] by auto
  moreover have "V (p - 4) = U (p - 4)" "V (q + m - 8) = U (q + m - 8)" "V (r - 4) = U (r - 4)"
    using V(3) tag_notin_link_area [OF U(2), of p n True] tag_notin_link_area [OF U(2), of q m False]
      tag_notin_link_area [OF U(2), of r k True] by auto
  moreover have "preserves {p, r} ?bs1 U V" using preserves_link [OF U(2), of V] V(3) by simp
  then have "preserves {p} ?bs (words s) V"
  proof (rule preserves_trans [OF preserves_link [OF core U(3)]])
    fix a l assume a: "Blk a l True \<in> set ?bs" "a \<notin> {p}"
    then have "Blk a l True \<in> set (xs @ [Blk q m False, Blk p n True]) \<union> set ys" by auto
    with chain_notin [of "lo s + 144" "xs @ [Blk q m False, Blk p n True]" r k False ys "hi s"]
      heap_core_chain [OF core] a
    show "Blk a l True \<in> set ?bs1 \<and> a \<notin> {p, r}" by force
  qed
  ultimately show ?thesis using U(1) V(1,2) by auto
qed

lemma merge_both:
  assumes core: "heap_core {q, r, p} s (xs @ Blk q m True # Blk p n True # Blk r k True # ys) fl"
    and X: "q \<notin> {p}" "r \<notin> {p}" "r \<noteq> q"
  shows "heap_core {q} s (xs @ Blk q (m + n + k) True # ys) fl"
proof -
  have "heap_core ({q, r, p} - {p}) s (xs @ Blk q (m + n) True # Blk r k True # ys) fl"
    by (rule core_merge(2)) (use core in simp_all)
  then have "heap_core ({q, r, p} - {p} - {r}) s (xs @ Blk q (m + n + k) True # ys) fl"
    by (rule core_merge(2)) (use X in simp)
  moreover have "{q, r, p} - {p} - {r} = {q}" using X by auto
  ultimately show ?thesis by simp
qed

lemma coalesce_both:
  assumes core: "heap_core {p} s (xs @ Blk q m False # Blk p n True # Blk r k False # ys) fl"
    and t: "words s (p - 4) = tag n False" "words s (p + n - 8) = tag n False"
  shows "\<exists>W fl'. coalesce (w32 p) s = Some (w32 q, s\<lparr>words := W\<rparr>)
    \<and> heap_core {} (s\<lparr>words := W\<rparr>) (xs @ Blk q (m + n + k) False # ys) fl'
    \<and> preserves {p} (xs @ Blk q m False # Blk p n True # Blk r k False # ys) (words s) W"
proof -
  let ?bs = "xs @ Blk q m False # Blk p n True # Blk r k False # ys" and ?T = "tag (m + n + k) False"
  have b: "Blk p n True \<in> set ?bs" and c: "Blk q m False \<in> set ?bs" and d: "Blk r k False \<in> set ?bs"
    by simp_all
  have p: "p = q + m" and r: "r = p + n" using heap_core_chain [OF core] by (auto simp: chain_append)
  have X: "q \<notin> {p}" "r \<notin> {p}" using core by (auto simp: heap_core_def)
  note g = core_geom [OF core b] core_geom [OF core c] core_geom [OF core d]
  note tq = core_tags [OF core c X(1)] and tr = core_tags [OF core d X(2)]
  note reads = header_reads(1-3) [OF g(1) t(1)] header_reads(4) [OF g(1) t(1), folded r]
    header_reads [OF g(2) tq(1)] header_reads [OF g(3) tr(1)] footer_reads [OF g(3) tr(2)]
    footer_reads(1,2) [OF g(2) tq(2)] footer_reads(3) [OF g(2) tq(2), folded p]
  from unlink_both [OF core] obtain U V fl2 where
    U: "remove_from_seglist (w32 r) s = Some (s\<lparr>words := U\<rparr>)" and
    V: "remove_from_seglist (w32 q) (s\<lparr>words := U\<rparr>) = Some (s\<lparr>words := V\<rparr>)"
      "heap_core {q, r, p} (s\<lparr>words := V\<rparr>) (xs @ Blk q m True # Blk p n True # Blk r k True # ys) fl2"
      "\<forall>a \<in> {p - 4, q + m - 8, r - 4}. U a = words s a \<and> V a = words s a"
      "preserves {p} ?bs (words s) V" by blast
  let ?s1 = "s\<lparr>words := U\<rparr>" and ?s2 = "s\<lparr>words := V\<rparr>"
  have core2: "heap_core {q} ?s2 (xs @ Blk q (m + n + k) True # ys) fl2"
    by (rule merge_both [OF V(2) X]) (use g in \<open>auto simp: geom_def p r\<close>)
  have nb: "prev_used xs" "next_used ys"
    using free_alone(1) [OF core] free_alone(2) [of "{p}" s "xs @ [Blk q m False, Blk p n True]" r k ys fl] core
    by simp_all
  obtain W fl' where W: "add_to_seglist (w32 q) (?s2\<lparr>words := tag_words q (m + n + k) False V\<rparr>)
      = Some (?s2\<lparr>words := W\<rparr>)"
    "heap_core {} (?s2\<lparr>words := W\<rparr>) (xs @ Blk q (m + n + k) False # ys) fl'"
    "preserves {q} (xs @ Blk q (m + n + k) True # ys) V W"
    using close_free [OF core2] nb unfolding prev_used_def next_used_def by auto
  have u: "U (q + m - 8) = tag m False" using V(3) tq by simp
  have v: "V (p - 4) = tag n False" "V (q + m - 8) = tag m False" "V (r - 4) = tag k False"
    using V(3) t tq tr by auto
  let ?s3 = "s\<lparr>words := V(q - 4 := ?T)\<rparr>" and ?s4 = "s\<lparr>words := tag_words q (m + n + k) False V\<rparr>"
  have sz: "PACK (w32 n + (w32 m + w32 k)) 0 = ?T"
    by (simp add: w32_add PACK_tag add.commute add.left_commute)
  have ne: "q - 4 \<noteq> p - 4" "q - 4 \<noteq> q + m - 8" "q - 4 \<noteq> r - 4" "r + k - 8 \<noteq> q + m - 8"
    using g by (auto simp: geom_def p r)
  have e: "r + k - 8 = q + (m + n + k) - 8" by (simp add: p r)
  have "PREV_BLKP (w32 p) ?s1 = Some (w32 q)" "PREV_BLKP (w32 p) ?s2 = Some (w32 q)"
    using footer_reads(3) [of ?s1 q m False] footer_reads(3) [of ?s2 q m False] u v g p by simp_all
  moreover have "PUT (HDRP (w32 q)) ?T ?s2 = Some ?s3" using put_tags(1) [of ?s2 q m ?T] g by simp
  moreover have "NEXT_BLKP (w32 p) ?s3 = Some (w32 r)" "FTRP (w32 r) ?s3 = Some (w32 (r + k - 8))"
    using header_reads(4) [of ?s3 p n False] header_reads(3) [of ?s3 r k False] v g ne r by simp_all
  moreover have "PUT (w32 (r + k - 8)) ?T ?s3 = Some ?s4" using put_tags(2) [of ?s3 r k ?T] g e by simp
  moreover have "PREV_BLKP (w32 p) ?s4 = Some (w32 q)"
    using footer_reads(3) [of ?s4 q m False] v g ne e p by simp
  ultimately have "coalesce (w32 p) s = Some (w32 q, s\<lparr>words := W\<rparr>)"
    using reads U V(1) W(1) sz by (simp add: coalesce_def)
  moreover have "preserves {p} ?bs (words s) W" by (rule preserves_joined [OF V(4) W(3) core2]) auto
  ultimately show ?thesis using W(2) by auto
qed

text \<open>
  All four cases: \<open>coalesce\<close> implements \<open>join_free\<close>, restores the invariant, and leaves
  the words of the other used blocks alone.
\<close>

lemma coalesce_spec:
  assumes core: "heap_core {p} s (xs @ Blk p n True # ys) fl"
    and t: "words s (p - 4) = tag n False" "words s (p + n - 8) = tag n False"
    and j: "join_free xs p n ys = (xs', p', n', ys')"
  shows "\<exists>W fl'. coalesce (w32 p) s = Some (w32 p', s\<lparr>words := W\<rparr>)
    \<and> heap_core {} (s\<lparr>words := W\<rparr>) (xs' @ Blk p' n' False # ys') fl'
    \<and> preserves {p} (xs @ Blk p n True # ys) (words s) W"
proof -
  have xs: "xs = butlast xs @ [Blk (bptr (last xs)) (bsize (last xs)) False]" if "\<not> prev_used xs"
    using that by (cases xs rule: rev_cases; cases "last xs") (auto simp: prev_used_def)
  have ys: "ys = Blk (bptr (hd ys)) (bsize (hd ys)) False # tl ys" if "\<not> next_used ys"
    using that by (cases ys; cases "hd ys") (auto simp: next_used_def)
  consider "prev_used xs" "next_used ys" | "prev_used xs" "\<not> next_used ys"
    | "\<not> prev_used xs" "next_used ys" | "\<not> prev_used xs" "\<not> next_used ys" by blast
  then show ?thesis
  proof cases
    case 1
    with coalesce_neither [OF core t] j show ?thesis by (simp add: join_free_def)
  next
    case 2
    with ys core have "heap_core {p} s (xs @ Blk p n True # Blk (bptr (hd ys)) (bsize (hd ys)) False # tl ys) fl"
      by simp
    from coalesce_next [OF this t 2(1)] 2 j ys show ?thesis by (auto simp: join_free_def)
  next
    case 3
    with xs core have "heap_core {p} s (butlast xs @ Blk (bptr (last xs)) (bsize (last xs)) False
        # Blk p n True # ys) fl"
      by (metis append.assoc append_Cons append_Nil)
    from coalesce_prev [OF this t 3(2)] 3 j xs show ?thesis
      by (simp add: join_free_def) (metis append.assoc append_Cons append_Nil)
  next
    case 4
    with xs ys core have "heap_core {p} s (butlast xs @ Blk (bptr (last xs)) (bsize (last xs)) False
        # Blk p n True # Blk (bptr (hd ys)) (bsize (hd ys)) False # tl ys) fl"
      by (metis append.assoc append_Cons append_Nil)
    from coalesce_both [OF this t] 4 j xs ys show ?thesis
      by (simp add: join_free_def) (metis append.assoc append_Cons append_Nil)
  qed
qed

end
