(* ===== verification/Place_Extend.thy ===== *)
theory Place_Extend
  imports Heap_Ops
begin

text \<open>
  \<open>place\<close> and \<open>extend_heap\<close> against the block list: \<open>place\<close> turns a free block into a used
  one, giving back what is left over if that is at least 32 bytes; \<open>extend_heap\<close> appends a
  free block at the top of the heap, joined with a free last block, or fails at the end of
  the storage.
\<close>

section \<open>place\<close>

definition placed :: "block list \<Rightarrow> nat \<Rightarrow> nat \<Rightarrow> nat \<Rightarrow> block list \<Rightarrow> block list" where
  "placed xs p n sz ys =
     (if 32 \<le> n - sz then xs @ Blk p sz True # Blk (p + sz) (n - sz) False # ys
      else xs @ Blk p n True # ys)"

text \<open>The last stage of allocating: the tags of the opened block say it is used.\<close>

lemma close_used:
  assumes core: "heap_core X s bs fl" and b: "Blk p n True \<in> set bs" "p \<in> X"
  shows "heap_core (X - {p}) (s\<lparr>words := tag_words p n True (words s)\<rparr>) bs fl"
  by (rule core_close [OF core_retag(1) [OF core b] b(1)]) (simp_all add: tag_cells(3) [OF core b(1)])

lemma put_both_tags:
  fixes s :: "'a memlib_scheme" and u :: bool
  assumes g: "geom s p n"
  defines "s1 \<equiv> s\<lparr>words := (words s)(p - 4 := tag n u)\<rparr>"
  shows "PUT (HDRP (w32 p)) (tag n u) s = Some s1"
    "FTRP (w32 p) s1 = Some (w32 (p + n - 8))"
    "PUT (w32 (p + n - 8)) (tag n u) s1 = Some (s\<lparr>words := tag_words p n u (words s)\<rparr>)"
proof -
  have "words s1 (p - 4) = tag n u" "geom s1 p n" using g by (simp_all add: s1_def)
  then show "FTRP (w32 p) s1 = Some (w32 (p + n - 8))"
    "PUT (w32 (p + n - 8)) (tag n u) s1 = Some (s\<lparr>words := tag_words p n u (words s)\<rparr>)"
    by (simp_all add: header_reads(3) put_tags(2)) (simp add: s1_def)
  show "PUT (HDRP (w32 p)) (tag n u) s = Some s1" by (simp add: s1_def put_tags(1) [OF g])
qed

lemma place_whole:
  assumes core: "heap_core {} s (xs @ Blk p n False # ys) fl" and sz: "sz \<le> n" "n - sz < 32"
  shows "\<exists>W fl'. place (w32 p) (w32 sz) s = Some (s\<lparr>words := W\<rparr>)
    \<and> heap_core {} (s\<lparr>words := W\<rparr>) (xs @ Blk p n True # ys) fl'
    \<and> preserves {} (xs @ Blk p n False # ys) (words s) W"
proof -
  let ?bs = "xs @ Blk p n False # ys" and ?bs' = "xs @ Blk p n True # ys"
  have b: "Blk p n False \<in> set ?bs" and b': "Blk p n True \<in> set ?bs'" by simp_all
  note B = core_block [OF core b]
  note hd = header_reads(1) [OF core_geom [OF core b] core_tags(1) [OF core b]]
  obtain V fl' where V: "remove_from_seglist (w32 p) s = Some (s\<lparr>words := V\<rparr>)"
    "heap_core {p} (s\<lparr>words := V\<rparr>) ?bs' fl'"
    "\<forall>a. a \<notin> link_area s ?bs \<longrightarrow> V a = words s a"
    using core_unlink [OF core] by auto
  let ?W = "tag_words p n True V"
  have "w32 n - w32 sz = w32 (n - sz)" "\<not> 32 \<le> w32 (n - sz)"
    using sz B(7) by (simp_all add: w32_sub word_le_nat_alt unat_w32)
  then have "place (w32 p) (w32 sz) s = Some (s\<lparr>words := ?W\<rparr>)"
    using hd V(1) put_both_tags [OF core_geom [OF V(2) b'], of True]
    by (simp add: place_def PACK_tag)
  moreover have "heap_core {} (s\<lparr>words := ?W\<rparr>) ?bs' fl'"
    using close_used [OF V(2) b'] by simp
  moreover have "preserves {} ?bs (words s) ?W"
  proof (rule preserves_trans [OF preserves_link [OF core V(3)]])
    show "preserves {p} ?bs' V ?W" using core_retag(2) [OF V(2) b'] by simp
  next
    fix q m assume "Blk q m True \<in> set ?bs"
    then have "Blk q m True \<in> set xs \<union> set ys" by auto
    with chain_notin [OF heap_core_chain [OF core]]
    show "Blk q m True \<in> set ?bs' \<and> q \<notin> {p}" by force
  qed
  ultimately show ?thesis by blast
qed

text \<open>Taking the block off its list and cutting it in two.\<close>

lemma unlink_split:
  assumes core: "heap_core {} s (xs @ Blk p (sz + r) False # ys) fl"
    and sz: "32 \<le> sz" "8 dvd sz" "32 \<le> r"
  shows "\<exists>V fl'. remove_from_seglist (w32 p) s = Some (s\<lparr>words := V\<rparr>)
    \<and> heap_core {p + sz, p} (s\<lparr>words := V\<rparr>) (xs @ Blk p sz True # Blk (p + sz) r True # ys) fl'
    \<and> preserves {} (xs @ Blk p (sz + r) False # ys) (words s) V"
proof -
  have "8 dvd sz + r" by (rule core_block(4) [OF core, of p _ False]) simp
  then have r8: "8 dvd r" using sz(2) by presburger
  obtain V fl1 where V: "remove_from_seglist (w32 p) s = Some (s\<lparr>words := V\<rparr>)"
    "heap_core {p} (s\<lparr>words := V\<rparr>) (xs @ Blk p (sz + r) True # ys) fl1"
    "\<forall>a. a \<notin> link_area s (xs @ Blk p (sz + r) False # ys) \<longrightarrow> V a = words s a"
    using core_unlink [OF core] by auto
  have "heap_core {p + sz, p} (s\<lparr>words := V\<rparr>) (xs @ Blk p sz True # Blk (p + sz) r True # ys) fl1"
    by (rule core_split [OF V(2)]) (use sz r8 in simp_all)
  with V(1) preserves_link [OF core V(3)] show ?thesis by blast
qed

lemma preserves_split:
  assumes c: "chain e (xs @ Blk p sz True # Blk (p + sz) r True # ys) h"
    and V: "preserves {} (xs @ Blk p (sz + r) False # ys) U V"
    and W: "preserves {p, p + sz} (xs @ Blk p sz True # Blk (p + sz) r True # ys) V W"
  shows "preserves {} (xs @ Blk p (sz + r) False # ys) U W"
proof (rule preserves_trans [OF V W])
  let ?bs' = "xs @ Blk p sz True # Blk (p + sz) r True # ys"
  fix q m assume "Blk q m True \<in> set (xs @ Blk p (sz + r) False # ys)"
  then have q: "Blk q m True \<in> set xs \<union> set ys" by auto
  have "q \<noteq> p" using chain_notin [OF c, of "Blk q m True"] q by auto
  moreover have "q \<noteq> p + sz"
    using chain_notin [of e "xs @ [Blk p sz True]" "p + sz" r True ys h "Blk q m True"] c q by auto
  ultimately show "Blk q m True \<in> set ?bs' \<and> q \<notin> {p, p + sz}" using q by auto
qed

lemma place_split:
  assumes core: "heap_core {} s (xs @ Blk p (sz + r) False # ys) fl"
    and sz: "32 \<le> sz" "8 dvd sz" "32 \<le> r"
  shows "\<exists>W fl'. place (w32 p) (w32 sz) s = Some (s\<lparr>words := W\<rparr>)
    \<and> heap_core {} (s\<lparr>words := W\<rparr>) (xs @ Blk p sz True # Blk (p + sz) r False # ys) fl'
    \<and> preserves {} (xs @ Blk p (sz + r) False # ys) (words s) W"
proof -
  let ?bs = "xs @ Blk p (sz + r) False # ys"
  let ?bs' = "xs @ Blk p sz True # Blk (p + sz) r True # ys"
  have b: "Blk p (sz + r) False \<in> set ?bs" and b': "Blk p sz True \<in> set ?bs'"
    and c': "Blk (p + sz) r True \<in> set ?bs'" by simp_all
  note B = core_block [OF core b]
  note hd = header_reads(1) [OF core_geom [OF core b] core_tags(1) [OF core b]]
  from unlink_split [OF core sz] obtain V fl1 where V: "remove_from_seglist (w32 p) s = Some (s\<lparr>words := V\<rparr>)"
    and core1: "heap_core {p + sz, p} (s\<lparr>words := V\<rparr>) ?bs' fl1"
    and keep: "preserves {} ?bs (words s) V" by blast
  let ?V2 = "tag_words p sz True V"
  let ?s2 = "s\<lparr>words := ?V2\<rparr>"
  have "heap_core ({p + sz, p} - {p}) ?s2 ?bs' fl1"
    using close_used [OF core1 b'] by simp
  moreover have "{p + sz, p} - {p} = {p + sz}" using sz by auto
  ultimately have core2: "heap_core {p + sz} ?s2 ((xs @ [Blk p sz True]) @ Blk (p + sz) r True # ys) fl1"
    by simp
  have nu: "ys = [] \<or> used (hd ys)" using free_alone(2) [OF core] by (simp add: next_used_def)
  obtain W fl' where W: "add_to_seglist (w32 (p + sz)) (?s2\<lparr>words := tag_words (p + sz) r False ?V2\<rparr>)
      = Some (?s2\<lparr>words := W\<rparr>)"
    "heap_core {} (?s2\<lparr>words := W\<rparr>) (xs @ Blk p sz True # Blk (p + sz) r False # ys) fl'"
    "preserves {p + sz} ?bs' ?V2 W"
    using close_free [OF core2] nu by auto
  have g: "geom (s\<lparr>words := V\<rparr>) p sz" "geom ?s2 (p + sz) r"
    using core_geom [OF core1 b'] core_geom [OF core1 c'] by simp_all
  have nx: "NEXT_BLKP (w32 p) ?s2 = Some (w32 (p + sz))"
    using g tag_cells(3) [OF core1 b'] by (intro header_reads(4)) simp_all
  have "w32 (sz + r) - w32 sz = w32 r" "32 \<le> w32 r"
    using sz B(7) by (simp_all add: w32_sub word_le_nat_alt unat_w32 MAX_HEAP_def)
  then have "place (w32 p) (w32 sz) s = Some (s\<lparr>words := W\<rparr>)"
    using hd V nx W(1) put_both_tags [OF g(1), of True] put_both_tags [OF g(2), of False]
    by (simp add: place_def PACK_tag)
  moreover have "preserves {} ?bs (words s) W"
  proof -
    have "preserves {p, p + sz} ?bs' V W"
    proof (rule preserves_trans)
      have "preserves {p} ?bs' V ?V2" using core_retag(2) [OF core1 b', of True] by simp
      then show "preserves {p, p + sz} ?bs' V ?V2" by (rule preserves_mono) simp
      show "preserves {p, p + sz} ?bs' ?V2 W" using W(3) by (rule preserves_mono) simp
    qed simp
    then show ?thesis by (rule preserves_split [OF heap_core_chain [OF core1] keep])
  qed
  ultimately show ?thesis using W(2) by auto
qed

lemma place_spec:
  assumes core: "heap_core {} s (xs @ Blk p n False # ys) fl"
    and sz: "32 \<le> sz" "8 dvd sz" "sz \<le> n"
  shows "\<exists>W fl'. place (w32 p) (w32 sz) s = Some (s\<lparr>words := W\<rparr>)
    \<and> heap_core {} (s\<lparr>words := W\<rparr>) (placed xs p n sz ys) fl'
    \<and> preserves {} (xs @ Blk p n False # ys) (words s) W"
proof (cases "32 \<le> n - sz")
  case True
  then have n: "n = sz + (n - sz)" by simp
  from core have "heap_core {} s (xs @ Blk p (sz + (n - sz)) False # ys) fl" by (subst n [symmetric])
  from place_split [OF this sz(1,2) True] True n show ?thesis by (simp add: placed_def)
next
  case False
  then show ?thesis using place_whole [OF core sz(3)] by (simp add: placed_def)
qed

section \<open>extend_heap\<close>

lemma mem_sbrk_spec:
  assumes "sz < 2147483648" "hi s + sz < 4294967296"
  shows "mem_sbrk (w32 sz) s =
    (if hi s + sz > unat (mem_max_addr s) then (- 1, s\<lparr>errno := ENOMEM\<rparr>)
     else (w32 (hi s), s\<lparr>mem_brk := w32 (hi s + sz)\<rparr>))"
proof -
  have "sint (w32 sz) = int sz" using assms(1) by (rule sint_w32)
  moreover have "mem_brk s + w32 sz = w32 (hi s + sz)" by (simp add: w32_add [symmetric])
  ultimately show ?thesis
    using assms(2) by (simp add: mem_sbrk_def word_less_nat_alt unat_w32)
qed

text \<open>
  The state after the three stores: the old epilogue header has become the header of the new
  block, which is opened, and a new epilogue closes the heap.
\<close>

abbreviation extended :: "nat \<Rightarrow> 'a memlib_scheme \<Rightarrow> 'a memlib_scheme" where
  "extended sz s \<equiv> s\<lparr>mem_brk := w32 (hi s + sz),
     words := (tag_words (hi s) sz False (words s))(hi s + sz - 4 := tag 0 True)\<rparr>"

text \<open>The free lists lie below the old epilogue.\<close>

lemma bucket_below:
  assumes core: "heap_core {} s bs fl" and k: "k < 32"
    and W: "\<And>a. a < hi s - 4 \<Longrightarrow> W a = words s a"
  shows "bucket_list W (lo s + 4 * k) (fl k)"
proof -
  note L = core_bucket [OF core k]
  have "lo s + 144 \<le> hi s" using core by (simp add: heap_core_def region_ok_def)
  then have "W (lo s + 4 * k) = words s (lo s + 4 * k)" using k by (intro W) simp
  moreover have "W a = words s a" if a: "a \<in> link_cells (fl k)" for a
  proof -
    obtain q where q: "q \<in> set (fl k)" "a = q \<or> a = q + 4" using a by (auto simp: link_cells_def)
    with L(4) obtain n where "Blk q n False \<in> set bs" by (auto simp: free_in_def)
    then have "a < hi s - 4" using q(2) core_block [OF core, of q n False] by auto
    then show ?thesis by (rule W)
  qed
  ultimately show ?thesis using bucket_list_cong L(2) by blast
qed

lemma core_extend:
  assumes core: "heap_core {} s bs fl" and sz: "32 \<le> sz" "8 dvd sz" "hi s + sz \<le> lo s + MAX_HEAP"
  shows "heap_core {hi s} (extended sz s) (bs @ [Blk (hi s) sz True]) fl"
    "preserves {} bs (words s) (words (extended sz s))"
proof -
  let ?s = "extended sz s"
  have r: "region_ok s" and c: "chain (lo s + 144) bs (hi s)"
    using core by (simp_all add: heap_core_def)
  then have R: "8 dvd lo s" "lo s + 144 \<le> hi s" "lo s + MAX_HEAP < 4294967296"
    using unat_lt32 [of "mem_max_addr s"] by (simp_all add: region_ok_def)
  then have hi': "unat (mem_brk ?s) = hi s + sz" using sz by (simp add: unat_w32)
  have low: "words ?s a = words s a" if "a < hi s - 4" for a
    using that sz R by auto
  have "region_ok ?s" using r sz hi' by (simp add: region_ok_def)
  moreover have "chain (lo s + 144) (bs @ [Blk (hi s) sz True]) (hi s + sz)"
    using c sz by (auto simp: chain_append)
  moreover have "words ?s (lo s + 132) = tag 8 True" "words ?s (lo s + 136) = tag 8 True"
    using core low [of "lo s + 132"] low [of "lo s + 136"] R(2) by (simp_all add: heap_core_def)
  moreover have "words ?s (hi s + sz - 4) = tag 0 True" by simp
  moreover have "tagged (words ?s) b" if "b \<in> set bs" for b
  proof -
    obtain p n u where b: "b = Blk p n u" by (cases b)
    with that have bm: "Blk p n u \<in> set bs" by simp
    from core_block [OF core bm] have "p - 4 < hi s - 4" "p + n - 8 < hi s - 4" by auto
    with low core_tags [OF core bm] b show ?thesis by (simp add: tagged_def)
  qed
  moreover have "hi s \<notin> bptr ` set bs"
  proof
    assume "hi s \<in> bptr ` set bs"
    then obtain n u where "Blk (hi s) n u \<in> set bs" by (metis (no_types) block_at imageE)
    from core_block [OF core this] show False by simp
  qed
  moreover have "bucket_list (words ?s) (lo s + 4 * k) (fl k) \<and> distinct (fl k)
      \<and> set (fl k) = free_in (bs @ [Blk (hi s) sz True]) k" if k: "k < 32" for k
  proof -
    have "bucket_list (words ?s) (lo s + 4 * k) (fl k)" by (rule bucket_below [OF core k low])
    moreover have "free_in (bs @ [Blk (hi s) sz True]) k = free_in bs k" by (auto simp: free_in_def)
    ultimately show ?thesis using core_bucket [OF core k] by simp
  qed
  moreover have "no_free_pair (bs @ [Blk (hi s) sz True])"
    using core by (auto simp: heap_core_def no_free_pair_def successively_append_iff)
  moreover have "lo ?s = lo s" by simp
  ultimately show "heap_core {hi s} ?s (bs @ [Blk (hi s) sz True]) fl"
    unfolding heap_core_def hi' by (simp del: memlib.simps) (metis image_eqI)
  show "preserves {} bs (words s) (words ?s)"
    unfolding preserves_def
  proof (intro allI impI)
    fix p n a assume "Blk p n True \<in> set bs" "a < p + n - 4"
    from core_block(2) [OF core this(1)] this(2) show "words ?s a = words s a" by (intro low) simp
  qed
qed

lemma cell_brk [simp]: "cell (s\<lparr>mem_brk := b\<rparr>) a = cell s a"
  by (simp add: cell_def)

lemma geom_brk [simp]: "geom (s\<lparr>mem_brk := b\<rparr>) p n = geom s p n"
  by (simp add: geom_def)

text \<open>The three stores of \<open>extend_heap\<close> on the enlarged heap.\<close>

lemma extend_stores:
  fixes s :: "'a memlib_scheme"
  assumes g: "geom s (hi s) sz" and c: "cell s (hi s + sz - 4)"
  shows "do { t \<leftarrow> PUT (HDRP (w32 (hi s))) (tag sz False) (s\<lparr>mem_brk := b\<rparr>);
      ftr \<leftarrow> FTRP (w32 (hi s)) t;
      t \<leftarrow> PUT ftr (tag sz False) t;
      nxt \<leftarrow> NEXT_BLKP (w32 (hi s)) t;
      t \<leftarrow> PUT (HDRP nxt) (tag 0 True) t;
      k t } = k (s\<lparr>mem_brk := b, words := (tag_words (hi s) sz False (words s))(hi s + sz - 4 := tag 0 True)\<rparr>)"
proof -
  let ?b = "s\<lparr>mem_brk := b\<rparr>" and ?W = "tag_words (hi s) sz False (words s)"
  have g': "geom ?b (hi s) sz" "hi s - 4 \<noteq> hi s + sz - 8" "4 \<le> hi s + sz"
    using g by (auto simp: geom_def)
  have "NEXT_BLKP (w32 (hi s)) (?b\<lparr>words := ?W\<rparr>) = Some (w32 (hi s + sz))"
    using g' by (intro header_reads(4)) simp_all
  moreover have "PUT (HDRP (w32 (hi s + sz))) (tag 0 True) (?b\<lparr>words := ?W\<rparr>)
      = Some (?b\<lparr>words := ?W(hi s + sz - 4 := tag 0 True)\<rparr>)"
    using HDRP_w32 [OF g'(3)] c by (simp add: PUT_cell)
  ultimately show ?thesis
    using put_both_tags [OF g'(1), of False] by simp
qed

text \<open>\<open>extend_heap\<close> gets a number of words that is even, and gives it back in bytes.\<close>

lemma word_count:
  assumes "8 dvd n" "n < 2147483648"
  shows "w32 n div 4 mod 2 = 0" "w32 n div 4 * 4 = w32 n"
proof -
  have "unat (w32 n div 4) = n div 4" using assms(2) by (simp add: unat_div unat_w32)
  moreover have "n div 4 mod 2 = 0" using assms(1) by presburger
  ultimately have "unat (w32 n div 4 mod 2) = 0" by (simp add: unat_mod)
  then show "w32 n div 4 mod 2 = 0" by (simp add: unat_eq_0)
  show "w32 n div 4 * 4 = w32 n" using assms by (intro div4_mult4) (presburger, simp)
qed

lemma unat_minus_1: "unat (- 1 :: u32) = 4294967295"
  by (simp add: unsigned_minus_1_eq_mask mask_eq_exp_minus_1)

lemma extend_heap_spec:
  assumes core: "heap_core {} s bs fl"
    and sz: "32 \<le> sz" "8 dvd sz" "sz < 2147483648" "hi s + sz < 4294967296"
    and fits: "hi s + sz \<le> lo s + MAX_HEAP"
    and j: "join_free bs (hi s) sz [] = (xs', p', n', ys')"
  shows "\<exists>W fl'. extend_heap (w32 sz div 4) s
      = Some (w32 p', s\<lparr>mem_brk := w32 (hi s + sz), words := W\<rparr>)
    \<and> heap_core {} (s\<lparr>mem_brk := w32 (hi s + sz), words := W\<rparr>) (xs' @ Blk p' n' False # ys') fl'
    \<and> preserves {} bs (words s) W"
proof -
  let ?s = "extended sz s" and ?bs' = "bs @ Blk (hi s) sz True # []"
  note E = core_extend [OF core sz(1,2) fits]
  have core': "heap_core {hi s} ?s ?bs' fl" using E(1) by simp
  have b: "Blk (hi s) sz True \<in> set ?bs'" by simp
  note g = core_geom [OF core' b]
  have g': "geom s (hi s) sz" using g by simp
  have "4 dvd hi s + sz - 4" using g' by (auto simp: geom_def) presburger
  then have c: "cell s (hi s + sz - 4)"
    using core_cell [OF core' b, of "hi s + sz - 4"] g' by (simp add: geom_def)
  have t: "words ?s (hi s - 4) = tag sz False" "words ?s (hi s + sz - 8) = tag sz False"
    using g' by (auto simp: geom_def)
  obtain W fl' where W: "coalesce (w32 (hi s)) ?s = Some (w32 p', ?s\<lparr>words := W\<rparr>)"
    "heap_core {} (?s\<lparr>words := W\<rparr>) (xs' @ Blk p' n' False # ys') fl'"
    "preserves {hi s} ?bs' (words ?s) W"
    using coalesce_spec [OF core' t j] by blast
  have "mem_sbrk (w32 sz) s = (w32 (hi s), s\<lparr>mem_brk := w32 (hi s + sz)\<rparr>)"
    using mem_sbrk_spec [OF sz(3,4)] fits heap_core_region [OF core] by (simp add: region_ok_def)
  moreover have "w32 (hi s) \<noteq> - 1"
  proof
    assume "w32 (hi s) = - 1"
    then have "unat (w32 (hi s)) = unat (- 1 :: u32)" by simp
    with sz show False by (simp add: unat_w32 unat_minus_1)
  qed
  moreover have "PACK 0 1 = tag 0 True" by (simp add: tag_def)
  ultimately have "extend_heap (w32 sz div 4) s = coalesce (w32 (hi s)) ?s"
    using extend_stores [OF g' c, of "w32 (hi s + sz)" "coalesce (w32 (hi s))"]
      word_count [OF sz(2,3)]
    by (simp add: extend_heap_def PACK_tag)
  moreover have "preserves {} bs (words s) W"
  proof (rule preserves_trans [OF E(2) W(3)])
    fix q k assume "Blk q k True \<in> set bs"
    with core_block(2,3) [OF core this] show "Blk q k True \<in> set ?bs' \<and> q \<notin> {hi s}" by auto
  qed
  ultimately show ?thesis using W by auto
qed

text \<open>At the end of the storage \<open>extend_heap\<close> fails and changes nothing but \<open>errno\<close>.\<close>

lemma extend_heap_full:
  assumes core: "heap_core {} s bs fl"
    and sz: "8 dvd sz" "sz < 2147483648" "hi s + sz < 4294967296" "lo s + MAX_HEAP < hi s + sz"
  shows "extend_heap (w32 sz div 4) s = Some (0, s\<lparr>errno := ENOMEM\<rparr>)"
proof -
  have "mem_sbrk (w32 sz) s = (- 1, s\<lparr>errno := ENOMEM\<rparr>)"
    using mem_sbrk_spec [OF sz(2,3)] sz(4) heap_core_region [OF core] by (simp add: region_ok_def)
  with word_count [OF sz(1,2)] show ?thesis by (simp add: extend_heap_def)
qed

end
