(* ===== verification/Malloc.thy ===== *)
theory Malloc
  imports Place_Extend
begin

text \<open>
  The interface of \<^verbatim>\<open>mm.c\<close>: \<open>mm_init\<close>, \<open>mm_malloc\<close>, \<open>mm_free\<close> and \<open>mm_realloc\<close>, over the
  state of \<^verbatim>\<open>memlib.c\<close> and the one variable of \<^verbatim>\<open>mm.c\<close>; \<open>mm_init\<close>, \<open>mm_malloc\<close> and
  \<open>mm_free\<close> against the block list.
\<close>

section \<open>The code\<close>

record mm_state = memlib +
  heap_listp :: u32

definition mm_init :: "'a mm_state_scheme \<Rightarrow> (int \<times> 'a mm_state_scheme) option" where
  "mm_init s =
     (let (p, s) = mem_sbrk (4 * WSIZE) s; s = s\<lparr>heap_listp := p\<rparr>
      in if heap_listp s = - 1 then Some (- 1, s)
         else do {
           s \<leftarrow> buckets_init BUCKETS_COUNT (heap_listp s) s;
           let s = s\<lparr>heap_listp := heap_listp s + BUCKETS_COUNT * WSIZE\<rparr>;
           s \<leftarrow> PUT (heap_listp s) 0 s;
           s \<leftarrow> PUT (heap_listp s + 1 * WSIZE) (PACK DSIZE 1) s;
           s \<leftarrow> PUT (heap_listp s + 2 * WSIZE) (PACK DSIZE 1) s;
           s \<leftarrow> PUT (heap_listp s + 3 * WSIZE) (PACK 0 1) s;
           let s = s\<lparr>heap_listp := heap_listp s + 2 * WSIZE\<rparr>;
           (bp, s) \<leftarrow> extend_heap (CHUNKSIZE div WSIZE) s;
           if bp = 0 then Some (- 1, s) else Some (0, s) })"

definition mm_malloc ::
    "u32 \<Rightarrow> 'a mm_state_scheme \<Rightarrow> (u32 \<times> 'a mm_state_scheme) option" where
  "mm_malloc sz s =
     (let newsize = ALIGN (sz + OVERHEAD) in do {
       s \<leftarrow> (if heap_listp s = 0 then do { (_, s) \<leftarrow> mm_init s; Some s } else Some s);
       if sz = 0 then Some (0, s)
       else do {
         bp \<leftarrow> find_fit (newsize div WSIZE) s;
         if bp \<noteq> 0 then do {
           s \<leftarrow> place bp newsize s;
           Some (bp + DSIZE, s) }
         else do {
           let extendsize = MAX_of newsize CHUNKSIZE;
           (bp, s) \<leftarrow> extend_heap (extendsize div WSIZE) s;
           if bp = 0 then Some (0, s)
           else do {
             s \<leftarrow> place bp newsize s;
             Some (bp + DSIZE, s) } } } })"

definition mm_free :: "u32 \<Rightarrow> 'a mm_state_scheme \<Rightarrow> 'a mm_state_scheme option" where
  "mm_free ptr s =
     (let ptr = ptr - DSIZE in do {
       sz \<leftarrow> GET_SIZE (HDRP ptr) s;
       s \<leftarrow> PUT (HDRP ptr) (PACK sz 0) s;
       ftr \<leftarrow> FTRP ptr s;
       s \<leftarrow> PUT ftr (PACK sz 0) s;
       (_, s) \<leftarrow> coalesce ptr s;
       Some s })"

definition mm_realloc ::
    "u32 \<Rightarrow> u32 \<Rightarrow> 'a mm_state_scheme \<Rightarrow> (u32 \<times> 'a mm_state_scheme) option" where
  "mm_realloc ptr sz s =
     (if ptr = 0 then mm_malloc sz s
      else if sz = 0 then do { s \<leftarrow> mm_free ptr s; Some (0, s) }
      else do {
        (newptr, s) \<leftarrow> mm_malloc sz s;
        csize \<leftarrow> GET_SIZE (HDRP (ptr - DSIZE)) s;
        let csize = (if sz < csize then sz else csize);
        s \<leftarrow> memcpy newptr ptr (unat csize) s;
        s \<leftarrow> mm_free ptr s;
        Some (newptr, s) })"

section \<open>The invariant between calls\<close>

definition heap_inv :: "'a mm_state_scheme \<Rightarrow> block list \<Rightarrow> (nat \<Rightarrow> nat list) \<Rightarrow> bool" where
  "heap_inv s bs fl \<longleftrightarrow> heap_core {} s bs fl \<and> heap_listp s = w32 (lo s + 136)"

text \<open>The block size for a request of \<open>n\<close> bytes: 32 bytes more, rounded up to a multiple of 8.\<close>

definition request :: "nat \<Rightarrow> nat" where
  "request n = (n + 39) div 8 * 8"

lemma request_props: "n + 32 \<le> request n" "request n \<le> n + 39" "8 dvd request n"
  unfolding request_def by auto

lemma ALIGN_request:
  assumes "n + 39 < 4294967296"
  shows "ALIGN (w32 n + OVERHEAD) = w32 (request n)"
  using ALIGN_w32 [of "n + 32"] assms by (simp add: w32_add_numeral request_def add.commute)

section \<open>mm_init\<close>

lemma cell_listp [simp]: "cell (s\<lparr>heap_listp := h\<rparr>) a = cell s a"
  by (simp add: cell_def)

lemma buckets_clear_spec:
  "n < 4294967296 \<Longrightarrow> (\<forall>j < n. cell s (b + 4 * j)) \<Longrightarrow>
   buckets_clear (w32 n) (w32 b) s =
     Some (s\<lparr>words := \<lambda>a. if \<exists>j < n. a = b + 4 * j then 0 else words s a\<rparr>)"
proof (induction n arbitrary: b s)
  case 0
  then show ?case by simp
next
  case (Suc n)
  let ?s = "s\<lparr>words := (words s)(b := 0)\<rparr>"
  have n: "w32 (Suc n) \<noteq> 0" "w32 (Suc n) - 1 = w32 n"
    using w32_eq_0 [of "Suc n"] Suc.prems(1) by (simp_all add: w32_def)
  have b: "cell s b" using Suc.prems(2) by force
  have "cell ?s (b + 4 + 4 * j)" if "j < n" for j
    using Suc.prems(2) that by (auto dest: spec [of _ "Suc j"] simp: algebra_simps)
  then have "buckets_clear (w32 n) (w32 (b + 4)) ?s =
      Some (?s\<lparr>words := \<lambda>a. if \<exists>j < n. a = b + 4 + 4 * j then 0 else words ?s a\<rparr>)"
    using Suc.IH [of ?s "b + 4"] Suc.prems(1) by simp
  moreover have "(\<lambda>a. if \<exists>j < n. a = b + 4 + 4 * j then 0 else words ?s a)
      = (\<lambda>a. if \<exists>j < Suc n. a = b + 4 * j then 0 else words s a)"
    by (rule ext) (auto simp: less_Suc_eq_0_disj)
  ultimately show ?case
    using n b by (simp add: PUT_cell w32_add_numeral)
qed

text \<open>The state \<open>mem_init\<close> or \<open>mem_reset_brk\<close> leaves: an aligned storage, and an empty heap.\<close>

definition fresh_heap :: "'a memlib_scheme \<Rightarrow> bool" where
  "fresh_heap s \<longleftrightarrow> store_lo s = lo s \<and> store_hi s = lo s + MAX_HEAP
     \<and> unat (mem_max_addr s) = lo s + MAX_HEAP \<and> 0 < lo s \<and> 8 dvd lo s \<and> hi s = lo s"

lemma MAX_HEAP_num: "MAX_HEAP = 20971520"
  by (simp add: MAX_HEAP_def)

definition initial_words :: "nat \<Rightarrow> (nat \<Rightarrow> u32) \<Rightarrow> (nat \<Rightarrow> u32)" where
  "initial_words L W = (\<lambda>a. if \<exists>j < 32. a = L + 4 * j then 0 else W a)
     (L + 128 := 0, L + 132 := tag 8 True, L + 136 := tag 8 True, L + 140 := tag 0 True)"

text \<open>Before it extends the heap, \<open>mm_init\<close> has built an empty heap that satisfies the invariant.\<close>

lemma initial_core:
  assumes "fresh_heap s"
  shows "heap_core {} (s\<lparr>mem_brk := w32 (lo s + 144), words := initial_words (lo s) (words s)\<rparr>) [] (\<lambda>_. [])"
proof -
  let ?W = "initial_words (lo s) (words s)"
  have L: "lo s + MAX_HEAP < 4294967296" "8 dvd lo s"
    using assms unat_lt32 [of "mem_max_addr s"] by (simp_all add: fresh_heap_def)
  then have hi: "unat (w32 (lo s + 144)) = lo s + 144" by (simp add: MAX_HEAP_num unat_w32)
  have "?W (lo s + 4 * k) = 0" if "k < 32" for k
    using that by (auto simp: initial_words_def)
  then have "bucket_list ?W (lo s + 4 * k) []" if "k < 32" for k
    using that by (simp add: bucket_list_def)
  moreover have "?W (lo s + 132) = tag 8 True" "?W (lo s + 136) = tag 8 True"
    "?W (lo s + 144 - 4) = tag 0 True" by (simp_all add: initial_words_def)
  moreover have "free_in [] k = {}" for k by (simp add: free_in_def)
  ultimately show ?thesis
    using assms hi by (simp add: heap_core_def region_ok_def fresh_heap_def no_free_pair_def MAX_HEAP_num)
qed

lemma fresh_cell:
  assumes f: "fresh_heap s" and j: "j < 36"
  shows "cell s (lo s + 4 * j)"
proof -
  have "8 dvd lo s" using f by (simp add: fresh_heap_def)
  then have "(lo s + 4 * j) mod 4 = 0" by presburger
  then show ?thesis
    using f j unat_lt32 [of "mem_max_addr s"] by (simp add: cell_def fresh_heap_def MAX_HEAP_num)
qed

text \<open>The bucket array comes after the four words already there, and is cleared from the start.\<close>

lemma buckets_init_fresh:
  assumes f: "fresh_heap s"
  defines "s1 \<equiv> s\<lparr>mem_brk := w32 (lo s + 16), heap_listp := w32 (lo s)\<rparr>"
  shows "buckets_init 32 (w32 (lo s)) s1 = Some (s\<lparr>mem_brk := w32 (lo s + 144), heap_listp := w32 (lo s),
      words := \<lambda>a. if \<exists>j < 32. a = lo s + 4 * j then 0 else words s a\<rparr>)"
proof -
  let ?s2 = "s\<lparr>mem_brk := w32 (lo s + 144), heap_listp := w32 (lo s)\<rparr>"
  have L: "lo s + MAX_HEAP < 4294967296"
    using f unat_lt32 [of "mem_max_addr s"] by (simp add: fresh_heap_def)
  have "mem_sbrk 128 s1 = (w32 (lo s + 16), ?s2)"
    using mem_sbrk_spec [of 128 s1] f L
    by (simp add: s1_def fresh_heap_def MAX_HEAP_num w32_numeral unat_w32 add.commute)
  moreover have "\<forall>j < 32. cell ?s2 (lo s + 4 * j)" using fresh_cell [OF f] by simp
  from buckets_clear_spec [OF _ this] calculation show ?thesis
    by (simp add: buckets_init_def w32_numeral del: buckets_clear.simps cong: if_cong)
qed

lemma mm_init_prefix:
  assumes f: "fresh_heap s"
  defines "s0 \<equiv> s\<lparr>heap_listp := w32 (lo s + 136), mem_brk := w32 (lo s + 144),
    words := initial_words (lo s) (words s)\<rparr>"
  shows "mm_init s = do { (bp, s) \<leftarrow> extend_heap (w32 4096 div 4) s0;
      if bp = 0 then Some (- 1, s) else Some (0, s) }"
proof -
  let ?L = "lo s"
  have L: "?L + MAX_HEAP < 4294967296" "8 dvd ?L" "0 < ?L"
    using f unat_lt32 [of "mem_max_addr s"] by (simp_all add: fresh_heap_def)
  have cells: "cell s (?L + 128)" "cell s (?L + 132)" "cell s (?L + 136)" "cell s (?L + 140)"
    using fresh_cell [OF f, of 32] fresh_cell [OF f, of 33] fresh_cell [OF f, of 34] fresh_cell [OF f, of 35]
    by simp_all
  have brk: "mem_brk s = mem_start_brk s"
    using f by (metis fresh_heap_def w32_unat)
  let ?s1 = "s\<lparr>mem_brk := w32 (?L + 16), heap_listp := w32 ?L\<rparr>"
  have sb1: "mem_sbrk 16 s = (w32 ?L, s\<lparr>mem_brk := w32 (?L + 16)\<rparr>)"
    using mem_sbrk_spec [of 16 s] f L by (simp add: fresh_heap_def MAX_HEAP_num w32_numeral)
  have ne: "w32 ?L \<noteq> - 1"
  proof
    assume "w32 ?L = - 1"
    then have "unat (w32 ?L) = unat (- 1 :: u32)" by simp
    with L show False by (simp add: unat_minus_1 MAX_HEAP_num)
  qed
  have tags: "PACK 8 1 = tag 8 True" "PACK 0 1 = tag 0 True"
    by (simp_all add: tag_def w32_numeral)
  have ptrs: "mem_start_brk s + 128 = w32 (?L + 128)" "w32 (?L + 128) + 4 = w32 (?L + 132)"
    "w32 (?L + 128) + 8 = w32 (?L + 136)" "w32 (?L + 128) + 12 = w32 (?L + 140)"
    using w32_add_numeral [of ?L]
    by (simp_all add: w32_add_numeral) (simp_all add: add.commute)
  define Z where "Z = (\<lambda>a. if \<exists>j < 32. a = ?L + 4 * j then 0 else words s a)"
  have Z: "Z(?L + 128 := 0, ?L + 132 := tag 8 True, ?L + 136 := tag 8 True, ?L + 140 := tag 0 True)
      = initial_words ?L (words s)"
    by (simp add: initial_words_def Z_def)
  have s0: "s\<lparr>mem_brk := w32 (?L + 144), words := initial_words ?L (words s), heap_listp := w32 (?L + 136)\<rparr> = s0"
    by (simp add: s0_def)
  note clr = buckets_init_fresh [OF f, folded Z_def]
  have e: "4 * (4 :: u32) = 16" "32 * (4 :: u32) = 128" "1 * (4 :: u32) = 4" "2 * (4 :: u32) = 8"
    "3 * (4 :: u32) = 12" "(4096 :: u32) = w32 4096"
    by (simp_all add: w32_numeral)
  show ?thesis
    using sb1 clr ne
    by (simp only: mm_init_def e WSIZE_def DSIZE_def CHUNKSIZE_def BUCKETS_COUNT_def Let_def
        prod.case mm_state.simps tags)
      (simp add: ptrs cells PUT_cell Z s0 cong: if_cong)
qed


lemma heap_core_listp [simp]:
  "heap_core X (s\<lparr>heap_listp := h\<rparr>) bs fl = heap_core X s bs fl"
  by (simp add: heap_core_def region_ok_def)

text \<open>\<open>mm_init\<close> makes a heap of one free block of \<open>CHUNKSIZE\<close> bytes out of a fresh storage.\<close>

lemma mm_init_spec:
  assumes f: "fresh_heap s"
  shows "\<exists>W fl. mm_init s = Some (0, s\<lparr>heap_listp := w32 (lo s + 136),
      mem_brk := w32 (lo s + 4240), words := W\<rparr>)
    \<and> heap_inv (s\<lparr>heap_listp := w32 (lo s + 136), mem_brk := w32 (lo s + 4240), words := W\<rparr>)
        [Blk (lo s + 144) 4096 False] fl"
proof -
  let ?s0 = "s\<lparr>heap_listp := w32 (lo s + 136), mem_brk := w32 (lo s + 144),
    words := initial_words (lo s) (words s)\<rparr>"
  have L: "lo s + MAX_HEAP < 4294967296"
    using f unat_lt32 [of "mem_max_addr s"] by (simp add: fresh_heap_def)
  then have hi: "unat (w32 (lo s + 144)) = lo s + 144" by (simp add: MAX_HEAP_num unat_w32)
  have "?s0 = s\<lparr>mem_brk := w32 (lo s + 144), words := initial_words (lo s) (words s),
      heap_listp := w32 (lo s + 136)\<rparr>" by simp
  with initial_core [OF f] have core: "heap_core {} ?s0 [] (\<lambda>_. [])"
    using heap_core_listp by metis
  have j: "join_free [] (hi ?s0) 4096 [] = ([], lo s + 144, 4096, [])"
    using hi by (simp add: join_free_def prev_used_def next_used_def)
  obtain W fl where W: "extend_heap (w32 4096 div 4) ?s0
      = Some (w32 (lo s + 144), ?s0\<lparr>mem_brk := w32 (lo s + 144 + 4096), words := W\<rparr>)"
    "heap_core {} (?s0\<lparr>mem_brk := w32 (lo s + 144 + 4096), words := W\<rparr>) [Blk (lo s + 144) 4096 False] fl"
    using extend_heap_spec [OF core _ _ _ _ _ j] L hi by (auto simp: MAX_HEAP_num)
  have "w32 (lo s + 144) \<noteq> 0" using L by (simp add: w32_eq_0 MAX_HEAP_num)
  with W(1) mm_init_prefix [OF f] have "mm_init s = Some (0, s\<lparr>heap_listp := w32 (lo s + 136),
      mem_brk := w32 (lo s + 4240), words := W\<rparr>)" by (simp add: add.commute)
  moreover have "heap_inv (s\<lparr>heap_listp := w32 (lo s + 136), mem_brk := w32 (lo s + 4240), words := W\<rparr>)
      [Blk (lo s + 144) 4096 False] fl"
    using W(2) by (simp add: heap_inv_def add.commute)
  ultimately show ?thesis by blast
qed

section \<open>mm_malloc\<close>

text \<open>The search, against the block list: a free block that fits, if and only if there is one.\<close>

definition size_at :: "block list \<Rightarrow> nat \<Rightarrow> nat" where
  "size_at bs p = (case find (\<lambda>b. bptr b = p) bs of None \<Rightarrow> 0 | Some b \<Rightarrow> bsize b)"

lemma size_at_block:
  "chain e bs h \<Longrightarrow> Blk p n u \<in> set bs \<Longrightarrow> size_at bs p = n"
proof (induction bs arbitrary: e)
  case Nil
  then show ?case by simp
next
  case (Cons b bs)
  then have c: "chain (e + bsize b) bs h" by simp
  show ?case
  proof (cases "b = Blk p n u")
    case True
    then show ?thesis by (simp add: size_at_def)
  next
    case False
    then have p: "Blk p n u \<in> set bs" using Cons.prems(2) by simp
    with Cons.prems(1) chain_mem(1) [OF c p] have "bptr b \<noteq> p" by auto
    with Cons.IH [OF c p] show ?thesis by (simp add: size_at_def)
  qed
qed

lemma core_listed:
  assumes core: "heap_core {} s bs fl" and j: "j < 32"
    and sz: "\<forall>p n u. Blk p n u \<in> set bs \<longrightarrow> sz p = n" and p: "p \<in> set (fl j)"
  shows "listed s (lo s + 4 * j) sz p"
proof -
  have "p \<in> free_in bs j" using core j p by (auto simp: heap_core_def)
  then obtain n where b: "Blk p n False \<in> set bs" by (auto simp: free_in_def)
  note B = core_block [OF core b]
  have "4 dvd p" "4 dvd p + 4" "4 dvd p - 4" using B(5) by presburger+
  then have "cell s p" "cell s (p + 4)" "cell s (p - 4)"
    using core_cell [OF core b] B by auto
  moreover have "sz p = n" using sz b by blast
  ultimately show ?thesis
    using B core_tags(1) [OF core b] j by (auto simp: listed_def node_ok_def)
qed

lemma core_buckets:
  assumes core: "heap_core X s bs fl" and j: "j < 32"
  shows "cell s (lo s + 4 * j)" "bucket_list (words s) (lo s + 4 * j) (fl j)"
proof -
  have r: "region_ok s" using core by (rule heap_core_region)
  then have "4 dvd lo s + 4 * j" by (auto simp: region_ok_def)
  with r j show "cell s (lo s + 4 * j)"
    by (intro region_cell [OF r]) (auto simp: region_ok_def)
  show "bucket_list (words s) (lo s + 4 * j) (fl j)" using core j by (simp add: heap_core_def)
qed

lemma find_fit_first:
  assumes core: "heap_core {} s bs fl" and n: "8 dvd n" "n \<le> 2147483648"
  shows "find_fit (w32 n div 4) s =
    Some (ptr_of (find (\<lambda>p. n \<le> size_at bs p) (concat (map fl [bucket_index n..<32]))))"
proof -
  have r: "region_ok s" using core by (rule heap_core_region)
  have mul: "w32 n div 4 * 4 = w32 n"
    using n by (intro div4_mult4) (presburger, simp)
  have L: "mem_heap_lo s = w32 (lo s)" "lo s + 128 < 4294967296"
    using r unat_lt32 [of "mem_max_addr s"] by (simp_all add: mem_heap_lo_def region_ok_def MAX_HEAP_num)
  have sz: "\<forall>p n u. Blk p n u \<in> set bs \<longrightarrow> size_at bs p = n"
    using size_at_block [OF heap_core_chain [OF core]] by blast
  have "\<forall>j < 32. cell s (lo s + 4 * j) \<and> bucket_list (words s) (lo s + 4 * j) (fl j)
      \<and> (\<forall>p \<in> set (fl j). listed s (lo s + 4 * j) (size_at bs) p)"
    using core_buckets [OF core] core_listed [OF core _ sz] by blast
  from find_fit_spec [OF L this mul n(2)] show ?thesis .
qed

lemma find_fit_core:
  assumes core: "heap_core {} s bs fl" and n: "8 dvd n" "n \<le> 2147483648"
  shows "(\<exists>p m. find_fit (w32 n div 4) s = Some (w32 p) \<and> Blk p m False \<in> set bs \<and> n \<le> m)
    \<or> find_fit (w32 n div 4) s = Some 0 \<and> (\<forall>p m. Blk p m False \<in> set bs \<longrightarrow> m < n)"
proof -
  let ?ps = "concat (map fl [bucket_index n..<32])"
  note ff = find_fit_first [OF core n]
  have sz: "\<forall>p n u. Blk p n u \<in> set bs \<longrightarrow> size_at bs p = n"
    using size_at_block [OF heap_core_chain [OF core]] by blast
  have free: "set (fl j) = free_in bs j" if "j < 32" for j using core that by (simp add: heap_core_def)
  show ?thesis
  proof (cases "find (\<lambda>p. n \<le> size_at bs p) ?ps")
    case None
    have "m < n" if b: "Blk p m False \<in> set bs" for p m
    proof (rule ccontr)
      assume "\<not> m < n"
      moreover have m: "m \<le> 2147483648" using core_block(7) [OF core b] by (simp add: MAX_HEAP_num)
      ultimately have i: "bucket_index n \<le> bucket_index m" "bucket_index m < 32"
        using bucket_index_mono [of n m] bucket_index_spec(1) [OF m] by simp_all
      with b free have "p \<in> set (fl (bucket_index m))" by (auto simp: free_in_def)
      with i have "p \<in> set ?ps" by auto
      with None have "\<not> n \<le> size_at bs p" unfolding find_None_iff by blast
      with sz b \<open>\<not> m < n\<close> show False by force
    qed
    with None ff show ?thesis by simp
  next
    case (Some p)
    then have "p \<in> set ?ps" "n \<le> size_at bs p" unfolding find_Some_iff by (metis nth_mem)+
    then obtain j where "j < 32" "p \<in> set (fl j)" by auto
    with free obtain m where "Blk p m False \<in> set bs" by (auto simp: free_in_def)
    with sz \<open>n \<le> size_at bs p\<close> Some ff show ?thesis by auto
  qed
qed


text \<open>The state after a successful call, and what the two callers of \<open>place\<close> rest on.\<close>

lemma MAX_of_w32:
  "a < 4294967296 \<Longrightarrow> b < 4294967296 \<Longrightarrow> MAX_of (w32 a) (w32 b) = w32 (max a b)"
  by (simp add: MAX_of_def w32_less max_def)

lemma join_free_props:
  assumes "join_free xs p n ys = (xs', p', n', ys')"
  shows "n \<le> n'" "filter used xs' = filter used xs" "filter used ys' = filter used ys"
proof -
  have "filter used (butlast xs) = filter used xs" if "\<not> prev_used xs"
    using that by (cases xs rule: rev_cases) (auto simp: prev_used_def)
  moreover have "filter used (tl ys) = filter used ys" if "\<not> next_used ys"
    using that by (cases ys) (auto simp: next_used_def)
  ultimately show "n \<le> n'" "filter used xs' = filter used xs" "filter used ys' = filter used ys"
    using assms by (auto simp: join_free_def split: if_splits)
qed

lemma heap_inv_listp: "heap_inv s bs fl \<Longrightarrow> heap_listp s \<noteq> 0"
  using unat_lt32 [of "mem_max_addr s"]
  by (auto simp: heap_inv_def heap_core_def region_ok_def MAX_HEAP_num w32_eq_0)

lemma mm_malloc_unfold:
  assumes inv: "heap_inv s bs fl" and n: "0 < n" "n + 39 < 2147483648"
  shows "mm_malloc (w32 n) s = do {
       bp \<leftarrow> find_fit (w32 (request n) div 4) s;
       if bp \<noteq> 0 then do { s \<leftarrow> place bp (w32 (request n)) s; Some (bp + 8, s) }
       else do {
         (bp, s) \<leftarrow> extend_heap (w32 (max (request n) 4096) div 4) s;
         if bp = 0 then Some (0, s)
         else do { s \<leftarrow> place bp (w32 (request n)) s; Some (bp + 8, s) } } }"
proof -
  have "w32 n \<noteq> 0" using n by (simp add: w32_eq_0)
  moreover have "MAX_of (w32 (request n)) 4096 = w32 (max (request n) 4096)"
    using MAX_of_w32 [of "request n" 4096] request_props(2) [of n] n by (simp add: w32_numeral)
  ultimately show ?thesis
    using heap_inv_listp [OF inv] ALIGN_request [of n] n
    by (simp add: mm_malloc_def Let_def cong: if_cong)
qed

lemma heap_inv_place:
  assumes core: "heap_core {} s (xs @ Blk p m False # ys) fl" and l: "heap_listp s = w32 (lo s + 136)"
    and m: "request n \<le> m" and n: "0 < n"
  shows "w32 p \<noteq> 0" "w32 p + 8 = w32 (p + 8)" "\<exists>W fl'. place (w32 p) (w32 (request n)) s = Some (s\<lparr>words := W\<rparr>)
    \<and> heap_inv (s\<lparr>words := W\<rparr>) (placed xs p m (request n) ys) fl'
    \<and> preserves {} (xs @ Blk p m False # ys) (words s) W"
proof -
  have b: "Blk p m False \<in> set (xs @ Blk p m False # ys)" by simp
  note B = core_block [OF core b]
  show "w32 p \<noteq> 0" using B by (simp add: w32_eq_0)
  show "w32 p + 8 = w32 (p + 8)" by (simp add: w32_add_numeral)
  have "32 \<le> request n" using request_props(1) [of n] by simp
  from place_spec [OF core this request_props(3) m] l
  show "\<exists>W fl'. place (w32 p) (w32 (request n)) s = Some (s\<lparr>words := W\<rparr>)
    \<and> heap_inv (s\<lparr>words := W\<rparr>) (placed xs p m (request n) ys) fl'
    \<and> preserves {} (xs @ Blk p m False # ys) (words s) W" by (auto simp: heap_inv_def)
qed

lemma mm_malloc_fit:
  assumes inv: "heap_inv s bs fl" and n: "0 < n" "n + 39 < 2147483648"
    and fit: "Blk q k False \<in> set bs" "request n \<le> k"
  shows "\<exists>xs p m ys W fl'. bs = xs @ Blk p m False # ys \<and> request n \<le> m
    \<and> mm_malloc (w32 n) s = Some (w32 (p + 8), s\<lparr>words := W\<rparr>)
    \<and> heap_inv (s\<lparr>words := W\<rparr>) (placed xs p m (request n) ys) fl'
    \<and> preserves {} bs (words s) W"
proof -
  have core: "heap_core {} s bs fl" and l: "heap_listp s = w32 (lo s + 136)"
    using inv by (simp_all add: heap_inv_def)
  have "request n \<le> 2147483648" using request_props(2) [of n] n by simp
  from find_fit_core [OF core request_props(3) this] fit obtain p m where
    p: "find_fit (w32 (request n) div 4) s = Some (w32 p)" "Blk p m False \<in> set bs" "request n \<le> m"
    by (metis linorder_not_less)
  from p(2) obtain xs ys where bs: "bs = xs @ Blk p m False # ys" by (meson split_list)
  note H = heap_inv_place [OF core [unfolded bs] l p(3) n(1)]
  obtain W fl' where W: "place (w32 p) (w32 (request n)) s = Some (s\<lparr>words := W\<rparr>)"
    "heap_inv (s\<lparr>words := W\<rparr>) (placed xs p m (request n) ys) fl'" "preserves {} bs (words s) W"
    using H(3) bs by blast
  have "mm_malloc (w32 n) s = Some (w32 (p + 8), s\<lparr>words := W\<rparr>)"
    using mm_malloc_unfold [OF inv n] p(1) W(1) H(1,2) by simp
  with bs p(3) W(2,3) show ?thesis by blast
qed

lemma mm_malloc_grow:
  assumes inv: "heap_inv s bs fl" and n: "0 < n" "n + 39 < 2147483648"
    and none: "\<forall>q k. Blk q k False \<in> set bs \<longrightarrow> k < request n"
    and room: "hi s + max (request n) 4096 \<le> lo s + MAX_HEAP"
    and j: "join_free bs (hi s) (max (request n) 4096) [] = (xs, p, m, ys)"
  shows "\<exists>W fl'. mm_malloc (w32 n) s
      = Some (w32 (p + 8), s\<lparr>mem_brk := w32 (hi s + max (request n) 4096), words := W\<rparr>)
    \<and> heap_inv (s\<lparr>mem_brk := w32 (hi s + max (request n) 4096), words := W\<rparr>)
        (placed xs p m (request n) ys) fl'
    \<and> preserves {} bs (words s) W"
proof -
  let ?e = "max (request n) 4096"
  have core: "heap_core {} s bs fl" and l: "heap_listp s = w32 (lo s + 136)"
    using inv by (simp_all add: heap_inv_def)
  note R = request_props [of n]
  have e: "8 dvd ?e" "?e < 2147483648" "32 \<le> ?e" using R n by (simp_all add: max_def)
  have top: "hi s + ?e < 4294967296"
    using room core unat_lt32 [of "mem_max_addr s"] by (simp add: heap_core_def region_ok_def)
  have "request n \<le> 2147483648" using R(2) n by simp
  from find_fit_core [OF core R(3) this] none have ff: "find_fit (w32 (request n) div 4) s = Some 0"
    by (metis linorder_not_less)
  let ?brk = "w32 (hi s + ?e)"
  obtain V fl1 where V: "extend_heap (w32 ?e div 4) s
      = Some (w32 p, s\<lparr>mem_brk := ?brk, words := V\<rparr>)"
    "heap_core {} (s\<lparr>mem_brk := ?brk, words := V\<rparr>) (xs @ Blk p m False # ys) fl1"
    "preserves {} bs (words s) V"
    using extend_heap_spec [OF core e(3,1,2) top room j] by blast
  let ?s = "s\<lparr>mem_brk := ?brk, words := V\<rparr>"
  have "request n \<le> m" using join_free_props(1) [OF j] by simp
  note H = heap_inv_place [OF V(2) _ this n(1)]
  obtain W fl' where W: "place (w32 p) (w32 (request n)) ?s = Some (?s\<lparr>words := W\<rparr>)"
    "heap_inv (?s\<lparr>words := W\<rparr>) (placed xs p m (request n) ys) fl'"
    "preserves {} (xs @ Blk p m False # ys) V W"
    using H(3) l by auto
  have "mm_malloc (w32 n) s = Some (w32 (p + 8), s\<lparr>mem_brk := ?brk, words := W\<rparr>)"
    using mm_malloc_unfold [OF inv n] ff V(1) W(1) H(1,2) l by simp
  moreover have "preserves {} bs (words s) W"
  proof (rule preserves_trans [OF V(3) W(3)])
    fix q k assume "Blk q k True \<in> set bs" "q \<notin> {}"
    then have "Blk q k True \<in> set (filter used bs)" by simp
    then have "Blk q k True \<in> set (filter used xs)" using join_free_props(2) [OF j] by simp
    then show "Blk q k True \<in> set (xs @ Blk p m False # ys) \<and> q \<notin> {}" by simp
  qed
  ultimately show ?thesis using W(2) by auto
qed

lemma mm_malloc_exhausted:
  assumes inv: "heap_inv s bs fl" and n: "0 < n" "n + 39 < 2147483648"
    and none: "\<forall>q k. Blk q k False \<in> set bs \<longrightarrow> k < request n"
    and room: "lo s + MAX_HEAP < hi s + max (request n) 4096" "hi s + max (request n) 4096 < 4294967296"
  shows "mm_malloc (w32 n) s = Some (0, s\<lparr>errno := ENOMEM\<rparr>)"
proof -
  let ?e = "max (request n) 4096"
  have core: "heap_core {} s bs fl" using inv by (simp add: heap_inv_def)
  note R = request_props [of n]
  have e: "8 dvd ?e" "?e < 2147483648" using R n by (simp_all add: max_def)
  have "request n \<le> 2147483648" using R(2) n by simp
  from find_fit_core [OF core R(3) this] none have ff: "find_fit (w32 (request n) div 4) s = Some 0"
    by (metis linorder_not_less)
  with extend_heap_full [OF core e room(2,1)] show ?thesis
    using mm_malloc_unfold [OF inv n] by simp
qed

section \<open>mm_free\<close>

lemma mm_free_spec:
  assumes inv: "heap_inv s (xs @ Blk p n True # ys) fl"
    and j: "join_free xs p n ys = (xs', p', n', ys')"
  shows "\<exists>W fl'. mm_free (w32 (p + 8)) s = Some (s\<lparr>words := W\<rparr>)
    \<and> heap_inv (s\<lparr>words := W\<rparr>) (xs' @ Blk p' n' False # ys') fl'
    \<and> preserves {p} (xs @ Blk p n True # ys) (words s) W"
proof -
  let ?bs = "xs @ Blk p n True # ys" and ?V = "tag_words p n False (words s)"
  have b: "Blk p n True \<in> set ?bs" by simp
  have core: "heap_core {} s ?bs fl" and l: "heap_listp s = w32 (lo s + 136)"
    using inv by (simp_all add: heap_inv_def)
  then have core1: "heap_core {p} s ?bs fl" using core_open [OF core b] by simp
  note g = core_geom [OF core b]
  note hd = header_reads(1) [OF g core_tags(1) [OF core b]]
  have core2: "heap_core {p} (s\<lparr>words := ?V\<rparr>) ?bs fl" "preserves {p} ?bs (words s) ?V"
    using core_retag [OF core1 b, of False] by simp_all
  obtain W fl' where W: "coalesce (w32 p) (s\<lparr>words := ?V\<rparr>) = Some (w32 p', s\<lparr>words := W\<rparr>)"
    "heap_core {} (s\<lparr>words := W\<rparr>) (xs' @ Blk p' n' False # ys') fl'"
    "preserves {p} ?bs ?V W"
    using coalesce_spec [OF core2(1) _ _ j] tag_cells(3) [OF core b] by auto
  have "w32 (p + 8) - 8 = w32 p" by (simp add: w32_sub_numeral)
  then have "mm_free (w32 (p + 8)) s = Some (s\<lparr>words := W\<rparr>)"
    using hd put_both_tags [OF g, of False] W(1) by (simp add: mm_free_def PACK_tag)
  moreover have "preserves {p} ?bs (words s) W"
    by (rule preserves_trans [OF core2(2) W(3)]) simp
  ultimately show ?thesis using W(2) l by (auto simp: heap_inv_def)
qed

text \<open>A null pointer is not special to \<open>mm_free\<close>: it reads the header at address \<open>-12\<close>.\<close>

lemma mm_free_null:
  "store_hi s < 4294967284 \<Longrightarrow> mm_free 0 s = None"
  by (simp add: mm_free_def GET_SIZE_def GET_def word_ok_def HDRP_def)

end
