(* ===== verification/Byte_Store.thy ===== *)
theory Byte_Store
  imports Memlib
begin

text \<open>
  Byte access as an interface. The storage is kept as words, but \<open>memcpy\<close>, \<open>memset\<close> and the
  checks of the driver work on bytes; what they rely on is one law, that a byte read back
  is the byte last written at this address. \<open>byte_store\<close> states it, derives what the copy
  and fill loops do, and is interpreted on the bytes of the words of \<open>Memlib\<close>.
\<close>

section \<open>The loops on an abstract store\<close>

primrec copy_bytes ::
    "('m \<Rightarrow> nat \<Rightarrow> u8) \<Rightarrow> ('m \<Rightarrow> nat \<Rightarrow> u8 \<Rightarrow> 'm) \<Rightarrow> nat \<Rightarrow> nat \<Rightarrow> nat \<Rightarrow> 'm \<Rightarrow> 'm" where
  "copy_bytes rd wr 0 d p m = m"
| "copy_bytes rd wr (Suc n) d p m = copy_bytes rd wr n (Suc d) (Suc p) (wr m d (rd m p))"

primrec fill_bytes :: "('m \<Rightarrow> nat \<Rightarrow> u8 \<Rightarrow> 'm) \<Rightarrow> nat \<Rightarrow> nat \<Rightarrow> u8 \<Rightarrow> 'm \<Rightarrow> 'm" where
  "fill_bytes wr 0 d v m = m"
| "fill_bytes wr (Suc n) d v m = fill_bytes wr n (Suc d) v (wr m d v)"

locale byte_store =
  fixes rd :: "'m \<Rightarrow> nat \<Rightarrow> u8" and wr :: "'m \<Rightarrow> nat \<Rightarrow> u8 \<Rightarrow> 'm"
  assumes rd_wr: "rd (wr m a v) b = (if b = a then v else rd m b)"
begin

lemma rd_fill: "rd (fill_bytes wr n d v m) b = (if d \<le> b \<and> b < d + n then v else rd m b)"
  by (induction n arbitrary: d m) (auto simp: rd_wr)

lemma rd_copy:
  assumes "p + n \<le> d \<or> d + n \<le> p"
  shows "rd (copy_bytes rd wr n d p m) b =
    (if d \<le> b \<and> b < d + n then rd m (p + (b - d)) else rd m b)"
  using assms
proof (induction n arbitrary: d p m)
  case 0
  then show ?case by auto
next
  case (Suc n)
  have "rd (copy_bytes rd wr n (Suc d) (Suc p) (wr m d (rd m p))) b =
      (if Suc d \<le> b \<and> b < Suc d + n then rd (wr m d (rd m p)) (Suc p + (b - Suc d))
       else rd (wr m d (rd m p)) b)"
    by (rule Suc.IH) (use Suc.prems in auto)
  moreover have "Suc p + (b - Suc d) = p + (b - d)" if "Suc d \<le> b" using that by simp
  ultimately show ?case using Suc.prems by (auto simp: rd_wr)
qed

end

section \<open>The bytes of the storage\<close>

lemma bit_255_iff: "bit (255 :: int) i \<longleftrightarrow> i < 8"
proof -
  have "(255 :: int) = mask 8" by (simp add: mask_eq_exp_minus_1)
  moreover have "bit (mask 8 :: int) i \<longleftrightarrow> i < 8" by (simp add: bit_mask_iff)
  ultimately show ?thesis by simp
qed

lemma byte_set_byte: "byte_of (set_byte W a v) b = (if b = a then v else byte_of W b)"
proof (cases "a - a mod 4 = b - b mod 4")
  case True
  have m: "a mod 4 < 4" "b mod 4 < 4" by simp_all
  have ab: "b = a \<longleftrightarrow> b mod 4 = a mod 4"
    using True mod_less_eq_dividend [of a 4] mod_less_eq_dividend [of b 4] by arith
  show ?thesis
  proof (rule bit_word_eqI)
    fix i assume i: "i < LENGTH(8)"
    show "bit (byte_of (set_byte W a v) b) i = bit (if b = a then v else byte_of W b) i"
    proof (cases "b = a")
      case True
      with i m show ?thesis
        by (auto simp: byte_of_def set_byte_def bit_simps bit_255_iff)
    next
      case False
      with ab have "8 * (b mod 4) + i < 8 * (a mod 4) \<or> 8 * (a mod 4) + 8 \<le> 8 * (b mod 4) + i"
        using i by auto
      with i m True False show ?thesis
        by (auto simp: byte_of_def set_byte_def bit_simps bit_255_iff dest: bit_imp_le_length)
    qed
  qed
next
  case False
  then show ?thesis by (auto simp: byte_of_def set_byte_def)
qed

interpretation word_bytes: byte_store byte_of set_byte
  by unfold_locales (rule byte_set_byte)

text \<open>A byte write changes the word of its address only.\<close>

lemma word_addr_mono: "d - d mod 4 \<le> Suc d - Suc d mod 4" for d :: nat
  by (simp only: minus_mod_eq_mult_div) (simp add: div_le_mono)

lemma set_byte_frame: "a < d - d mod 4 \<or> d < a \<Longrightarrow> set_byte W d v a = W a"
  by (cases "a = d - d mod 4") (simp_all add: set_byte_def)

lemma copy_frame:
  "a < d - d mod 4 \<or> d + n \<le> a \<Longrightarrow> copy_bytes byte_of set_byte n d p W a = W a"
proof (induction n arbitrary: d p W)
  case 0
  then show ?case by simp
next
  case (Suc n)
  then have "a < Suc d - Suc d mod 4 \<or> Suc d + n \<le> a"
    using word_addr_mono [of d] by linarith
  moreover have "a < d - d mod 4 \<or> d < a" using Suc.prems by linarith
  ultimately show ?case by (simp only: Suc.IH set_byte_frame copy_bytes.simps fill_bytes.simps)
qed

lemma fill_frame:
  "a < d - d mod 4 \<or> d + n \<le> a \<Longrightarrow> fill_bytes set_byte n d v W a = W a"
proof (induction n arbitrary: d W)
  case 0
  then show ?case by simp
next
  case (Suc n)
  then have "a < Suc d - Suc d mod 4 \<or> Suc d + n \<le> a"
    using word_addr_mono [of d] by linarith
  moreover have "a < d - d mod 4 \<or> d < a" using Suc.prems by linarith
  ultimately show ?case by (simp only: Suc.IH set_byte_frame copy_bytes.simps fill_bytes.simps)
qed

section \<open>memcpy and memset inside the storage\<close>

definition in_store :: "'a memlib_scheme \<Rightarrow> nat \<Rightarrow> nat \<Rightarrow> bool" where
  "in_store s a n \<longleftrightarrow> store_lo s \<le> a \<and> a + n \<le> store_hi s \<and> store_hi s < 4294967296"

lemma in_store_words [simp]: "in_store (s\<lparr>words := W\<rparr>) a n = in_store s a n"
  by (simp add: in_store_def)

lemma in_store_Suc: "in_store s a (Suc n) \<Longrightarrow> in_store s (Suc a) n"
  by (simp add: in_store_def)

lemma load_byte_in: "in_store s a (Suc n) \<Longrightarrow> load_byte (w32 a) s = Some (byte_of (words s) a)"
  by (simp add: in_store_def load_byte_def byte_ok_def unat_w32)

lemma store_byte_in:
  "in_store s a (Suc n) \<Longrightarrow> store_byte (w32 a) v s = Some (s\<lparr>words := set_byte (words s) a v\<rparr>)"
  by (simp add: in_store_def store_byte_def byte_ok_def unat_w32)

lemma w32_Suc: "w32 a + 1 = w32 (Suc a)"
  by (simp add: w32_def)

lemma memcpy_in:
  "in_store s d n \<Longrightarrow> in_store s p n \<Longrightarrow>
   memcpy (w32 d) (w32 p) n s = Some (s\<lparr>words := copy_bytes byte_of set_byte n d p (words s)\<rparr>)"
  by (induction n arbitrary: d p s)
    (simp_all add: load_byte_in store_byte_in w32_Suc in_store_Suc)

lemma memset_in:
  "in_store s d n \<Longrightarrow>
   memset (w32 d) v n s = Some (s\<lparr>words := fill_bytes set_byte n d v (words s)\<rparr>)"
  by (induction n arbitrary: d s) (simp_all add: store_byte_in w32_Suc in_store_Suc)

end
