(* ===== verification/Allocator.thy ===== *)
theory Allocator
  imports Alloc_Prelude
begin

text \<open>
  The contract of a dynamic memory allocator, as its clients use it: a family of locales over
  the operations, with laws about the map of live payloads, and what a client derives from
  them. The client's view is a map \<open>C\<close> from its live pointers to the bytes it believes are
  stored there; \<open>backs\<close> says that the allocator's state bears this belief out.
\<close>

section \<open>The abstract state of a client\<close>

text \<open>The bytes of the payloads in \<open>m\<close> read the same in both states.\<close>

definition same_bytes :: "('s \<Rightarrow> nat \<Rightarrow> u8) \<Rightarrow> (nat \<rightharpoonup> nat) \<Rightarrow> 's \<Rightarrow> 's \<Rightarrow> bool" where
  "same_bytes get m s t \<longleftrightarrow> (\<forall>a c i. m a = Some c \<longrightarrow> i < c \<longrightarrow> get t (a + i) = get s (a + i))"

definition stored :: "('s \<Rightarrow> nat \<Rightarrow> u8) \<Rightarrow> 's \<Rightarrow> nat \<Rightarrow> nat \<Rightarrow> u8 list" where
  "stored get s a n = map (\<lambda>i. get s (a + i)) [0..<n]"

definition backs ::
    "('s \<Rightarrow> (nat \<rightharpoonup> nat) \<Rightarrow> bool) \<Rightarrow> ('s \<Rightarrow> nat \<Rightarrow> u8) \<Rightarrow> 's \<Rightarrow> (nat \<rightharpoonup> u8 list) \<Rightarrow> bool" where
  "backs rep get s C \<longleftrightarrow> (\<exists>m. rep s m \<and> dom C = dom m
     \<and> (\<forall>a bs c. C a = Some bs \<longrightarrow> m a = Some c \<longrightarrow>
          length bs \<le> c \<and> bs = stored get s a (length bs)))"

lemma stored_cong: "(\<And>i. i < n \<Longrightarrow> get s (a + i) = get t (b + i)) \<Longrightarrow> stored get s a n = stored get t b n"
  by (simp add: stored_def)

lemma length_stored [simp]: "length (stored get s a n) = n"
  by (simp add: stored_def)

lemma nth_stored [simp]: "i < n \<Longrightarrow> stored get s a n ! i = get s (a + i)"
  by (simp add: stored_def)

section \<open>Allocate and release\<close>

locale allocator =
  fixes rep :: "'s \<Rightarrow> (nat \<rightharpoonup> nat) \<Rightarrow> bool" and get :: "'s \<Rightarrow> nat \<Rightarrow> u8"
    and allocate :: "u32 \<Rightarrow> 's \<Rightarrow> (u32 \<times> 's) option"
    and release :: "u32 \<Rightarrow> 's \<Rightarrow> 's option" and limit :: nat
  assumes range: "rep s m \<Longrightarrow> m a = Some c \<Longrightarrow> 0 < a \<and> 8 dvd a \<and> a + c < 4294967296"
    and apart: "rep s m \<Longrightarrow> m a = Some c \<Longrightarrow> m b = Some d \<Longrightarrow> a \<noteq> b \<Longrightarrow>
      a + c \<le> b \<or> b + d \<le> a"
    and allocate_ok: "rep s m \<Longrightarrow> 0 < n \<Longrightarrow> n \<le> limit \<Longrightarrow>
      \<exists>r t. allocate (w32 n) s = Some (r, t) \<and> same_bytes get m s t \<and>
        (r = 0 \<and> rep t m \<or> (\<exists>a c. r = w32 a \<and> n \<le> c \<and> m a = None \<and> rep t (m(a \<mapsto> c))))"
    and release_ok: "rep s m \<Longrightarrow> m a = Some c \<Longrightarrow>
      \<exists>t. release (w32 a) s = Some t \<and> rep t (m(a := None)) \<and> same_bytes get (m(a := None)) s t"
begin

lemma backs_apart:
  assumes "backs rep get s C" "C a = Some bs" "C b = Some cs" "a \<noteq> b"
  shows "a + length bs \<le> b \<or> b + length cs \<le> a"
proof -
  obtain m where m: "rep s m" "dom C = dom m"
    "\<forall>a bs c. C a = Some bs \<longrightarrow> m a = Some c \<longrightarrow> length bs \<le> c \<and> bs = stored get s a (length bs)"
    using assms(1) by (auto simp: backs_def)
  have "a \<in> dom m" "b \<in> dom m" using m(2) assms(2,3) by blast+
  then obtain c d where cd: "m a = Some c" "m b = Some d" by blast
  from apart [OF m(1) cd assms(4)] m(3) assms(2,3) cd show ?thesis by fastforce
qed

lemma backs_bounds:
  assumes "backs rep get s C" "C a = Some bs"
  shows "0 < a" "8 dvd a" "a + length bs < 4294967296" "bs = stored get s a (length bs)"
proof -
  obtain m where m: "rep s m" "dom C = dom m"
    "\<forall>a bs c. C a = Some bs \<longrightarrow> m a = Some c \<longrightarrow> length bs \<le> c \<and> bs = stored get s a (length bs)"
    using assms(1) by (auto simp: backs_def)
  then obtain c where c: "m a = Some c" using assms(2) by blast
  with m(3) assms(2) have "length bs \<le> c" "bs = stored get s a (length bs)" by blast+
  with range [OF m(1) c]
  show "0 < a" "8 dvd a" "a + length bs < 4294967296" "bs = stored get s a (length bs)" by auto
qed

lemma backs_frame:
  assumes C: "\<forall>a bs c. C a = Some bs \<longrightarrow> m a = Some c \<longrightarrow> length bs \<le> c \<and> bs = stored get s a (length bs)"
    and same: "same_bytes get m s t" and a: "C a = Some bs" "m a = Some c"
  shows "length bs \<le> c \<and> bs = stored get t a (length bs)"
proof -
  have le: "length bs \<le> c" and bs: "bs = stored get s a (length bs)" using C a by blast+
  moreover have "stored get s a (length bs) = stored get t a (length bs)"
    using same a(2) le by (intro stored_cong) (auto simp: same_bytes_def)
  ultimately show ?thesis by simp
qed

lemma backs_allocate:
  assumes "backs rep get s C" "0 < n" "n \<le> limit"
  shows "\<exists>r t. allocate (w32 n) s = Some (r, t) \<and>
    (r = 0 \<and> backs rep get t C
     \<or> (\<exists>a. r = w32 a \<and> r \<noteq> 0 \<and> C a = None \<and> backs rep get t (C(a \<mapsto> stored get t a n))))"
proof -
  obtain m where m: "rep s m" "dom C = dom m"
    "\<forall>a bs c. C a = Some bs \<longrightarrow> m a = Some c \<longrightarrow> length bs \<le> c \<and> bs = stored get s a (length bs)"
    using assms(1) by (auto simp: backs_def)
  obtain r t where t: "allocate (w32 n) s = Some (r, t)" "same_bytes get m s t"
    "r = 0 \<and> rep t m \<or> (\<exists>a c. r = w32 a \<and> n \<le> c \<and> m a = None \<and> rep t (m(a \<mapsto> c)))"
    using allocate_ok [OF m(1) assms(2,3)] by blast
  note frame = backs_frame [OF m(3) t(2)]
  from t(3) show ?thesis
  proof
    assume r: "r = 0 \<and> rep t m"
    then have "backs rep get t C" unfolding backs_def using m(2) frame by blast
    with t(1) r show ?thesis by blast
  next
    assume "\<exists>a c. r = w32 a \<and> n \<le> c \<and> m a = None \<and> rep t (m(a \<mapsto> c))"
    then obtain a c where a: "r = w32 a" "n \<le> c" "m a = None" "rep t (m(a \<mapsto> c))" by blast
    have "dom (C(a \<mapsto> stored get t a n)) = dom (m(a \<mapsto> c))" using m(2) by simp
    moreover have "length bs \<le> d \<and> bs = stored get t b (length bs)"
      if "(C(a \<mapsto> stored get t a n)) b = Some bs" "(m(a \<mapsto> c)) b = Some d" for b bs d
      using that frame a(2) by (auto split: if_splits)
    ultimately have "backs rep get t (C(a \<mapsto> stored get t a n))" unfolding backs_def using a(4) by blast
    moreover have "C a = None" using m(2) a(3) by blast
    moreover have "r \<noteq> 0" using range [OF a(4), of a c] a(1) by (simp add: w32_eq_0)
    ultimately show ?thesis using t(1) a(1) by blast
  qed
qed

lemma backs_release:
  assumes "backs rep get s C" "C a = Some bs"
  shows "\<exists>t. release (w32 a) s = Some t \<and> backs rep get t (C(a := None))"
proof -
  obtain m where m: "rep s m" "dom C = dom m"
    "\<forall>a bs c. C a = Some bs \<longrightarrow> m a = Some c \<longrightarrow> length bs \<le> c \<and> bs = stored get s a (length bs)"
    using assms(1) by (auto simp: backs_def)
  then obtain c where "m a = Some c" using assms(2) by blast
  from release_ok [OF m(1) this] obtain t where t: "release (w32 a) s = Some t"
    "rep t (m(a := None))" "same_bytes get (m(a := None)) s t" by blast
  have "length bs \<le> d \<and> bs = stored get t b (length bs)"
    if "(C(a := None)) b = Some bs" "(m(a := None)) b = Some d" for b bs d
    using that backs_frame [of "C(a := None)" "m(a := None)" s t, OF _ t(3) that] m(3)
    by (auto split: if_splits)
  moreover have "dom (C(a := None)) = dom (m(a := None))" using m(2) by simp
  ultimately have "backs rep get t (C(a := None))" unfolding backs_def using t(2) by blast
  with t(1) show ?thesis by blast
qed

end

section \<open>Writing to a payload\<close>

locale writable_allocator = allocator +
  fixes put :: "u32 \<Rightarrow> u8 \<Rightarrow> 's \<Rightarrow> 's option"
  assumes put_ok: "rep s m \<Longrightarrow> m a = Some c \<Longrightarrow> i < c \<Longrightarrow>
    \<exists>t. put (w32 (a + i)) v s = Some t \<and> rep t m
      \<and> (\<forall>b. get t b = (if b = a + i then v else get s b))"
begin

lemma backs_put:
  assumes "backs rep get s C" "C a = Some bs" "i < length bs"
  shows "\<exists>t. put (w32 (a + i)) v s = Some t \<and> backs rep get t (C(a \<mapsto> bs[i := v]))"
proof -
  obtain m where m: "rep s m" "dom C = dom m"
    "\<forall>a bs c. C a = Some bs \<longrightarrow> m a = Some c \<longrightarrow> length bs \<le> c \<and> bs = stored get s a (length bs)"
    using assms(1) by (auto simp: backs_def)
  then obtain c where c: "m a = Some c" using assms(2) by blast
  have bs: "length bs \<le> c" "bs = stored get s a (length bs)" using m(3) assms(2) c by blast+
  with assms(3) have "i < c" by simp
  from put_ok [OF m(1) c this] obtain t where t: "put (w32 (a + i)) v s = Some t" "rep t m"
    "\<forall>b. get t b = (if b = a + i then v else get s b)" by blast
  have new: "bs[i := v] = stored get t a (length bs)"
  proof (rule nth_equalityI)
    fix j assume "j < length (bs[i := v])"
    then have j: "j < length bs" by simp
    then have "bs ! j = get s (a + j)" using bs(2) nth_stored by metis
    with j t(3) show "bs[i := v] ! j = stored get t a (length bs) ! j"
      by (simp add: nth_list_update)
  qed simp
  have "length bs' \<le> d \<and> bs' = stored get t b (length bs')"
    if b: "(C(a \<mapsto> bs[i := v])) b = Some bs'" "m b = Some d" for b bs' d
  proof (cases "b = a")
    case True
    with b c new bs(1) show ?thesis by auto
  next
    case False
    then have C: "C b = Some bs'" using b(1) by simp
    with m(3) b(2) have le: "length bs' \<le> d" and bs': "bs' = stored get s b (length bs')" by blast+
    have "b + j \<noteq> a + i" if "j < length bs'" for j
      using backs_apart [OF assms(1) C assms(2) False] that assms(3) by auto
    then have "stored get s b (length bs') = stored get t b (length bs')"
      using t(3) by (intro stored_cong) simp
    with le bs' show ?thesis by simp
  qed
  moreover have "dom (C(a \<mapsto> bs[i := v])) = dom m" using m(2) assms(2) by auto
  ultimately have "backs rep get t (C(a \<mapsto> bs[i := v]))" unfolding backs_def using t(2) by blast
  with t(1) show ?thesis by blast
qed

end

section \<open>Resizing\<close>

text \<open>
  \<open>resize\<close> need not return (it may fault when it cannot allocate); when it does, the payload
  has moved with its contents.
\<close>

locale resizable_allocator = allocator +
  fixes resize :: "u32 \<Rightarrow> u32 \<Rightarrow> 's \<Rightarrow> (u32 \<times> 's) option"
  assumes resize_ok: "rep s m \<Longrightarrow> m a = Some c \<Longrightarrow> 0 < n \<Longrightarrow> n \<le> limit \<Longrightarrow>
    resize (w32 a) (w32 n) s = Some (r, t) \<Longrightarrow>
    \<exists>b d. r = w32 b \<and> n \<le> d \<and> m b = None \<and> rep t ((m(a := None))(b \<mapsto> d))
      \<and> (\<forall>i < min n c. get t (b + i) = get s (a + i)) \<and> same_bytes get (m(a := None)) s t"
begin

lemma backs_resize:
  assumes "backs rep get s C" "C a = Some bs" "0 < n" "n \<le> limit"
    and r: "resize (w32 a) (w32 n) s = Some (r, t)"
  shows "\<exists>b. r = w32 b \<and> r \<noteq> 0 \<and> C b = None \<and> b < 4294967296
    \<and> backs rep get t ((C(a := None))(b \<mapsto> stored get t b n))
    \<and> take (length bs) (stored get t b n) = take n bs"
proof -
  obtain m where m: "rep s m" "dom C = dom m"
    "\<forall>a bs c. C a = Some bs \<longrightarrow> m a = Some c \<longrightarrow> length bs \<le> c \<and> bs = stored get s a (length bs)"
    using assms(1) by (auto simp: backs_def)
  then obtain c where c: "m a = Some c" using assms(2) by blast
  have bs: "length bs \<le> c" "bs = stored get s a (length bs)" using m(3) assms(2) c by blast+
  from resize_ok [OF m(1) c assms(3,4) r] obtain b d where b: "r = w32 b" "n \<le> d" "m b = None"
    "rep t ((m(a := None))(b \<mapsto> d))" "\<forall>i < min n c. get t (b + i) = get s (a + i)"
    "same_bytes get (m(a := None)) s t" by blast
  have Cb: "C b = None" using m(2) b(3) by blast
  have "length bs' \<le> e \<and> bs' = stored get t x (length bs')"
    if x: "((C(a := None))(b \<mapsto> stored get t b n)) x = Some bs'" "((m(a := None))(b \<mapsto> d)) x = Some e"
    for x bs' e
  proof (cases "x = b")
    case True
    with x b(2) show ?thesis by auto
  next
    case False
    with x have "(C(a := None)) x = Some bs'" "(m(a := None)) x = Some e" by simp_all
    then show ?thesis
      using backs_frame [of "C(a := None)" "m(a := None)" s t x bs' e, OF _ b(6)] m(3)
      by (auto split: if_splits)
  qed
  moreover have "dom ((C(a := None))(b \<mapsto> stored get t b n)) = dom ((m(a := None))(b \<mapsto> d))"
    using m(2) by simp
  ultimately have "backs rep get t ((C(a := None))(b \<mapsto> stored get t b n))"
    unfolding backs_def using b(4) by blast
  moreover have "take (length bs) (stored get t b n) = take n bs"
  proof (rule nth_equalityI)
    fix i assume "i < length (take (length bs) (stored get t b n))"
    then have i: "i < length bs" "i < n" by simp_all
    then have "bs ! i = get s (a + i)" using bs(2) nth_stored by metis
    with i b(5) bs(1) show "take (length bs) (stored get t b n) ! i = take n bs ! i" by simp
  qed simp
  moreover have "0 < b" "b < 4294967296" using range [OF b(4), of b d] by simp_all
  ultimately show ?thesis using b(1) Cb by (auto simp: w32_eq_0)
qed

end

end
