(* ===== verification/Payloads.thy ===== *)
theory Payloads
  imports Malloc Byte_Store Allocator
begin

text \<open>
  What a client of \<^verbatim>\<open>mm.c\<close> sees: the payloads handed out and not yet freed, their disjointness,
  and their bytes. The block list of the heap is abstracted to a partial map from payload
  pointers to capacities, and the calls are specified against this map.
\<close>

section \<open>The live payloads\<close>

definition payloads :: "block list \<Rightarrow> nat \<rightharpoonup> nat" where
  "payloads bs = map_of (map (\<lambda>b. (bptr b + 8, bsize b - 16)) (filter used bs))"

text \<open>\<open>mm_rep N s m\<close>: the heap is sound, \<open>m\<close> is its map of live payloads, and requests of up
  to \<open>N\<close> bytes neither wrap the size computations nor the break pointer.\<close>

definition mm_rep :: "nat \<Rightarrow> 'a mm_state_scheme \<Rightarrow> (nat \<rightharpoonup> nat) \<Rightarrow> bool" where
  "mm_rep N s m \<longleftrightarrow> (\<exists>bs fl. heap_inv s bs fl \<and> m = payloads bs)
     \<and> N + 39 < 2147483648 \<and> lo s + MAX_HEAP + max (N + 39) 4096 < 4294967296"

definition peek :: "'a mm_state_scheme \<Rightarrow> nat \<Rightarrow> u8" where
  "peek s a = byte_of (words s) a"

lemma used_block: "used b \<Longrightarrow> Blk (bptr b) (bsize b) True = b"
  by (cases b) simp

lemma payloads_iff:
  assumes "chain e bs h"
  shows "payloads bs a = Some c \<longleftrightarrow> (\<exists>p n. Blk p n True \<in> set bs \<and> a = p + 8 \<and> c = n - 16)"
proof -
  have "distinct (map bptr (filter used bs))"
    using chain_distinct [OF assms] by (rule distinct_map_filter)
  then have "distinct (map fst (map (\<lambda>b. (bptr b + 8, bsize b - 16)) (filter used bs)))"
    by (simp add: distinct_map inj_on_def)
  then have "payloads bs a = Some c \<longleftrightarrow>
      (a, c) \<in> set (map (\<lambda>b. (bptr b + 8, bsize b - 16)) (filter used bs))"
    unfolding payloads_def by (rule map_of_eq_Some_iff)
  also have "\<dots> \<longleftrightarrow> (\<exists>b \<in> set bs. used b \<and> a = bptr b + 8 \<and> c = bsize b - 16)"
    by auto
  also have "\<dots> \<longleftrightarrow> (\<exists>p n. Blk p n True \<in> set bs \<and> a = p + 8 \<and> c = n - 16)"
  proof
    assume "\<exists>b \<in> set bs. used b \<and> a = bptr b + 8 \<and> c = bsize b - 16"
    then obtain b where b: "b \<in> set bs" "used b" "a = bptr b + 8" "c = bsize b - 16" by blast
    then have "Blk (bptr b) (bsize b) True \<in> set bs" by (simp add: used_block)
    with b show "\<exists>p n. Blk p n True \<in> set bs \<and> a = p + 8 \<and> c = n - 16" by blast
  qed force
  finally show ?thesis .
qed

lemma payloads_None:
  assumes "chain e bs h" "\<And>n. Blk p n True \<notin> set bs"
  shows "payloads bs (p + 8) = None"
  using payloads_iff [OF assms(1), of "p + 8"] assms(2) by (cases "payloads bs (p + 8)") auto

lemma payloads_insert:
  assumes c: "chain e bs' h" and f: "filter used bs' = us @ Blk p n True # vs"
    "filter used bs = us @ vs"
  shows "payloads bs' = (payloads bs)(p + 8 \<mapsto> n - 16)" "payloads bs (p + 8) = None"
proof -
  have "distinct (map bptr (filter used bs'))"
    using chain_distinct [OF c] by (rule distinct_map_filter)
  then have "p \<notin> bptr ` set us" "p \<notin> bptr ` set vs" using f by (auto simp: image_iff)
  then have "map_of (map (\<lambda>b. (bptr b + 8, bsize b - 16)) us) (p + 8) = None"
    "map_of (map (\<lambda>b. (bptr b + 8, bsize b - 16)) vs) (p + 8) = None"
    by (auto simp: map_of_eq_None_iff)
  then show "payloads bs' = (payloads bs)(p + 8 \<mapsto> n - 16)" "payloads bs (p + 8) = None"
    unfolding payloads_def f by (auto simp: map_add_def fun_eq_iff split: option.splits)
qed

lemma payloads_delete:
  assumes c: "chain e bs h" and f: "filter used bs = us @ Blk p n True # vs"
    "filter used bs' = us @ vs"
  shows "payloads bs' = (payloads bs)(p + 8 := None)"
proof -
  have "distinct (map bptr (filter used bs))"
    using chain_distinct [OF c] by (rule distinct_map_filter)
  then have "p \<notin> bptr ` set us" "p \<notin> bptr ` set vs" using f by (auto simp: image_iff)
  then have "map_of (map (\<lambda>b. (bptr b + 8, bsize b - 16)) us) (p + 8) = None"
    "map_of (map (\<lambda>b. (bptr b + 8, bsize b - 16)) vs) (p + 8) = None"
    by (auto simp: map_of_eq_None_iff)
  then show ?thesis
    unfolding payloads_def f by (auto simp: map_add_def fun_eq_iff split: option.splits)
qed

section \<open>Payloads are aligned, inside the heap and apart\<close>

lemma payload_range:
  assumes "heap_inv s bs fl" "payloads bs a = Some c"
  shows "8 dvd a" "lo s + 152 \<le> a" "a + c + 8 \<le> hi s" "16 \<le> c" "8 dvd c"
proof -
  have core: "heap_core {} s bs fl" using assms(1) by (simp add: heap_inv_def)
  obtain p n where b: "Blk p n True \<in> set bs" "a = p + 8" "c = n - 16"
    using payloads_iff [OF heap_core_chain [OF core]] assms(2) by auto
  note B = core_block [OF core b(1)]
  show "8 dvd a" "lo s + 152 \<le> a" "a + c + 8 \<le> hi s" "16 \<le> c" "8 dvd c"
    using b B by (auto simp: dvd_diff_nat)
qed

lemma payload_apart:
  assumes "heap_inv s bs fl" "payloads bs a = Some c" "payloads bs b = Some d" "a \<noteq> b"
  shows "a + c + 16 \<le> b \<or> b + d + 16 \<le> a"
proof -
  have core: "heap_core {} s bs fl" using assms(1) by (simp add: heap_inv_def)
  obtain p n q m where b: "Blk p n True \<in> set bs" "a = p + 8" "c = n - 16"
    "Blk q m True \<in> set bs" "b = q + 8" "d = m - 16"
    using payloads_iff [OF heap_core_chain [OF core]] assms(2,3) by auto
  from chain_apart [OF heap_core_chain [OF core] b(1,4)] core_block(3) [OF core b(1)]
    core_block(3) [OF core b(4)] b assms(4)
  show ?thesis by auto
qed

text \<open>The bytes of a payload lie in words of its block that \<open>preserves\<close> speaks of.\<close>

lemma preserves_peek:
  assumes c: "chain e bs h" and a: "payloads bs a = Some c" "i < c" "\<forall>p \<in> X. a \<noteq> p + 8"
    and pr: "preserves X bs V W"
  shows "byte_of W (a + i) = byte_of V (a + i)"
proof -
  obtain p n where b: "Blk p n True \<in> set bs" "a = p + 8" "c = n - 16"
    using payloads_iff [OF c] a(1) by auto
  moreover have "p \<notin> X" using a(3) b(2) by blast
  moreover have "p - 4 \<le> a + i - (a + i) mod 4" "a + i - (a + i) mod 4 < p + n - 4"
    using a(2) b mod_less_divisor [of 4 "a + i"] by linarith+
  ultimately show ?thesis using pr unfolding preserves_def byte_of_def by metis
qed


section \<open>The calls against the map of live payloads\<close>

lemma heap_inv_core: "heap_inv s bs fl \<Longrightarrow> heap_core {} s bs fl"
  by (simp add: heap_inv_def)

lemmas heap_inv_chain = heap_core_chain [OF heap_inv_core]

text \<open>
  What a call leaves alone: the storage stays where it is, the fields a caller adds to the
  state keep their values, and the heap grows by at most \<open>g\<close> bytes.
\<close>

definition evolves :: "nat \<Rightarrow> 'a mm_state_scheme \<Rightarrow> 'a mm_state_scheme \<Rightarrow> bool" where
  "evolves g s t \<longleftrightarrow> mem_start_brk t = mem_start_brk s \<and> hi t \<le> hi s + g
     \<and> mm_state.more t = mm_state.more s \<and> hi s \<le> hi t"

lemma evolvesD:
  assumes "evolves g s t"
  shows "mem_start_brk t = mem_start_brk s" "hi t \<le> hi s + g" "mm_state.more t = mm_state.more s"
    "hi s \<le> hi t"
  using assms by (simp_all add: evolves_def)

lemma evolves_words [simp]: "evolves g s (s\<lparr>words := W\<rparr>)"
  by (simp add: evolves_def)

lemma evolves_trans: "evolves g s t \<Longrightarrow> evolves h t u \<Longrightarrow> evolves (g + h) s u"
  by (simp add: evolves_def)

lemma mm_repI:
  assumes "mm_rep N s m" "heap_inv t bs fl" "m' = payloads bs" "mem_start_brk t = mem_start_brk s"
  shows "mm_rep N t m'"
  using assms unfolding mm_rep_def by auto

lemma heap_inv_errno [simp]: "heap_inv (s\<lparr>errno := e\<rparr>) bs fl = heap_inv s bs fl"
  by (simp add: heap_inv_def heap_core_def region_ok_def)

lemma placed_payload:
  assumes inv: "heap_inv t (placed xs p k r ys) fl" and r: "n + 32 \<le> r" "r \<le> k"
    and f: "filter used bs = filter used xs @ filter used ys"
  shows "\<exists>c. n + 16 \<le> c \<and> c < r + 16 \<and> payloads (placed xs p k r ys) = (payloads bs)(p + 8 \<mapsto> c)
    \<and> payloads bs (p + 8) = None \<and> p + 8 < 4294967296"
proof -
  let ?k = "if 32 \<le> k - r then r else k"
  have f': "filter used (placed xs p k r ys) = filter used xs @ Blk p ?k True # filter used ys"
    by (simp add: placed_def)
  then have "Blk p ?k True \<in> set (filter used (placed xs p k r ys))" by simp
  then have "Blk p ?k True \<in> set (placed xs p k r ys)" by simp
  note B = core_block [OF heap_inv_core [OF inv] this]
  show ?thesis
    by (rule exI [of _ "?k - 16"])
      (use payloads_insert [OF heap_inv_chain [OF inv] f' f] r B(3,8) in \<open>simp split: if_splits; linarith\<close>)
qed

text \<open>A block placed for a request of \<open>n\<close> bytes is a new payload, and the others are as they were.\<close>

lemma placed_rep:
  assumes rep: "mm_rep N s m" and inv: "heap_inv s bs fl" and m: "m = payloads bs"
    and t: "heap_inv t (placed xs p k (request n) ys) fl'" "request n \<le> k"
      "filter used bs = filter used xs @ filter used ys" "mem_start_brk t = mem_start_brk s"
      "preserves {} bs (words s) (words t)"
  shows "\<exists>c. n \<le> c \<and> m (p + 8) = None \<and> p + 8 < 4294967296
      \<and> mm_rep N t (m(p + 8 \<mapsto> c)) \<and> same_bytes peek m s t"
proof -
  from placed_payload [OF t(1) request_props(1) t(2,3)] obtain c where c: "n + 16 \<le> c"
    "payloads (placed xs p k (request n) ys) = m(p + 8 \<mapsto> c)" "m (p + 8) = None" "p + 8 < 4294967296"
    using m by auto
  moreover have "mm_rep N t (m(p + 8 \<mapsto> c))"
    using mm_repI [OF rep t(1) c(2) [symmetric] t(4)] .
  moreover have "same_bytes peek m s t"
    using preserves_peek [OF heap_inv_chain [OF inv] _ _ _ t(5)] m
    by (simp add: same_bytes_def peek_def)
  ultimately show ?thesis by (meson add_leD1)
qed

text \<open>
  The outcomes of \<open>mm_malloc\<close> on a sound heap: it fails when no free block is large enough and
  the storage cannot be extended, and otherwise places a block, found or made by extension.
\<close>

definition exhausted :: "nat \<Rightarrow> 'a memlib_scheme \<Rightarrow> block list \<Rightarrow> bool" where
  "exhausted n s bs \<longleftrightarrow> (\<forall>p k. Blk p k False \<in> set bs \<longrightarrow> k < request n)
     \<and> lo s + MAX_HEAP < hi s + max (request n) 4096"

lemma mm_malloc_placed:
  assumes inv: "heap_inv s bs fl" and n: "0 < n" "n + 39 < 2147483648" and full: "\<not> exhausted n s bs"
    and top: "hi s + max (request n) 4096 < 4294967296"
  shows "\<exists>t xs p k ys fl'. mm_malloc (w32 n) s = Some (w32 (p + 8), t)
    \<and> heap_inv t (placed xs p k (request n) ys) fl' \<and> request n \<le> k
    \<and> filter used bs = filter used xs @ filter used ys \<and> preserves {} bs (words s) (words t)
    \<and> evolves (max (request n) 4096) s t"
proof (cases "\<exists>q k. Blk q k False \<in> set bs \<and> request n \<le> k")
  case True
  then obtain q k where "Blk q k False \<in> set bs" "request n \<le> k" by blast
  from mm_malloc_fit [OF inv n this] obtain xs p m ys W fl' where
    *: "bs = xs @ Blk p m False # ys" "request n \<le> m"
      "mm_malloc (w32 n) s = Some (w32 (p + 8), s\<lparr>words := W\<rparr>)"
      "heap_inv (s\<lparr>words := W\<rparr>) (placed xs p m (request n) ys) fl'" "preserves {} bs (words s) W"
    by blast
  have "filter used bs = filter used xs @ filter used ys" "preserves {} bs (words s) (words (s\<lparr>words := W\<rparr>))"
    using *(1,5) by simp_all
  with *(2-4) evolves_words show ?thesis by blast
next
  case False
  then have no: "\<forall>q k. Blk q k False \<in> set bs \<longrightarrow> k < request n" by (meson linorder_not_le)
  with full have room: "hi s + max (request n) 4096 \<le> lo s + MAX_HEAP"
    by (simp add: exhausted_def)
  obtain xs p k ys where j: "join_free bs (hi s) (max (request n) 4096) [] = (xs, p, k, ys)"
    by (metis prod_cases4)
  note J = join_free_props [OF j]
  let ?t = "\<lambda>W. s\<lparr>mem_brk := w32 (hi s + max (request n) 4096), words := W\<rparr>"
  from mm_malloc_grow [OF inv n no room j] obtain W fl' where
    *: "mm_malloc (w32 n) s = Some (w32 (p + 8), ?t W)"
      "heap_inv (?t W) (placed xs p k (request n) ys) fl'" "preserves {} bs (words s) W"
    by blast
  have "request n \<le> k" "filter used bs = filter used xs @ filter used ys"
    "preserves {} bs (words s) (words (?t W))" "evolves (max (request n) 4096) s (?t W)"
    using J *(3) top by (simp_all add: evolves_def unat_w32)
  with *(1,2) show ?thesis by blast
qed

lemma mm_malloc_null:
  assumes "heap_inv s bs fl" "0 < n" "n + 39 < 2147483648" "exhausted n s bs"
    "hi s + max (request n) 4096 < 4294967296"
  shows "mm_malloc (w32 n) s = Some (0, s\<lparr>errno := ENOMEM\<rparr>)"
  using mm_malloc_exhausted [OF assms(1-3) _ _ assms(5)] assms(4) by (simp add: exhausted_def)

lemma mm_malloc_rep:
  assumes rep: "mm_rep N s m" and n: "0 < n" "n \<le> N"
  shows "mm_malloc (w32 n) s = Some (0, s\<lparr>errno := ENOMEM\<rparr>)
      \<and> lo s + MAX_HEAP < hi s + max (n + 39) 4096 \<or>
    (\<exists>a c t. mm_malloc (w32 n) s = Some (w32 a, t) \<and> 0 < a \<and> a < 4294967296
      \<and> n \<le> c \<and> m a = None \<and> mm_rep N t (m(a \<mapsto> c)) \<and> same_bytes peek m s t
      \<and> evolves (max (n + 39) 4096) s t)"
proof -
  obtain bs fl where inv: "heap_inv s bs fl" and m: "m = payloads bs"
    using rep by (auto simp: mm_rep_def)
  have N: "n + 39 < 2147483648" "lo s + MAX_HEAP + max (n + 39) 4096 < 4294967296"
    using rep n by (auto simp: mm_rep_def)
  note R = request_props [of n]
  have top: "hi s + max (request n) 4096 < 4294967296"
    using inv N(2) R(2) by (auto simp: heap_inv_def heap_core_def region_ok_def)
  show ?thesis
  proof (cases "exhausted n s bs")
    case True
    then have "lo s + MAX_HEAP < hi s + max (request n) 4096" by (simp add: exhausted_def)
    then have "lo s + MAX_HEAP < hi s + max (n + 39) 4096" using R(2) by simp
    with mm_malloc_null [OF inv n(1) N(1) True top] show ?thesis by blast
  next
    case False
    from mm_malloc_placed [OF inv n(1) N(1) False top] obtain t xs p k ys fl' where
      *: "mm_malloc (w32 n) s = Some (w32 (p + 8), t)" "heap_inv t (placed xs p k (request n) ys) fl'"
        "request n \<le> k" "filter used bs = filter used xs @ filter used ys"
        "preserves {} bs (words s) (words t)" "evolves (max (request n) 4096) s t" by blast
    from placed_rep [OF rep inv m *(2-4) evolvesD(1) [OF *(6)] *(5)] obtain c where
      "n \<le> c" "m (p + 8) = None" "p + 8 < 4294967296" "mm_rep N t (m(p + 8 \<mapsto> c))" "same_bytes peek m s t"
      by blast
    moreover have "evolves (max (n + 39) 4096) s t"
      using *(6) R(2) by (auto simp: evolves_def)
    ultimately show ?thesis using *(1)
      by (intro disjI2 exI [of _ "p + 8"] exI [of _ c] exI [of _ t]) simp
  qed
qed

lemma mm_free_rep:
  assumes rep: "mm_rep N s m" and a: "m a = Some c"
  shows "\<exists>t. mm_free (w32 a) s = Some t \<and> mm_rep N t (m(a := None))
    \<and> same_bytes peek (m(a := None)) s t \<and> evolves 0 s t"
proof -
  obtain bs fl where inv: "heap_inv s bs fl" and m: "m = payloads bs"
    using rep by (auto simp: mm_rep_def)
  obtain p n where b: "Blk p n True \<in> set bs" "a = p + 8"
    using payloads_iff [OF heap_inv_chain [OF inv]] a m by auto
  then obtain xs ys where bs: "bs = xs @ Blk p n True # ys" by (meson split_list)
  obtain xs' p' n' ys' where j: "join_free xs p n ys = (xs', p', n', ys')" by (metis prod_cases4)
  obtain W fl' where W: "mm_free (w32 (p + 8)) s = Some (s\<lparr>words := W\<rparr>)"
    "heap_inv (s\<lparr>words := W\<rparr>) (xs' @ Blk p' n' False # ys') fl'" "preserves {p} bs (words s) W"
    using mm_free_spec [OF inv [unfolded bs] j] bs by blast
  have m': "payloads (xs' @ Blk p' n' False # ys') = m(a := None)"
    unfolding m b(2)
    by (rule payloads_delete [OF heap_inv_chain [OF inv], of "filter used xs" p n "filter used ys"])
      (simp_all add: bs join_free_props [OF j])
  have "same_bytes peek (m(a := None)) s (s\<lparr>words := W\<rparr>)"
    using preserves_peek [OF heap_inv_chain [OF inv] _ _ _ W(3)] m b(2)
    by (simp add: same_bytes_def peek_def)
  with W(1) mm_repI [OF rep W(2) m' [symmetric]] b(2) show ?thesis by auto
qed


section \<open>mm_realloc\<close>

text \<open>Writing words inside the payloads is invisible to the allocator.\<close>

lemma heap_inv_write:
  assumes inv: "heap_inv s bs fl" and a: "payloads bs a = Some c"
    and W: "\<forall>x. W x \<noteq> words s x \<longrightarrow> a \<le> x \<and> x < a + c"
  shows "heap_inv (s\<lparr>words := W\<rparr>) bs fl"
proof -
  obtain p n where b: "Blk p n True \<in> set bs" "a = p + 8" "c = n - 16"
    using payloads_iff [OF heap_inv_chain [OF inv]] a by auto
  note B = core_block(3) [OF heap_inv_core [OF inv] b(1)]
  have "\<forall>x. W x \<noteq> words s x \<longrightarrow> p \<le> x \<and> x < p + n - 8"
  proof (intro allI impI)
    fix x assume "W x \<noteq> words s x"
    with W have "a \<le> x \<and> x < a + c" by blast
    with b B show "p \<le> x \<and> x < p + n - 8" by simp
  qed
  from core_write_body [OF heap_inv_core [OF inv] b(1) this] inv
  show ?thesis by (simp add: heap_inv_def)
qed

lemma payload_store:
  assumes "heap_inv s bs fl" "payloads bs a = Some c" "n \<le> c"
  shows "in_store s a n"
  using payload_range [OF assms(1,2)] assms(1,3) unat_lt32 [of "mem_max_addr s"]
  by (simp add: in_store_def heap_inv_def heap_core_def region_ok_def)

lemma payload_header:
  assumes inv: "heap_inv s bs fl" and a: "payloads bs a = Some c"
  shows "GET_SIZE (HDRP (w32 a - DSIZE)) s = Some (w32 (c + 16))" "c + 16 < 4294967296"
proof -
  obtain p n where b: "Blk p n True \<in> set bs" "a = p + 8" "c = n - 16"
    using payloads_iff [OF heap_inv_chain [OF inv]] a by auto
  note core = heap_inv_core [OF inv]
  note B = core_block [OF core b(1)]
  have "w32 (p + 8) - 8 = w32 p" by (simp add: w32_sub_numeral)
  with b B header_reads(1) [OF core_geom [OF core b(1)] core_tags(1) [OF core b(1)]]
  show "GET_SIZE (HDRP (w32 a - DSIZE)) s = Some (w32 (c + 16))" "c + 16 < 4294967296" by simp_all
qed

lemma mm_realloc_copy:
  assumes inv: "heap_inv t bs fl" and a: "payloads bs a = Some c"
    and b: "payloads bs b = Some d" "a \<noteq> b" and n: "n \<le> d"
    and readable: "a + min n (c + 16) \<le> lo t + MAX_HEAP"
  shows "\<exists>W. memcpy (w32 b) (w32 a) (min n (c + 16)) t = Some (t\<lparr>words := W\<rparr>)
    \<and> heap_inv (t\<lparr>words := W\<rparr>) bs fl
    \<and> (\<forall>i < min n c. byte_of W (b + i) = byte_of (words t) (a + i))
    \<and> (\<forall>x. x < b \<or> b + d \<le> x \<longrightarrow> byte_of W x = byte_of (words t) x)"
proof -
  let ?k = "min n (c + 16)"
  let ?W = "copy_bytes byte_of set_byte ?k b a (words t)"
  have bk: "?k \<le> d" using n by simp
  have "in_store t a ?k"
    using payload_store [OF inv a, of c] readable inv
    by (simp add: in_store_def heap_inv_def heap_core_def region_ok_def)
  with payload_store [OF inv b(1) bk]
  have m: "memcpy (w32 b) (w32 a) ?k t = Some (t\<lparr>words := ?W\<rparr>)" by (rule memcpy_in)
  have "b mod 4 = 0" using payload_range(1) [OF inv b(1)] by presburger
  then have frame: "\<forall>x. ?W x \<noteq> words t x \<longrightarrow> b \<le> x \<and> x < b + d"
    using copy_frame [of _ b ?k a "words t"] bk by (metis diff_zero linorder_not_le nat_add_left_cancel_le order_trans)
  have apart: "a + ?k \<le> b \<or> b + ?k \<le> a"
    using payload_apart [OF inv a b] bk by auto
  note rd = word_bytes.rd_copy [OF apart]
  show ?thesis
    using m heap_inv_write [OF inv b(1) frame] bk by (intro exI [of _ ?W]) (auto simp: rd)
qed

text \<open>
  The copy and the release together change no byte of another payload: the copy writes into \<open>b\<close>
  only, and the release leaves what is live alone.
\<close>

lemma same_bytes_moved:
  assumes inv: "heap_inv t bs fl" and m: "payloads bs = m(b \<mapsto> d)" "m b = None"
    and W: "\<forall>x. x < b \<or> b + d \<le> x \<longrightarrow> byte_of W x = byte_of (words t) x"
    and s: "same_bytes peek m s t" and u: "same_bytes peek ((m(b \<mapsto> d))(a := None)) (t\<lparr>words := W\<rparr>) u"
  shows "same_bytes peek (m(a := None)) s u"
  unfolding same_bytes_def
proof (intro allI impI)
  fix x e i assume x: "(m(a := None)) x = Some e" "i < e"
  then have x': "x \<noteq> a" "m x = Some e" "x \<noteq> b" using m(2) by (auto split: if_splits)
  then have "payloads bs x = Some e" "payloads bs b = Some d" using m(1) by simp_all
  from payload_apart [OF inv this x'(3)] W x(2)
  have "byte_of W (x + i) = byte_of (words t) (x + i)" by auto
  moreover have "peek t (x + i) = peek s (x + i)" using s x(2) x'(2) by (auto simp: same_bytes_def)
  moreover have "peek u (x + i) = peek (t\<lparr>words := W\<rparr>) (x + i)" using u x(2) x' by (auto simp: same_bytes_def)
  ultimately show "peek u (x + i) = peek s (x + i)" by (simp add: peek_def)
qed

lemma mm_realloc_rep:
  assumes rep: "mm_rep N s m" and a: "m a = Some c" and n: "0 < n" "n \<le> N"
    and new: "mm_malloc (w32 n) s = Some (r, t)" "r \<noteq> 0"
    and readable: "a + min n (c + 16) \<le> lo s + MAX_HEAP"
  shows "\<exists>b d u. r = w32 b \<and> 0 < b \<and> b < 4294967296 \<and> n \<le> d \<and> m b = None
    \<and> mm_realloc (w32 a) (w32 n) s = Some (w32 b, u) \<and> mm_rep N u ((m(a := None))(b \<mapsto> d))
    \<and> (\<forall>i < min n c. peek u (b + i) = peek s (a + i)) \<and> same_bytes peek (m(a := None)) s u
    \<and> evolves (max (n + 39) 4096) s u"
proof -
  obtain b d where b: "r = w32 b" "0 < b" "b < 4294967296" "n \<le> d" "m b = None"
    and rep': "mm_rep N t (m(b \<mapsto> d))" and sb: "same_bytes peek m s t"
    and ev: "evolves (max (n + 39) 4096) s t"
    using mm_malloc_rep [OF rep n] new by auto
  note start = evolvesD(1) [OF ev]
  from b(5) a have ab: "a \<noteq> b" by auto
  obtain bs fl where inv: "heap_inv t bs fl" and m: "payloads bs = m(b \<mapsto> d)"
    using rep' by (auto simp: mm_rep_def)
  have pa: "payloads bs a = Some c" and pb: "payloads bs b = Some d" using m a ab by simp_all
  from start readable have readable': "a + min n (c + 16) \<le> lo t + MAX_HEAP" by simp
  obtain W where W: "memcpy (w32 b) (w32 a) (min n (c + 16)) t = Some (t\<lparr>words := W\<rparr>)"
    "heap_inv (t\<lparr>words := W\<rparr>) bs fl"
    "\<forall>i < min n c. byte_of W (b + i) = byte_of (words t) (a + i)"
    "\<forall>x. x < b \<or> b + d \<le> x \<longrightarrow> byte_of W x = byte_of (words t) x"
    using mm_realloc_copy [OF inv pa pb ab b(4) readable'] by blast
  let ?t = "t\<lparr>words := W\<rparr>"
  have rep2: "mm_rep N ?t (m(b \<mapsto> d))" using mm_repI [OF rep' W(2)] m by simp
  obtain u where u: "mm_free (w32 a) ?t = Some u" "mm_rep N u ((m(b \<mapsto> d))(a := None))"
    "same_bytes peek ((m(b \<mapsto> d))(a := None)) ?t u" "evolves 0 ?t u"
    using mm_free_rep [OF rep2, of a c] a ab by auto
  have "n < 4294967296" "a < 4294967296" "0 < a"
    using n rep payload_range(2,3) [OF inv pa] unat_lt32 [of "mem_brk t"] by (auto simp: mm_rep_def)
  then have n32: "w32 n \<noteq> 0" "w32 a \<noteq> 0" using n(1) by (simp_all add: w32_eq_0)
  have "n < 4294967296" using n rep by (simp add: mm_rep_def)
  then have k: "(if w32 n < w32 (c + 16) then w32 n else w32 (c + 16)) = w32 (min n (c + 16))"
    using w32_less [OF _ payload_header(2) [OF inv pa], of n] by (simp add: min_def)
  have "unat (w32 (min n (c + 16))) = min n (c + 16)"
    using payload_header(2) [OF inv pa] by (simp add: unat_w32)
  then have "mm_realloc (w32 a) (w32 n) s = Some (w32 b, u)"
    using new(1) b(1) n32 payload_header(1) [OF inv pa] W(1) u(1) k
    by (simp add: mm_realloc_def)
  moreover have "same_bytes peek (m(a := None)) s u" by (rule same_bytes_moved [OF inv m b(5) W(4) sb u(3)])
  moreover have "\<forall>i < min n c. peek u (b + i) = peek s (a + i)"
    using u(3) sb W(3) a ab b(4) by (auto simp: same_bytes_def peek_def)
  moreover have "evolves (max (n + 39) 4096) s u"
    using evolves_trans [OF ev evolves_trans [OF evolves_words [of 0 t W] u(4)]] by simp
  ultimately show ?thesis using b u(2) ab by (auto simp: fun_upd_twist)
qed

text \<open>
  When \<open>mm_malloc\<close> fails, \<open>mm_realloc\<close> does not return: it copies to the null pointer.
\<close>

lemma mm_realloc_exhausted:
  assumes rep: "mm_rep N s m" and a: "m a = Some c" and n: "0 < n" "n \<le> N"
    and full: "mm_malloc (w32 n) s = Some (0, t)"
  shows "mm_realloc (w32 a) (w32 n) s = None"
proof -
  have t: "t = s\<lparr>errno := ENOMEM\<rparr>"
    using mm_malloc_rep [OF rep n] full by (auto simp: w32_eq_0)
  obtain bs fl where inv: "heap_inv s bs fl" and m: "m = payloads bs"
    using rep by (auto simp: mm_rep_def)
  note pa = a [unfolded m]
  have "0 < store_lo s" using inv by (simp add: heap_inv_def heap_core_def region_ok_def)
  then have fault: "memcpy 0 p (Suc k) t = None" for p k
    by (simp add: t load_byte_def store_byte_def byte_ok_def)
  have "n < 4294967296" "a < 4294967296" "0 < a"
    using n rep payload_range(2,3) [OF inv pa] unat_lt32 [of "mem_brk s"] by (auto simp: mm_rep_def)
  then have n32: "w32 n \<noteq> 0" "w32 a \<noteq> 0" using n(1) by (simp_all add: w32_eq_0)
  have "GET_SIZE (HDRP (w32 a - DSIZE)) t = Some (w32 (c + 16))"
    using payload_header(1) [of t bs fl, OF _ pa] inv by (simp add: t)
  moreover have "\<exists>k. unat (if w32 n < w32 (c + 16) then w32 n else w32 (c + 16)) = Suc k"
    using \<open>n < 4294967296\<close> n(1) payload_header(2) [OF inv pa] by (auto simp: unat_w32 gr0_conv_Suc)
  ultimately show ?thesis using full n32 fault by (auto simp: mm_realloc_def)
qed

text \<open>
  \<open>mm_realloc\<close> copies up to the whole old block size, 16 bytes more than its payload; when
  these lie past the end of the storage it does not return either.
\<close>

lemma memcpy_past:
  fixes s :: "'a memlib_scheme"
  shows "p \<le> store_hi s \<Longrightarrow> store_hi s < p + n \<Longrightarrow> store_hi s < 4294967296 \<Longrightarrow>
    memcpy d (w32 p) n s = None"
proof (induction n arbitrary: d p s)
  case 0
  then show ?case by simp
next
  case (Suc n)
  show ?case
  proof (cases "p = store_hi s")
    case True
    with Suc.prems show ?thesis by (simp add: load_byte_def byte_ok_def unat_w32)
  next
    case False
    have "memcpy (d + 1) (w32 (Suc p)) n t = None" if "store_hi t = store_hi s" for t :: "'a memlib_scheme"
      using Suc.prems False that by (intro Suc.IH) simp_all
    moreover have "store_hi t = store_hi s" if "store_byte d v s = Some t" for v and t :: "'a memlib_scheme"
      using that by (auto simp: store_byte_def split: if_splits)
    ultimately show ?thesis by (auto simp: w32_Suc split: bind_splits)
  qed
qed

lemma mm_realloc_overrun:
  assumes rep: "mm_rep N s m" and a: "m a = Some c" and n: "0 < n" "n \<le> N"
    and new: "mm_malloc (w32 n) s = Some (r, t)" "r \<noteq> 0"
    and past: "lo s + MAX_HEAP < a + min n (c + 16)"
  shows "mm_realloc (w32 a) (w32 n) s = None"
proof -
  obtain b d where rep': "mm_rep N t (m(b \<mapsto> d))" and mb: "m b = None"
    and start: "mem_start_brk t = mem_start_brk s"
    using mm_malloc_rep [OF rep n] new by (auto simp: evolves_def)
  obtain bs fl where inv: "heap_inv t bs fl" and m: "payloads bs = m(b \<mapsto> d)"
    using rep' by (auto simp: mm_rep_def)
  have pa: "payloads bs a = Some c" using m a mb by auto
  have r: "store_hi t = lo s + MAX_HEAP" "hi t \<le> store_hi t" "store_hi t < 4294967296"
    using inv start unat_lt32 [of "mem_max_addr t"]
    by (simp_all add: heap_inv_def heap_core_def region_ok_def)
  note P = payload_range(2,3) [OF inv pa]
  have "n < 4294967296" "a < 4294967296" "0 < a" using n rep r P by (auto simp: mm_rep_def)
  then have n32: "w32 n \<noteq> 0" "w32 a \<noteq> 0" using n(1) by (simp_all add: w32_eq_0)
  have k: "unat (if w32 n < w32 (c + 16) then w32 n else w32 (c + 16)) = min n (c + 16)"
    using \<open>n < 4294967296\<close> payload_header(2) [OF inv pa] by (simp add: unat_w32 w32_less min_def)
  have "memcpy r (w32 a) (min n (c + 16)) t = None"
    using past r P by (intro memcpy_past) simp_all
  with k show ?thesis using new n32 payload_header(1) [OF inv pa] by (simp add: mm_realloc_def)
qed

text \<open>Whenever \<open>mm_realloc\<close> returns, it has moved the payload with its contents.\<close>

lemma mm_realloc_done:
  assumes rep: "mm_rep N s m" and a: "m a = Some c" and n: "0 < n" "n \<le> N"
    and ret: "mm_realloc (w32 a) (w32 n) s = Some (r, u)"
  shows "\<exists>b d. r = w32 b \<and> n \<le> d \<and> m b = None \<and> mm_rep N u ((m(a := None))(b \<mapsto> d))
    \<and> (\<forall>i < min n c. peek u (b + i) = peek s (a + i)) \<and> same_bytes peek (m(a := None)) s u
    \<and> evolves (max (n + 39) 4096) s u"
proof -
  obtain r' t where new: "mm_malloc (w32 n) s = Some (r', t)"
    using mm_malloc_rep [OF rep n] by auto
  have r: "r' \<noteq> 0" using mm_realloc_exhausted [OF rep a n] new ret by auto
  have "a + min n (c + 16) \<le> lo s + MAX_HEAP"
    using mm_realloc_overrun [OF rep a n new r] ret by (metis linorder_not_less option.distinct(1))
  from mm_realloc_rep [OF rep a n new r this] obtain b d v where
    "m b = None" "n \<le> d" "mm_realloc (w32 a) (w32 n) s = Some (w32 b, v)"
    "mm_rep N v ((m(a := None))(b \<mapsto> d))" "\<forall>i < min n c. peek v (b + i) = peek s (a + i)"
    "same_bytes peek (m(a := None)) s v" "evolves (max (n + 39) 4096) s v" by blast
  with ret show ?thesis by auto
qed

lemma mm_realloc_returns:
  assumes "mm_rep N s m" "m a = Some c" "0 < n" "n \<le> N"
    and "mm_realloc (w32 a) (w32 n) s = Some (r, u)"
  shows "\<exists>b d. r = w32 b \<and> n \<le> d \<and> m b = None \<and> mm_rep N u ((m(a := None))(b \<mapsto> d))
    \<and> (\<forall>i < min n c. peek u (b + i) = peek s (a + i)) \<and> same_bytes peek (m(a := None)) s u"
  using mm_realloc_done [OF assms] by blast

text \<open>It does return while the storage has room for the new block, and 8 bytes more.\<close>

lemma mm_realloc_room:
  assumes rep: "mm_rep N s m" and a: "m a = Some c" and n: "0 < n" "n \<le> N"
    and room: "hi s + max (n + 39) 4096 + 8 \<le> lo s + MAX_HEAP"
  shows "\<exists>r u. mm_realloc (w32 a) (w32 n) s = Some (r, u)"
proof -
  obtain bs fl where inv: "heap_inv s bs fl" and m: "m = payloads bs"
    using rep by (auto simp: mm_rep_def)
  obtain r t where new: "mm_malloc (w32 n) s = Some (r, t)" "r \<noteq> 0"
    using mm_malloc_rep [OF rep n] room by (auto simp: w32_eq_0)
  have "a + c + 8 \<le> hi s" using payload_range(3) [OF inv] a m by simp
  with room have "a + min n (c + 16) \<le> lo s + MAX_HEAP" by simp
  from mm_realloc_rep [OF rep a n new this] show ?thesis by blast
qed

section \<open>The package as an allocator\<close>

lemma mm_store_byte:
  assumes rep: "mm_rep N s m" and a: "m a = Some c" "i < c"
  shows "\<exists>t. store_byte (w32 (a + i)) v s = Some t \<and> mm_rep N t m
    \<and> (\<forall>b. peek t b = (if b = a + i then v else peek s b))"
proof -
  obtain bs fl where inv: "heap_inv s bs fl" and m: "m = payloads bs"
    using rep by (auto simp: mm_rep_def)
  note pa = a(1) [unfolded m]
  let ?W = "set_byte (words s) (a + i) v"
  have "in_store s (a + i) (Suc 0)"
    using payload_store [OF inv pa, of c] a(2) by (simp add: in_store_def)
  then have st: "store_byte (w32 (a + i)) v s = Some (s\<lparr>words := ?W\<rparr>)" by (rule store_byte_in)
  have "a mod 4 = 0" using payload_range(1) [OF inv pa] by presburger
  then have "a \<le> a + i - (a + i) mod 4"
    by (simp add: minus_mod_eq_mult_div) presburger
  then have "\<forall>x. ?W x \<noteq> words s x \<longrightarrow> a \<le> x \<and> x < a + c"
    using set_byte_frame [of _ "a + i" "words s" v] a(2) by (metis le_less_trans linorder_not_le
        nat_add_left_cancel_less order_trans)
  note W = heap_inv_write [OF inv pa this]
  have "mm_rep N (s\<lparr>words := ?W\<rparr>) m" by (rule mm_repI [OF rep W m]) simp
  with st show ?thesis by (auto simp: peek_def byte_set_byte)
qed

interpretation mm: writable_allocator "mm_rep N" peek mm_malloc mm_free N store_byte for N
proof
  fix s :: "'a mm_state_scheme" and m a c
  assume "mm_rep N s m" and a: "m a = Some c"
  then obtain bs fl where inv: "heap_inv s bs fl" and m: "m = payloads bs" by (auto simp: mm_rep_def)
  from payload_range [OF inv a [unfolded m]] unat_lt32 [of "mem_brk s"]
  show "0 < a \<and> 8 dvd a \<and> a + c < 4294967296" by linarith
next
  fix s :: "'a mm_state_scheme" and m a c b d
  assume "mm_rep N s m" and a: "m a = Some c" "m b = Some d" "a \<noteq> b"
  then obtain bs fl where inv: "heap_inv s bs fl" and m: "m = payloads bs" by (auto simp: mm_rep_def)
  from payload_apart [OF inv a [unfolded m]] show "a + c \<le> b \<or> b + d \<le> a" by linarith
next
  fix s :: "'a mm_state_scheme" and m n
  assume rep: "mm_rep N s m" "0 < n" "n \<le> N"
  then have "mm_rep N (s\<lparr>errno := ENOMEM\<rparr>) m" by (auto simp: mm_rep_def)
  moreover have "same_bytes peek m s (s\<lparr>errno := ENOMEM\<rparr>)" by (simp add: same_bytes_def peek_def)
  ultimately show "\<exists>r t. mm_malloc (w32 n) s = Some (r, t) \<and> same_bytes peek m s t \<and>
      (r = 0 \<and> mm_rep N t m \<or> (\<exists>a c. r = w32 a \<and> n \<le> c \<and> m a = None \<and> mm_rep N t (m(a \<mapsto> c))))"
    using mm_malloc_rep [OF rep] by blast
qed (use mm_free_rep mm_store_byte in blast)+

interpretation mm: resizable_allocator "mm_rep N" peek mm_malloc mm_free N mm_realloc for N
  by unfold_locales (rule mm_realloc_returns)

end
