(* ===== verification/Client.thy ===== *)
theory Client
  imports Payloads
begin

text \<open>
  Clients of the package: the histories of calls a client may make, from \<open>mm_init\<close> on, as a
  step relation on the allocator's state and the client's view of its payloads.
\<close>

section \<open>Histories\<close>

type_synonym 'a client = "'a mm_state_scheme \<times> (nat \<rightharpoonup> u8 list)"

text \<open>
  The client asks for at most \<open>N\<close> bytes, and frees, resizes and writes its own payloads only.
  What a fresh payload holds is not defined by the call: the client takes it as it is.
\<close>

inductive client_step :: "nat \<Rightarrow> 'a client \<Rightarrow> 'a client \<Rightarrow> bool" for N where
  step_malloc: "0 < n \<Longrightarrow> n \<le> N \<Longrightarrow> mm_malloc (w32 n) s = Some (w32 a, t) \<Longrightarrow>
    0 < a \<Longrightarrow> a < 4294967296 \<Longrightarrow> client_step N (s, C) (t, C(a \<mapsto> stored peek t a n))"
| step_no_memory: "0 < n \<Longrightarrow> n \<le> N \<Longrightarrow> mm_malloc (w32 n) s = Some (0, t) \<Longrightarrow>
    client_step N (s, C) (t, C)"
| step_free: "C a = Some bs \<Longrightarrow> mm_free (w32 a) s = Some t \<Longrightarrow>
    client_step N (s, C) (t, C(a := None))"
| step_realloc: "C a = Some bs \<Longrightarrow> 0 < n \<Longrightarrow> n \<le> N \<Longrightarrow>
    mm_realloc (w32 a) (w32 n) s = Some (w32 b, t) \<Longrightarrow> b < 4294967296 \<Longrightarrow>
    client_step N (s, C) (t, (C(a := None))(b \<mapsto> take n bs @ drop (length bs) (stored peek t b n)))"
| step_write: "C a = Some bs \<Longrightarrow> i < length bs \<Longrightarrow> store_byte (w32 (a + i)) v s = Some t \<Longrightarrow>
    client_step N (s, C) (t, C(a \<mapsto> bs[i := v]))"

inductive_cases client_stepE: "client_step N (s, C) (t, D)"

lemmas client_cases = client_stepE [consumes 1, case_names malloc no_memory freed resized written]

text \<open>The requests are small enough, for the storage at hand, for no size or pointer to wrap.\<close>

definition small_requests :: "nat \<Rightarrow> 'a memlib_scheme \<Rightarrow> bool" where
  "small_requests N s \<longleftrightarrow>
     N + 39 < 2147483648 \<and> lo s + MAX_HEAP + max (N + 39) 4096 < 4294967296"

inductive reachable :: "nat \<Rightarrow> 'a client \<Rightarrow> bool" for N where
  reach_init: "fresh_heap s \<Longrightarrow> small_requests N s \<Longrightarrow> mm_init s = Some (0, t) \<Longrightarrow>
    reachable N (t, Map.empty)"
| reach_step: "reachable N sC \<Longrightarrow> client_step N sC tD \<Longrightarrow> reachable N tD"

section \<open>The client's view is right\<close>

lemma client_init:
  assumes "fresh_heap s" "small_requests N s"
  shows "\<exists>t. mm_init s = Some (0, t) \<and> mm_rep N t Map.empty \<and> mem_start_brk t = mem_start_brk s
    \<and> hi t = lo t + 4240 \<and> mm_state.more t = mm_state.more s"
proof -
  let ?t = "\<lambda>W. s\<lparr>heap_listp := w32 (lo s + 136), mem_brk := w32 (lo s + 4240), words := W\<rparr>"
  obtain W fl where t: "mm_init s = Some (0, ?t W)" "heap_inv (?t W) [Blk (lo s + 144) 4096 False] fl"
    using mm_init_spec [OF assms(1)] by blast
  have "payloads [Blk (lo s + 144) 4096 False] = Map.empty" by (simp add: payloads_def)
  with t(2) assms(2) have "mm_rep N (?t W) Map.empty"
    unfolding mm_rep_def small_requests_def by fastforce
  moreover have "lo s + 4240 < 4294967296"
    using assms(2) by (simp add: small_requests_def MAX_HEAP_num)
  ultimately show ?thesis using t(1) by (simp add: unat_w32)
qed

lemma mm_init_rep:
  assumes "fresh_heap s" "small_requests N s"
  shows "\<exists>t. mm_init s = Some (0, t) \<and> mm_rep N t Map.empty"
  using client_init [OF assms] by blast

text \<open>
  After \<open>mm_realloc\<close> the bytes the client keeps are those it had, and the others are whatever
  the new payload holds.
\<close>

lemma backs_realloc:
  assumes b: "backs (mm_rep N) peek s C" and a: "C a = Some bs" and n: "0 < n" "n \<le> N"
    and r: "mm_realloc (w32 a) (w32 n) s = Some (w32 b, t)" "b < 4294967296"
  shows "backs (mm_rep N) peek t
    ((C(a := None))(b \<mapsto> take n bs @ drop (length bs) (stored peek t b n)))"
proof -
  obtain b' where b': "w32 b = w32 b'" "b' < 4294967296"
    "backs (mm_rep N) peek t ((C(a := None))(b' \<mapsto> stored peek t b' n))"
    "take (length bs) (stored peek t b' n) = take n bs"
    using mm.backs_resize [OF b a n r(1)] by blast
  have "b' = b" using b'(1,2) r(2) w32_inject by metis
  moreover have "take n bs @ drop (length bs) (stored peek t b n) = stored peek t b n"
    using b'(4) unfolding \<open>b' = b\<close> by (metis append_take_drop_id)
  ultimately show ?thesis using b'(3) by simp
qed

lemma client_step_backs:
  assumes "client_step N (s, C) (t, D)" "backs (mm_rep N) peek s C"
  shows "backs (mm_rep N) peek t D"
  using assms(1)
proof (cases rule: client_cases)
  case (malloc n a)
  from mm.backs_allocate [OF assms(2) malloc(2,3)] malloc
  obtain b where b: "w32 a = w32 b" "backs (mm_rep N) peek t (C(b \<mapsto> stored peek t b n))"
    by (auto simp: w32_eq_0)
  moreover have "b < 4294967296"
    using mm.backs_bounds(3) [OF b(2), of b] by simp
  ultimately show ?thesis using malloc w32_inject by metis
next
  case (no_memory n)
  from mm.backs_allocate [OF assms(2) no_memory(2,3)] no_memory show ?thesis by auto
next
  case (freed a bs)
  from mm.backs_release [OF assms(2) freed(2)] freed show ?thesis by auto
next
  case (resized a bs n b)
  from backs_realloc [OF assms(2) resized(2-6)] resized(1) show ?thesis by simp
next
  case (written a bs i v)
  from mm.backs_put [OF assms(2) written(2,3), of v] written show ?thesis by auto
qed

lemma reachable_backs: "reachable N (s, C) \<Longrightarrow> backs (mm_rep N) peek s C"
proof (induction "(s, C)" arbitrary: s C rule: reachable.induct)
  case (reach_init s t)
  then have "mm_rep N t Map.empty" using mm_init_rep by fastforce
  then show ?case by (auto simp: backs_def)
next
  case (reach_step sC t D)
  then show ?case using client_step_backs by (cases sC) blast
qed

lemma backs_load:
  assumes "backs (mm_rep N) peek s C" "C a = Some bs" "i < length bs"
  shows "load_byte (w32 (a + i)) s = Some (bs ! i)"
proof -
  obtain m where m: "mm_rep N s m" "dom C = dom m"
    "\<forall>a bs c. C a = Some bs \<longrightarrow> m a = Some c \<longrightarrow> length bs \<le> c \<and> bs = stored peek s a (length bs)"
    using assms(1) by (auto simp: backs_def)
  then obtain c where c: "m a = Some c" using assms(2) by blast
  obtain bks fl where inv: "heap_inv s bks fl" and p: "m = payloads bks"
    using m(1) by (auto simp: mm_rep_def)
  have bs: "length bs \<le> c" "bs = stored peek s a (length bs)" using m(3) assms(2) c by blast+
  have "in_store s (a + i) (Suc 0)"
    using payload_store [OF inv c [unfolded p], of c] bs(1) assms(3) by (simp add: in_store_def)
  then have "load_byte (w32 (a + i)) s = Some (peek s (a + i))"
    by (simp add: load_byte_in peek_def)
  also have "peek s (a + i) = bs ! i" using bs(2) assms(3) nth_stored by metis
  finally show ?thesis .
qed

section \<open>More a client may use\<close>

text \<open>Where the payloads lie.\<close>

lemma backs_live:
  assumes "backs (mm_rep N) peek s C"
  obtains m bks fl where "mm_rep N s m" "dom C = dom m" "heap_inv s bks fl" "m = payloads bks"
    "\<And>a bs. C a = Some bs \<Longrightarrow> \<exists>c. m a = Some c \<and> length bs \<le> c \<and> bs = stored peek s a (length bs)"
proof -
  obtain m where m: "mm_rep N s m" "dom C = dom m"
    "\<forall>a bs c. C a = Some bs \<longrightarrow> m a = Some c \<longrightarrow> length bs \<le> c \<and> bs = stored peek s a (length bs)"
    using assms by (auto simp: backs_def)
  moreover obtain bks fl where "heap_inv s bks fl" "m = payloads bks"
    using m(1) by (auto simp: mm_rep_def)
  moreover have "\<exists>c. m a = Some c \<and> length bs \<le> c \<and> bs = stored peek s a (length bs)"
    if "C a = Some bs" for a bs
    using m(2,3) that by (metis domD domI)
  ultimately show ?thesis using that by blast
qed

lemma backs_range:
  assumes b: "backs (mm_rep N) peek s C" and a: "C a = Some bs"
  shows "8 dvd a" "lo s + 152 \<le> a" "a + length bs + 8 \<le> hi s"
    "C b = Some cs \<Longrightarrow> b \<noteq> a \<Longrightarrow> a + length bs + 16 \<le> b \<or> b + length cs + 16 \<le> a"
proof -
  obtain m bks fl where m: "heap_inv s bks fl" "m = payloads bks"
    "\<And>a bs. C a = Some bs \<Longrightarrow> \<exists>c. m a = Some c \<and> length bs \<le> c \<and> bs = stored peek s a (length bs)"
    using backs_live [OF b] by metis
  obtain c where c: "payloads bks a = Some c" "length bs \<le> c" using m(2,3) a by blast
  from payload_range [OF m(1) c(1)] c(2)
  show "8 dvd a" "lo s + 152 \<le> a" "a + length bs + 8 \<le> hi s" by auto
  assume C: "C b = Some cs" "b \<noteq> a"
  obtain d where "payloads bks b = Some d" "length cs \<le> d" using m(2) m(3) [OF C(1)] by auto
  with C(2) show "a + length bs + 16 \<le> b \<or> b + length cs + 16 \<le> a"
    using payload_apart [OF m(1) c(1), of b d] c(2) by auto
qed

text \<open>Filling a payload with \<open>memset\<close>.\<close>

lemma backs_memset:
  assumes b: "backs (mm_rep N) peek s C" and a: "C a = Some bs"
  shows "\<exists>W. memset (w32 a) v (length bs) s = Some (s\<lparr>words := W\<rparr>)
    \<and> backs (mm_rep N) peek (s\<lparr>words := W\<rparr>) (C(a \<mapsto> replicate (length bs) v))"
proof -
  obtain m bks fl where m: "mm_rep N s m" "dom C = dom m" "heap_inv s bks fl" "m = payloads bks"
    "\<And>a bs. C a = Some bs \<Longrightarrow> \<exists>c. m a = Some c \<and> length bs \<le> c \<and> bs = stored peek s a (length bs)"
    using backs_live [OF b] by metis
  obtain c where c: "payloads bks a = Some c" "length bs \<le> c" using m(4,5) a by blast
  let ?W = "fill_bytes set_byte (length bs) a v (words s)"
  have "a mod 4 = 0" using payload_range(1) [OF m(3) c(1)] by presburger
  then have "\<forall>x. ?W x \<noteq> words s x \<longrightarrow> a \<le> x \<and> x < a + c"
    using fill_frame [of _ a "length bs" v "words s"] c(2) by (metis diff_zero linorder_not_le
        nat_add_left_cancel_le order_trans)
  note W = heap_inv_write [OF m(3) c(1) this]
  have rep: "mm_rep N (s\<lparr>words := ?W\<rparr>) m" by (rule mm_repI [OF m(1) W m(4)]) simp
  have rd: "peek (s\<lparr>words := ?W\<rparr>) x = (if a \<le> x \<and> x < a + length bs then v else peek s x)" for x
    by (simp add: peek_def word_bytes.rd_fill)
  have "length cs \<le> d \<and> cs = stored peek (s\<lparr>words := ?W\<rparr>) x (length cs)"
    if x: "(C(a \<mapsto> replicate (length bs) v)) x = Some cs" "m x = Some d" for x cs d
  proof (cases "x = a")
    case True
    then have "cs = replicate (length bs) v" "d = c" using x c(1) m(4) by auto
    then show ?thesis using c(2) True by (auto intro!: nth_equalityI simp: rd)
  next
    case False
    then have C: "C x = Some cs" using x(1) by simp
    with m(5) x(2) have cs: "length cs \<le> d" "cs = stored peek s x (length cs)" by fastforce+
    have "stored peek s x (length cs) = stored peek (s\<lparr>words := ?W\<rparr>) x (length cs)"
      using backs_range(4) [OF b a C False] by (intro stored_cong) (auto simp: rd)
    with cs show ?thesis by simp
  qed
  moreover have "dom (C(a \<mapsto> replicate (length bs) v)) = dom m" using m(2) a by auto
  ultimately have "backs (mm_rep N) peek (s\<lparr>words := ?W\<rparr>) (C(a \<mapsto> replicate (length bs) v))"
    unfolding backs_def using rep by blast
  moreover have "memset (w32 a) v (length bs) s = Some (s\<lparr>words := ?W\<rparr>)"
    by (rule memset_in [OF payload_store [OF m(3) c]])
  ultimately show ?thesis by blast
qed

text \<open>The calls with what they leave alone.\<close>

lemma client_malloc:
  assumes b: "backs (mm_rep N) peek s C" and n: "0 < n" "n \<le> N"
  shows "(\<exists>t. mm_malloc (w32 n) s = Some (0, t) \<and> t = s\<lparr>errno := ENOMEM\<rparr>
      \<and> lo s + MAX_HEAP < hi s + max (n + 39) 4096)
    \<or> (\<exists>a t. mm_malloc (w32 n) s = Some (w32 a, t) \<and> w32 a \<noteq> 0 \<and> C a = None
        \<and> backs (mm_rep N) peek t (C(a \<mapsto> stored peek t a n)) \<and> evolves (max (n + 39) 4096) s t)"
proof -
  obtain m where m: "mm_rep N s m" using b by (auto simp: backs_def)
  from mm_malloc_rep [OF m n] show ?thesis
  proof (elim disjE exE conjE)
    fix a c t assume t: "mm_malloc (w32 n) s = Some (w32 a, t)" "evolves (max (n + 39) 4096) s t"
      "0 < a" "a < 4294967296"
    then have "w32 a \<noteq> 0" by (simp add: w32_eq_0)
    with mm.backs_allocate [OF b n] t(1) obtain a' where
      "w32 a = w32 a'" "C a' = None" "backs (mm_rep N) peek t (C(a' \<mapsto> stored peek t a' n))" by auto
    with t \<open>w32 a \<noteq> 0\<close> show ?thesis by metis
  qed simp
qed

lemma client_free:
  assumes b: "backs (mm_rep N) peek s C" and a: "C a = Some bs"
  shows "\<exists>t. mm_free (w32 a) s = Some t \<and> backs (mm_rep N) peek t (C(a := None)) \<and> evolves 0 s t"
proof -
  obtain m bks fl where m: "mm_rep N s m"
    "\<And>a bs. C a = Some bs \<Longrightarrow> \<exists>c. m a = Some c \<and> length bs \<le> c \<and> bs = stored peek s a (length bs)"
    using backs_live [OF b] by metis
  then obtain c where "m a = Some c" using a by blast
  from mm_free_rep [OF m(1) this] mm.backs_release [OF b a] show ?thesis by auto
qed

lemma client_realloc:
  assumes b: "backs (mm_rep N) peek s C" and a: "C a = Some bs" and n: "0 < n" "n \<le> N"
  shows "mm_realloc (w32 a) (w32 n) s = None \<and> lo s + MAX_HEAP < hi s + max (n + 39) 4096 + 8
    \<or> (\<exists>b t. mm_realloc (w32 a) (w32 n) s = Some (w32 b, t) \<and> w32 b \<noteq> 0 \<and> C b = None
        \<and> backs (mm_rep N) peek t ((C(a := None))(b \<mapsto> stored peek t b n))
        \<and> take (length bs) (stored peek t b n) = take n bs \<and> evolves (max (n + 39) 4096) s t)"
proof -
  obtain m bks fl where m: "mm_rep N s m"
    "\<And>a bs. C a = Some bs \<Longrightarrow> \<exists>c. m a = Some c \<and> length bs \<le> c \<and> bs = stored peek s a (length bs)"
    using backs_live [OF b] by metis
  then obtain c where c: "m a = Some c" using a by blast
  show ?thesis
  proof (cases "mm_realloc (w32 a) (w32 n) s")
    case None
    with mm_realloc_room [OF m(1) c n] show ?thesis by fastforce
  next
    case (Some rt)
    then obtain r t where r: "mm_realloc (w32 a) (w32 n) s = Some (r, t)" by (cases rt) simp
    have "evolves (max (n + 39) 4096) s t" using mm_realloc_done [OF m(1) c n r] by blast
    with mm.backs_resize [OF b a n r] r show ?thesis by blast
  qed
qed

section \<open>Where fresh storage comes from\<close>

lemma mem_init_fresh:
  assumes "0 < a" "8 dvd a" "a + MAX_HEAP < 4294967296"
  shows "\<exists>t. mem_init (w32 a) contents s = Some t \<and> fresh_heap t \<and> lo t = a
    \<and> words t = contents"
proof -
  have "w32 a \<noteq> 0" "unat (w32 a) = a" "unat (w32 a + w32 MAX_HEAP) = a + MAX_HEAP"
    using assms by (simp_all add: w32_eq_0 unat_w32 w32_add)
  with assms show ?thesis by (simp add: mem_init_def fresh_heap_def)
qed

lemma mem_reset_fresh: "region_ok s \<Longrightarrow> fresh_heap (mem_reset_brk s)"
  by (simp add: region_ok_def fresh_heap_def mem_reset_brk_def)

lemma mm_rep_fresh:
  assumes "mm_rep N s m"
  shows "fresh_heap (mem_reset_brk s)" "small_requests N (mem_reset_brk s)"
  using assms mem_reset_fresh [OF heap_core_region [OF heap_inv_core]]
  by (auto simp: mm_rep_def small_requests_def mem_reset_brk_def)

text \<open>A state to start from: storage at address 4096, all zero.\<close>

definition boot :: mm_state where
  "boot = \<lparr>mem_start_brk = 4096, mem_brk = 4096, mem_max_addr = w32 (4096 + MAX_HEAP), errno = 0,
     store_lo = 4096, store_hi = 4096 + MAX_HEAP, words = (\<lambda>_. 0), heap_listp = 0\<rparr>"

lemma boot_fresh: "fresh_heap boot" "lo boot = 4096"
  by (simp_all add: boot_def fresh_heap_def MAX_HEAP_num unat_w32)

lemma boot_small: "N \<le> 100000000 \<Longrightarrow> small_requests N boot"
  by (simp add: small_requests_def boot_fresh(2) MAX_HEAP_num max_def)

lemma boot_init:
  obtains t fl where "mm_init boot = Some (0, t)" "heap_inv t [Blk 4240 4096 False] fl"
    "lo t = 4096" "hi t = 8336" "store_hi t = 4096 + MAX_HEAP" "store_lo t = 4096"
proof -
  obtain W fl where t: "mm_init boot = Some (0, boot\<lparr>heap_listp := w32 4232, mem_brk := w32 8336,
      words := W\<rparr>)"
    "heap_inv (boot\<lparr>heap_listp := w32 4232, mem_brk := w32 8336, words := W\<rparr>) [Blk 4240 4096 False] fl"
    using mm_init_spec [OF boot_fresh(1)] by (auto simp: boot_fresh(2))
  let ?t = "boot\<lparr>heap_listp := w32 4232, mem_brk := w32 8336, words := W\<rparr>"
  have "lo ?t = 4096" "hi ?t = 8336" "store_hi ?t = 4096 + MAX_HEAP" "store_lo ?t = 4096"
    by (simp_all add: boot_def unat_w32)
  with t that show ?thesis by blast
qed

lemma boot_rep:
  obtains t where "mm_init boot = Some (0, t)" "mm_rep 100000000 t Map.empty"
    "reachable 100000000 (t, Map.empty)"
  using mm_init_rep [OF boot_fresh(1) boot_small] reach_init [OF boot_fresh(1) boot_small]
  by (metis order_refl)

end
