(* ===== verification/Mm_Check.thy ===== *)
theory Mm_Check
  imports Client
begin

text \<open>
  The heap consistency checker \<open>mm_check\<close> of \<^verbatim>\<open>mm.c\<close>, as it is written, and its verdict on a
  heap that satisfies the invariant.
\<close>

section \<open>The code\<close>

text \<open>
  The three loops, each with the value it returns early or \<open>None\<close> inside the sum for "go on".
  In the second loop the \<open>return 0\<close> is not guarded by the \<open>if\<close> above it (there are no
  braces), so the inner loop returns in its first iteration.
\<close>

partial_function (option) check_tags :: "u32 \<Rightarrow> 'a memlib_scheme \<Rightarrow> bool option" where
  "check_tags bp s =
     (if bp \<le> mem_heap_hi s
      then do { h \<leftarrow> GET (HDRP bp) s;
                ftr \<leftarrow> FTRP bp s;
                f \<leftarrow> GET ftr s;
                if h \<noteq> f then Some False
                else do { nxt \<leftarrow> NEXT_BLKP bp s; check_tags nxt s } }
      else Some True)"

partial_function (option) check_buckets :: "u32 \<Rightarrow> 'a memlib_scheme \<Rightarrow> bool option" where
  "check_buckets bucket s =
     (if bucket < mem_heap_lo s + 4 * BUCKETS_COUNT
      then do { node \<leftarrow> GET bucket s;
                if node \<noteq> 0
                then do { _ \<leftarrow> GET_ALLOC (HDRP node) s; Some False }
                else check_buckets (bucket + 4) s }
      else Some True)"

partial_function (option) check_coalesced :: "u32 \<Rightarrow> 'a memlib_scheme \<Rightarrow> bool option" where
  "check_coalesced bp s =
     (if bp \<le> mem_heap_hi s
      then do { a \<leftarrow> GET_ALLOC (HDRP bp) s;
                escaped \<leftarrow> (if a = 0
                  then do { nxt \<leftarrow> NEXT_BLKP bp s; b \<leftarrow> GET_ALLOC (HDRP nxt) s; Some (b = 0) }
                  else Some False);
                if escaped then Some False
                else do { nxt \<leftarrow> NEXT_BLKP bp s; check_coalesced nxt s } }
      else Some True)"

definition mm_check :: "'a mm_state_scheme \<Rightarrow> int option" where
  "mm_check s = do {
     bp \<leftarrow> NEXT_BLKP (heap_listp s) s;
     ok \<leftarrow> check_tags bp s;
     if \<not> ok then Some 0
     else do {
       ok \<leftarrow> check_buckets (mem_heap_lo s) s;
       if \<not> ok then Some 0
       else do {
         bp \<leftarrow> NEXT_BLKP (heap_listp s) s;
         ok \<leftarrow> check_coalesced bp s;
         if \<not> ok then Some 0 else Some 1 } } }"

section \<open>Walking the blocks of a sound heap\<close>

lemma unat_heap_hi: "region_ok s \<Longrightarrow> unat (mem_heap_hi s) = hi s - 1"
proof -
  assume "region_ok s"
  then have "w32 (hi s) - w32 1 = w32 (hi s - 1)" by (intro w32_sub) (simp add: region_ok_def)
  then have "mem_heap_hi s = w32 (hi s - 1)" by (simp add: mem_heap_hi_def w32_def)
  then show ?thesis using unat_lt32 [of "mem_brk s"] by (simp add: unat_w32)
qed

lemma at_end: "region_ok s \<Longrightarrow> mem_heap_hi s < w32 (hi s)"
  using unat_heap_hi [of s] by (auto simp: word_less_nat_alt region_ok_def)

lemma before_end: "region_ok s \<Longrightarrow> p < hi s \<Longrightarrow> w32 p \<le> mem_heap_hi s"
  using unat_heap_hi [of s] unat_lt32 [of "mem_brk s"] by (simp add: word_le_nat_alt unat_w32)

lemma core_suffix:
  assumes "heap_core {} s (xs @ Blk p n u # ys) fl"
  shows "w32 p \<le> mem_heap_hi s" "NEXT_BLKP (w32 p) s = Some (w32 (p + n))"
    "GET (HDRP (w32 p)) s = Some (tag n u)" "FTRP (w32 p) s = Some (w32 (p + n - 8))"
    "GET (w32 (p + n - 8)) s = Some (tag n u)" "GET_ALLOC (HDRP (w32 p)) s = Some (if u then 1 else 0)"
proof -
  have b: "Blk p n u \<in> set (xs @ Blk p n u # ys)" by simp
  note B = core_block [OF assms b] and t = core_tags [OF assms b]
  note g = core_geom [OF assms b]
  show "w32 p \<le> mem_heap_hi s" using before_end [OF heap_core_region [OF assms]] B by simp
  show "NEXT_BLKP (w32 p) s = Some (w32 (p + n))" "FTRP (w32 p) s = Some (w32 (p + n - 8))"
    "GET_ALLOC (HDRP (w32 p)) s = Some (if u then 1 else 0)"
    using header_reads [OF g, of u] t by simp_all
  show "GET (HDRP (w32 p)) s = Some (tag n u)" "GET (w32 (p + n - 8)) s = Some (tag n u)"
    using g t by (simp_all add: geom_def HDRP_w32 GET_cell)
qed

lemma core_end:
  assumes "heap_core {} s bs fl"
  shows "\<not> w32 (hi s) \<le> mem_heap_hi s" "GET_ALLOC (HDRP (w32 (hi s))) s = Some 1"
  using at_end [OF heap_core_region [OF assms]] epilogue_reads [OF assms] by auto

lemma check_tags_sound:
  "heap_core {} s (xs @ ys) fl \<Longrightarrow> chain p ys (hi s) \<Longrightarrow> check_tags (w32 p) s = Some True"
proof (induction ys arbitrary: xs p)
  case Nil
  then show ?case using core_end [OF Nil.prems(1)] by (simp add: check_tags.simps)
next
  case (Cons b ys)
  obtain n u where b: "b = Blk p n u" using Cons.prems(2) by (cases b) simp
  note S = core_suffix [OF Cons.prems(1) [unfolded b]]
  have "check_tags (w32 (p + n)) s = Some True"
    using Cons.IH [of "xs @ [b]" "p + n"] Cons.prems b by simp
  with S show ?case by (simp add: check_tags.simps [of "w32 p"])
qed

lemma check_coalesced_sound:
  "heap_core {} s (xs @ ys) fl \<Longrightarrow> chain p ys (hi s) \<Longrightarrow> check_coalesced (w32 p) s = Some True"
proof (induction ys arbitrary: xs p)
  case Nil
  then show ?case using core_end [OF Nil.prems(1)] by (simp add: check_coalesced.simps)
next
  case (Cons b ys)
  obtain n u where b: "b = Blk p n u" using Cons.prems(2) by (cases b) simp
  note S = core_suffix [OF Cons.prems(1) [unfolded b]]
  have rest: "check_coalesced (w32 (p + n)) s = Some True"
    using Cons.IH [of "xs @ [b]" "p + n"] Cons.prems b by simp
  have next_alloc: "GET_ALLOC (HDRP (w32 (p + n))) s = Some 1" if "\<not> u"
  proof (cases ys)
    case Nil
    then have "p + n = hi s" using Cons.prems(2) b by simp
    then show ?thesis using core_end(2) [OF Cons.prems(1)] by simp
  next
    case (Cons c zs)
    obtain m v where c: "c = Blk (p + n) m v" using \<open>chain p (b # ys) (hi s)\<close> b Cons by (cases c) simp
    have "no_free_pair (xs @ b # c # zs)"
      using \<open>heap_core {} s (xs @ b # ys) fl\<close> Cons by (simp add: heap_core_def)
    then have v: "v" using that b c by (auto simp: no_free_pair_def successively_append_iff successively_Cons)
    have "heap_core {} s ((xs @ [b]) @ Blk (p + n) m v # zs) fl"
      using \<open>heap_core {} s (xs @ b # ys) fl\<close> Cons c by simp
    from core_suffix(6) [OF this] v show ?thesis by simp
  qed
  with S rest show ?case by (simp add: check_coalesced.simps [of "w32 p"])
qed

section \<open>The buckets\<close>

lemma check_buckets_sound:
  assumes core: "heap_core {} s bs fl"
  shows "k \<le> 32 \<Longrightarrow> check_buckets (w32 (lo s + 4 * k)) s = Some (\<forall>j. k \<le> j \<longrightarrow> j < 32 \<longrightarrow> fl j = [])"
proof (induction "32 - k" arbitrary: k)
  case 0
  have "lo s + 128 < 4294967296"
    using heap_core_region [OF core] unat_lt32 [of "mem_max_addr s"]
    by (simp add: region_ok_def MAX_HEAP_num)
  with 0 show ?case
    using w32_add_numeral [of "lo s"]
    by (subst check_buckets.simps) (simp add: mem_heap_lo_def)
next
  case (Suc d)
  then have k: "k < 32" by simp
  note c = core_buckets [OF core k]
  have L: "lo s + 128 < 4294967296"
    using heap_core_region [OF core] unat_lt32 [of "mem_max_addr s"]
    by (simp add: region_ok_def MAX_HEAP_num)
  have IH: "check_buckets (w32 (lo s + 4 * Suc k)) s = Some (\<forall>j. Suc k \<le> j \<longrightarrow> j < 32 \<longrightarrow> fl j = [])"
    by (rule Suc.hyps(1)) (use Suc.hyps(2) k in simp_all)
  have lt: "w32 (lo s + 4 * k) < mem_heap_lo s + 4 * BUCKETS_COUNT"
    using w32_add_numeral [of "lo s"] k L by (simp add: mem_heap_lo_def w32_less)
  have split: "(\<forall>j. k \<le> j \<longrightarrow> j < 32 \<longrightarrow> fl j = []) \<longleftrightarrow>
      fl k = [] \<and> (\<forall>j. Suc k \<le> j \<longrightarrow> j < 32 \<longrightarrow> fl j = [])"
    using k by (metis Suc_leD le_eq_less_or_eq Suc_le_eq)
  show ?case
  proof (cases "fl k")
    case Nil
    then have "words s (lo s + 4 * k) = 0" using c(2) by (simp add: bucket_list_def)
    moreover have "w32 (lo s + 4 * k) + 4 = w32 (lo s + 4 * Suc k)"
      by (simp add: w32_add_numeral) (simp add: ac_simps)
    ultimately show ?thesis
      using lt c(1) IH Nil split by (simp add: check_buckets.simps [of "w32 (lo s + 4 * k)"] GET_cell)
  next
    case (Cons p ps)
    then have w: "words s (lo s + 4 * k) = w32 p" using c(2) by (auto simp: bucket_list_def)
    have "set (fl k) = free_in bs k" using core k by (simp add: heap_core_def)
    then have "p \<in> free_in bs k" using Cons by (metis list.set_intros(1))
    then obtain n where b: "Blk p n False \<in> set bs" by (auto simp: free_in_def)
    note r = header_reads(2) [OF core_geom [OF core b] core_tags(1) [OF core b]]
    have "w32 p \<noteq> 0" using core_block [OF core b] by (simp add: w32_eq_0)
    with r w lt c(1) Cons split show ?thesis
      by (simp add: check_buckets.simps [of "w32 (lo s + 4 * k)"] GET_cell)
  qed
qed

lemma no_free_lists:
  assumes "heap_core {} s bs fl"
  shows "(\<forall>j < 32. fl j = []) \<longleftrightarrow> (\<forall>b \<in> set bs. used b)"
proof
  assume e: "\<forall>j < 32. fl j = []"
  show "\<forall>b \<in> set bs. used b"
  proof (rule ballI, rule ccontr)
    fix b assume b: "b \<in> set bs" "\<not> used b"
    obtain p n where B: "b = Blk p n False" using b(2) by (cases b) simp
    have "n \<le> 2147483648" using core_block(7) [OF assms] b B by (fastforce simp: MAX_HEAP_num)
    then have "bucket_index n < 32" by (rule bucket_index_spec(1))
    moreover have "p \<in> free_in bs (bucket_index n)" using b B by (auto simp: free_in_def)
    ultimately show False using assms e by (auto simp: heap_core_def)
  qed
next
  assume u: "\<forall>b \<in> set bs. used b"
  have "free_in bs j = {}" for j using u by (force simp: free_in_def)
  with assms show "\<forall>j < 32. fl j = []" by (simp add: heap_core_def)
qed

lemma mm_check_verdict:
  assumes "heap_inv s bs fl"
  shows "mm_check s = Some (if \<forall>b \<in> set bs. used b then 1 else 0)"
proof -
  have core: "heap_core {} s bs fl" and l: "heap_listp s = w32 (lo s + 136)"
    using assms by (simp_all add: heap_inv_def)
  have r: "8 dvd lo s" "lo s + 144 \<le> hi s" "words s (lo s + 132) = tag 8 True"
    using core by (simp_all add: heap_core_def region_ok_def)
  have "4 dvd lo s + 132" using r(1) by presburger
  then have "cell s (lo s + 132)"
    using r by (intro region_cell [OF heap_core_region [OF core]]) simp_all
  then have first: "NEXT_BLKP (heap_listp s) s = Some (w32 (lo s + 144))"
    using NEXT_BLKP_cell [of "lo s + 136" s 8 True] r l by (simp add: ac_simps)
  have "check_tags (w32 (lo s + 144)) s = Some True"
    "check_coalesced (w32 (lo s + 144)) s = Some True"
    using check_tags_sound [of s "[]" bs fl] check_coalesced_sound [of s "[]" bs fl]
      core heap_core_chain [OF core] by simp_all
  moreover have "check_buckets (mem_heap_lo s) s = Some (\<forall>b \<in> set bs. used b)"
    using check_buckets_sound [OF core, of 0] no_free_lists [OF core] by (simp add: mem_heap_lo_def)
  ultimately show ?thesis using first by (simp add: mm_check_def)
qed

section \<open>The printers and the self-test of mm.c\<close>

text \<open>
  \<open>print_seglist\<close> and \<open>print_heap\<close>: what they print is the list of the addresses and contents
  they read. The loop of either is \<open>print_words\<close>, up to and including its limit.
\<close>

partial_function (option) print_words ::
    "u32 \<Rightarrow> u32 \<Rightarrow> 'a memlib_scheme \<Rightarrow> (u32 \<times> u32) list option" where
  "print_words current_word limit s =
     (if current_word \<le> limit
      then do { v \<leftarrow> GET current_word s;
                rest \<leftarrow> print_words (current_word + 4) limit s;
                Some ((current_word, v) # rest) }
      else Some [])"

definition print_seglist :: "'a memlib_scheme \<Rightarrow> (u32 \<times> u32) list option" where
  "print_seglist s = print_words (mem_heap_lo s) (mem_heap_lo s + 4 * BUCKETS_COUNT) s"

definition print_heap :: "'a memlib_scheme \<Rightarrow> (u32 \<times> u32) list option" where
  "print_heap s = print_words (mem_heap_lo s) (mem_heap_hi s) s"

text \<open>
  The \<open>main\<close> of \<^verbatim>\<open>mm.c\<close> under \<open>MY_MMTEST\<close>: its exit status, and what \<open>mm_check\<close> returned,
  which it ignores.
\<close>

definition mm_main ::
    "u32 \<Rightarrow> (nat \<Rightarrow> u32) \<Rightarrow> 'a mm_state_scheme \<Rightarrow> (int \<times> int \<times> 'a mm_state_scheme) option" where
  "mm_main storage contents s = do {
     s \<leftarrow> mem_init storage contents s;
     (_, s) \<leftarrow> mm_init s;
     (ptr1, s) \<leftarrow> mm_malloc 40 s;
     (ptr2, s) \<leftarrow> mm_malloc 40 s;
     (ptr3, s) \<leftarrow> mm_malloc 40 s;
     s \<leftarrow> mm_free ptr1 s;
     s \<leftarrow> mm_free ptr2 s;
     s \<leftarrow> mm_free ptr3 s;
     verdict \<leftarrow> mm_check s;
     _ \<leftarrow> print_heap s;
     Some (0, verdict, s) }"

text \<open>What a printed range of words holds.\<close>

definition word_dump :: "(nat \<Rightarrow> u32) \<Rightarrow> nat \<Rightarrow> nat \<Rightarrow> (u32 \<times> u32) list" where
  "word_dump W a n = map (\<lambda>i. (w32 (a + 4 * i), W (a + 4 * i))) [0..<n]"

lemma word_dump_Suc: "word_dump W a (Suc n) = (w32 a, W a) # word_dump W (a + 4) n"
  by (simp add: word_dump_def upt_conv_Cons map_Suc_upt [symmetric] add.assoc del: upt_Suc)

lemma length_word_dump [simp]: "length (word_dump W a n) = n"
  by (simp add: word_dump_def)

lemma nth_word_dump [simp]: "i < n \<Longrightarrow> word_dump W a n ! i = (w32 (a + 4 * i), W (a + 4 * i))"
  by (simp add: word_dump_def)

lemma take_word_dump: "m \<le> n \<Longrightarrow> take m (word_dump W a n) = word_dump W a m"
  by (simp add: word_dump_def take_map)

lemma word_dump_mem:
  assumes "a \<le> p" "4 dvd p - a" "p < a + 4 * n"
  shows "(w32 p, W p) \<in> set (word_dump W a n)"
proof -
  from assms(2) obtain i where "p - a = 4 * i" by (rule dvdE)
  with assms(1,3) have "p = a + 4 * i" "i < n" by simp_all
  then show ?thesis by (force simp: word_dump_def)
qed

lemma bucket_head: "bucket_list W b ps \<Longrightarrow> W b = (if ps = [] then 0 else w32 (hd ps))"
  by (cases ps) (auto simp: bucket_list_def)

lemma print_words_spec:
  "(\<forall>i < n. cell s (a + 4 * i) \<and> a + 4 * i \<le> l) \<Longrightarrow> l < a + 4 * n \<Longrightarrow> a + 4 * n < 4294967296 \<Longrightarrow>
   print_words (w32 a) (w32 l) s = Some (word_dump (words s) a n)"
proof (induction n arbitrary: a)
  case 0
  then show ?case by (simp add: print_words.simps w32_le word_dump_def)
next
  case (Suc n)
  have "\<forall>i < n. cell s (a + 4 + 4 * i) \<and> a + 4 + 4 * i \<le> l"
  proof (intro allI impI)
    fix i assume "i < n"
    with Suc.prems(1) have "cell s (a + 4 * Suc i) \<and> a + 4 * Suc i \<le> l" by (metis Suc_less_eq)
    then show "cell s (a + 4 + 4 * i) \<and> a + 4 + 4 * i \<le> l" by (simp add: add.assoc)
  qed
  then have IH: "print_words (w32 (a + 4)) (w32 l) s = Some (word_dump (words s) (a + 4) n)"
    using Suc.IH [of "a + 4"] Suc.prems(2,3) by simp
  have "cell s a \<and> a \<le> l" using Suc.prems(1) by force
  with IH Suc.prems(2,3) show ?case
    by (simp add: print_words.simps [of "w32 a"] w32_le GET_cell w32_add_numeral word_dump_Suc)
qed

lemma print_seglist_spec:
  assumes core: "heap_core {} s bs fl"
  shows "print_seglist s = Some (word_dump (words s) (lo s) 33)"
proof -
  have r: "region_ok s" using core by (rule heap_core_region)
  then have L: "lo s + 144 \<le> hi s" "8 dvd lo s" "lo s + 144 < 4294967296"
    using unat_lt32 [of "mem_max_addr s"] by (simp_all add: region_ok_def MAX_HEAP_num)
  have "cell s (lo s + 4 * i)" if "i < 33" for i
  proof (rule region_cell [OF r])
    show "4 dvd lo s + 4 * i" using L(2) by presburger
  qed (use that L(1) in simp_all)
  moreover have "mem_heap_lo s + 4 * BUCKETS_COUNT = w32 (lo s + 128)"
    using w32_add_numeral [of "lo s"] by (simp add: mem_heap_lo_def)
  ultimately show ?thesis
    using print_words_spec [of 33 s "lo s" "lo s + 128"] L(3) by (simp add: print_seglist_def mem_heap_lo_def)
qed

lemma print_heap_spec:
  assumes core: "heap_core {} s bs fl"
  shows "print_heap s = Some (word_dump (words s) (lo s) ((hi s - lo s) div 4))"
proof -
  have r: "region_ok s" using core by (rule heap_core_region)
  then have L: "lo s + 144 \<le> hi s" "8 dvd lo s" "hi s < 4294967296"
    using unat_lt32 [of "mem_brk s"] by (simp_all add: region_ok_def)
  have "8 dvd hi s" using chain_dvd [OF heap_core_chain [OF core]] L(2) by simp
  with L(1,2) have d: "lo s + 4 * ((hi s - lo s) div 4) = hi s" by presburger
  have "cell s (lo s + 4 * i) \<and> lo s + 4 * i \<le> hi s - 1" if i: "i < (hi s - lo s) div 4" for i
  proof
    have "lo s + 4 * i + 4 \<le> hi s" using i d by linarith
    moreover have "4 dvd lo s + 4 * i" using L(2) by presburger
    ultimately show "cell s (lo s + 4 * i)" "lo s + 4 * i \<le> hi s - 1"
      by (auto intro: region_cell [OF r])
  qed
  moreover have "mem_heap_hi s = w32 (hi s - 1)" using unat_heap_hi [OF r] by (metis w32_unat)
  ultimately show ?thesis
    using print_words_spec [of "(hi s - lo s) div 4" s "lo s" "hi s - 1"] d L
    by (simp add: print_heap_def mem_heap_lo_def)
qed

text \<open>What the lines show: the tags of every block, and the first block of every list.\<close>

lemma dump_tags:
  assumes core: "heap_core {} s bs fl" and b: "Blk p n u \<in> set bs"
  defines "d \<equiv> word_dump (words s) (lo s) ((hi s - lo s) div 4)"
  shows "(w32 (p - 4), tag n u) \<in> set d" "(w32 (p + n - 8), tag n u) \<in> set d"
proof -
  note B = core_block [OF core b] and t = core_tags [OF core b]
  have r: "8 dvd lo s" "8 dvd hi s" "lo s \<le> hi s"
    using heap_core_region [OF core] chain_dvd [OF heap_core_chain [OF core]] by (simp_all add: region_ok_def)
  then have e: "lo s + 4 * ((hi s - lo s) div 4) = hi s" by presburger
  have "4 dvd p - 4 - lo s" "4 dvd p + n - 8 - lo s"
    using r(1) B(4,5) by (auto intro!: dvd_diff_nat dvd_add intro: dvd_trans [of 4 "8 :: nat"])
  with B e have "(w32 (p - 4), words s (p - 4)) \<in> set d" "(w32 (p + n - 8), words s (p + n - 8)) \<in> set d"
    unfolding d_def by (intro word_dump_mem; simp)+
  with t show "(w32 (p - 4), tag n u) \<in> set d" "(w32 (p + n - 8), tag n u) \<in> set d" by simp_all
qed

lemma dump_length:
  assumes core: "heap_core {} s bs fl"
  shows "lo s + 4 * ((hi s - lo s) div 4) = hi s" "33 \<le> (hi s - lo s) div 4"
proof -
  have r: "8 dvd lo s" "8 dvd hi s" "lo s + 144 \<le> hi s"
    using heap_core_region [OF core] chain_dvd [OF heap_core_chain [OF core]] by (simp_all add: region_ok_def)
  then show "lo s + 4 * ((hi s - lo s) div 4) = hi s" "33 \<le> (hi s - lo s) div 4" by presburger+
qed

lemma dump_bucket:
  assumes core: "heap_core {} s bs fl" and k: "k < 32"
  shows "words s (lo s + 4 * k) = (if fl k = [] then 0 else w32 (hd (fl k)))"
    "words s (lo s + 4 * k) \<noteq> 0 \<longleftrightarrow> (\<exists>p n. Blk p n False \<in> set bs \<and> bucket_index n = k)"
proof -
  have l: "bucket_list (words s) (lo s + 4 * k) (fl k)" "set (fl k) = free_in bs k"
    using core k by (simp_all add: heap_core_def)
  show e: "words s (lo s + 4 * k) = (if fl k = [] then 0 else w32 (hd (fl k)))" by (rule bucket_head [OF l(1)])
  have "w32 (hd (fl k)) \<noteq> 0" if "fl k \<noteq> []"
  proof -
    have "hd (fl k) \<in> free_in bs k" using that l(2) by (metis hd_in_set)
    then obtain n where "Blk (hd (fl k)) n False \<in> set bs" by (auto simp: free_in_def)
    from core_block [OF core this] show ?thesis by (simp add: w32_eq_0)
  qed
  then have "words s (lo s + 4 * k) \<noteq> 0 \<longleftrightarrow> free_in bs k \<noteq> {}" using e l(2) by auto
  then show "words s (lo s + 4 * k) \<noteq> 0 \<longleftrightarrow> (\<exists>p n. Blk p n False \<in> set bs \<and> bucket_index n = k)"
    by (auto simp: free_in_def)
qed

text \<open>The self-test, step by step, on storage at any aligned address.\<close>

lemma mm_malloc_40:
  assumes inv: "heap_inv s (xs @ [Blk p k False]) fl" and xs: "\<forall>b \<in> set xs. used b" and k: "104 \<le> k"
  shows "\<exists>W fl'. mm_malloc 40 s = Some (w32 (p + 8), s\<lparr>words := W\<rparr>)
    \<and> heap_inv (s\<lparr>words := W\<rparr>) (xs @ [Blk p 72 True, Blk (p + 72) (k - 72) False]) fl'"
proof -
  have r: "request 40 = 72" by (simp add: request_def)
  obtain ys q m zs W fl' where *: "xs @ [Blk p k False] = ys @ Blk q m False # zs"
    "mm_malloc (w32 40) s = Some (w32 (q + 8), s\<lparr>words := W\<rparr>)"
    "heap_inv (s\<lparr>words := W\<rparr>) (placed ys q m (request 40) zs) fl'"
    using mm_malloc_fit [OF inv, of 40 p k] k r by auto
  have "Blk q m False \<notin> set xs" using xs by auto
  with *(1) have q: "ys = xs" "q = p" "m = k" "zs = []"
    by (auto simp: append_eq_append_conv2 Cons_eq_append_conv append_eq_Cons_conv)
  have "32 \<le> k - 72" using k by simp
  then have "placed ys q m (request 40) zs = xs @ [Blk p 72 True, Blk (p + 72) (k - 72) False]"
    by (simp add: placed_def q r)
  with *(2,3) q(2) show ?thesis by (simp add: w32_numeral) blast
qed

lemma mm_main_spec:
  assumes "0 < a" "8 dvd a" "a + MAX_HEAP < 4294967296"
  shows "\<exists>t fl. mm_main (w32 a) contents s = Some (0, 0, t) \<and> heap_inv t [Blk (a + 144) 4096 False] fl"
proof -
  obtain s0 where s0: "mem_init (w32 a) contents s = Some s0" "fresh_heap s0" "lo s0 = a"
    using mem_init_fresh [OF assms] by blast
  obtain s1 fl1 where s1: "mm_init s0 = Some (0, s1)" "heap_inv s1 ([] @ [Blk (a + 144) 4096 False]) fl1"
    using mm_init_spec [OF s0(2)] s0(3) by auto
  obtain s2 fl2 where s2: "mm_malloc 40 s1 = Some (w32 (a + 152), s2)"
    "heap_inv s2 ([Blk (a + 144) 72 True] @ [Blk (a + 216) 4024 False]) fl2"
    using mm_malloc_40 [OF s1(2)] by (auto simp: add.assoc)
  obtain s3 fl3 where s3: "mm_malloc 40 s2 = Some (w32 (a + 224), s3)"
    "heap_inv s3 ([Blk (a + 144) 72 True, Blk (a + 216) 72 True] @ [Blk (a + 288) 3952 False]) fl3"
    using mm_malloc_40 [OF s2(2)] by (auto simp: add.assoc)
  obtain s4 fl4 where s4: "mm_malloc 40 s3 = Some (w32 (a + 296), s4)"
    "heap_inv s4 ([] @ Blk (a + 144) 72 True # [Blk (a + 216) 72 True, Blk (a + 288) 72 True,
       Blk (a + 360) 3880 False]) fl4"
    using mm_malloc_40 [OF s3(2)] by (auto simp: add.assoc)
  obtain s5 fl5 where s5: "mm_free (w32 (a + 152)) s4 = Some s5"
    "heap_inv s5 ([Blk (a + 144) 72 False] @ Blk (a + 216) 72 True # [Blk (a + 288) 72 True,
       Blk (a + 360) 3880 False]) fl5"
    using mm_free_spec [OF s4(2)] by (fastforce simp: join_free_def prev_used_def next_used_def add.assoc)
  obtain s6 fl6 where s6: "mm_free (w32 (a + 224)) s5 = Some s6"
    "heap_inv s6 ([Blk (a + 144) 144 False] @ Blk (a + 288) 72 True # [Blk (a + 360) 3880 False]) fl6"
    using mm_free_spec [OF s5(2)] by (fastforce simp: join_free_def prev_used_def next_used_def add.assoc)
  obtain s7 fl7 where s7: "mm_free (w32 (a + 296)) s6 = Some s7"
    "heap_inv s7 [Blk (a + 144) 4096 False] fl7"
    using mm_free_spec [OF s6(2)] by (fastforce simp: join_free_def prev_used_def next_used_def add.assoc)
  have "mm_check s7 = Some 0" using mm_check_verdict [OF s7(2)] by simp
  with s0(1) s1(1) s2(1) s3(1) s4(1) s5(1) s6(1) s7 print_heap_spec [OF heap_inv_core [OF s7(2)]]
  show ?thesis by (simp add: mm_main_def) blast
qed

end
