(* ===== verification/Sbrk_Calls.thy ===== *)
theory Sbrk_Calls
  imports Memlib
begin

text \<open>
  Sequences of calls of \<^verbatim>\<open>memlib.c\<close>. The heap it simulates is specified by the list of the
  increments granted since it was empty; the areas the calls returned follow from it.
\<close>

section \<open>The calls and their specification\<close>

datatype mem_call = Sbrk u32 | Reset_brk

text \<open>The areas the caller holds, as addresses and sizes: a reset gives back all of them.\<close>

fun mem_calls :: "mem_call list \<Rightarrow> (nat \<times> nat) list \<Rightarrow> 'a memlib_scheme \<Rightarrow> (nat \<times> nat) list \<times> 'a memlib_scheme" where
  "mem_calls [] rs s = (rs, s)"
| "mem_calls (Sbrk n # cs) rs s =
     (let (p, t) = mem_sbrk n s
      in mem_calls cs (if p = - 1 then rs else rs @ [(unat p, unat n)]) t)"
| "mem_calls (Reset_brk # cs) rs s = mem_calls cs [] (mem_reset_brk s)"

text \<open>
  The specification: a call is granted if its increment is not negative and \<open>room\<close> is not
  exceeded; the flag tells that a call has failed.
\<close>

fun granted :: "nat \<Rightarrow> mem_call list \<Rightarrow> nat list \<times> bool \<Rightarrow> nat list \<times> bool" where
  "granted room [] (ns, failed) = (ns, failed)"
| "granted room (Sbrk n # cs) (ns, failed) =
     granted room cs (if 0 \<le> sint n \<and> sum_list ns + unat n \<le> room then (ns @ [unat n], failed) else (ns, True))"
| "granted room (Reset_brk # cs) (ns, failed) = granted room cs ([], failed)"

text \<open>Areas of these sizes, one after the other from \<open>a\<close>.\<close>

fun areas :: "nat \<Rightarrow> nat list \<Rightarrow> (nat \<times> nat) list" where
  "areas a [] = []"
| "areas a (n # ns) = (a, n) # areas (a + n) ns"

lemma areas_snoc: "areas a (ns @ [n]) = areas a ns @ [(a + sum_list ns, n)]"
  by (induction ns arbitrary: a) (simp_all add: add.assoc)

lemma areas_within: "(x, n) \<in> set (areas a ns) \<Longrightarrow> a \<le> x \<and> x + n \<le> a + sum_list ns"
  by (induction ns arbitrary: a) fastforce+

lemma areas_apart: "sorted_wrt (\<lambda>(x, n) (y, m). x + n \<le> y) (areas a ns)"
  by (induction ns arbitrary: a) (auto dest: areas_within)

section \<open>The simulation\<close>

text \<open>The heap after the increments \<open>ns\<close>.\<close>

definition brk_at :: "u32 \<Rightarrow> nat list \<Rightarrow> 'a memlib_scheme \<Rightarrow> bool" where
  "brk_at a ns s \<longleftrightarrow> mem_start_brk s = a \<and> mem_max_addr s = a + w32 MAX_HEAP
     \<and> mem_brk s = w32 (unat a + sum_list ns) \<and> sum_list ns \<le> MAX_HEAP"

text \<open>No sum of the break and an increment passes the end of the address space.\<close>

definition no_wrap :: "u32 \<Rightarrow> mem_call \<Rightarrow> bool" where
  "no_wrap a c \<longleftrightarrow> (\<forall>n. c = Sbrk n \<longrightarrow> sint n < 0 \<or> unat a + MAX_HEAP + unat n < 4294967296)"

lemma sbrk_granted:
  assumes b: "brk_at a ns s" and a: "unat a + MAX_HEAP < 4294967295" and w: "no_wrap a (Sbrk n)"
  shows "if 0 \<le> sint n \<and> sum_list ns + unat n \<le> MAX_HEAP
    then mem_sbrk n s = (w32 (unat a + sum_list ns), s\<lparr>mem_brk := w32 (unat a + sum_list (ns @ [unat n]))\<rparr>)
    else mem_sbrk n s = (- 1, s\<lparr>errno := ENOMEM\<rparr>)"
proof (cases "sint n < 0")
  case True
  then show ?thesis by (simp add: mem_sbrk_def)
next
  case False
  with w have n: "unat a + MAX_HEAP + unat n < 4294967296" by (simp add: no_wrap_def)
  have p: "mem_brk s = w32 (unat a + sum_list ns)" "sum_list ns \<le> MAX_HEAP" "mem_max_addr s = w32 (unat a + MAX_HEAP)"
    using b by (simp_all add: brk_at_def w32_add [symmetric])
  have "mem_brk s + n = w32 (unat a + sum_list ns + unat n)" by (simp add: p(1) w32_add [of _ "unat n", symmetric])
  moreover have "mem_max_addr s < w32 (unat a + sum_list ns + unat n) \<longleftrightarrow> \<not> sum_list ns + unat n \<le> MAX_HEAP"
    using a n p(2,3) by (simp add: word_less_nat_alt unat_w32 not_le)
  ultimately show ?thesis using False p(1) by (auto simp: mem_sbrk_def add.assoc)
qed

lemma mem_calls_granted:
  assumes a: "unat a + MAX_HEAP < 4294967295"
  shows "brk_at a ns s \<Longrightarrow> \<forall>c \<in> set cs. no_wrap a c \<Longrightarrow> granted MAX_HEAP cs (ns, failed) = (ms, failed') \<Longrightarrow>
    errno s = (if failed then ENOMEM else e) \<Longrightarrow>
    mem_calls cs (areas (unat a) ns) s = (areas (unat a) ms,
        s\<lparr>mem_brk := w32 (unat a + sum_list ms), errno := if failed' then ENOMEM else e\<rparr>)
      \<and> sum_list ms \<le> MAX_HEAP"
proof (induction cs arbitrary: ns failed s)
  case Nil
  then show ?case by (cases s) (auto simp: brk_at_def)
next
  case (Cons c cs)
  show ?case
  proof (cases c)
    case Reset_brk
    let ?t = "mem_reset_brk s"
    have "brk_at a [] ?t" using Cons.prems(1) by (simp add: brk_at_def mem_reset_brk_def)
    from Cons.IH [OF this _ _, of failed] Cons.prems(2-4) Reset_brk show ?thesis
      by (simp add: mem_reset_brk_def)
  next
    case (Sbrk n)
    have w: "no_wrap a (Sbrk n)" using Cons.prems(2) Sbrk by simp
    note sbrk = sbrk_granted [OF Cons.prems(1) a w]
    show ?thesis
    proof (cases "0 \<le> sint n \<and> sum_list ns + unat n \<le> MAX_HEAP")
      case True
      let ?p = "unat a + sum_list ns" and ?t = "s\<lparr>mem_brk := w32 (unat a + sum_list (ns @ [unat n]))\<rparr>"
      have p: "unat (w32 ?p) = ?p" "w32 ?p \<noteq> - 1"
      proof -
        show e: "unat (w32 ?p) = ?p" using a True by (simp add: unat_w32)
        have "unat (- 1 :: u32) = 4294967295" by (simp add: unsigned_minus_1_eq_mask mask_eq_exp_minus_1)
        moreover have "?p < 4294967295" using a True by simp
        ultimately show "w32 ?p \<noteq> - 1" using e by (metis less_irrefl)
      qed
      have "brk_at a (ns @ [unat n]) ?t" using Cons.prems(1) True by (simp add: brk_at_def)
      from Cons.IH [OF this, of failed] Cons.prems(2-4) Sbrk True sbrk p show ?thesis
        by (simp add: areas_snoc)
    next
      case False
      let ?t = "s\<lparr>errno := ENOMEM\<rparr>"
      have "brk_at a ns ?t" using Cons.prems(1) by (simp add: brk_at_def)
      from Cons.IH [OF this, of True] Cons.prems(2,3) Sbrk False sbrk show ?thesis by auto
    qed
  qed
qed

text \<open>Without the bound the sum wraps: a large increment is granted, and the break moves down.\<close>

lemma sbrk_wraps:
  assumes "0 \<le> sint n" "4294967296 \<le> unat (mem_brk s) + unat n" "mem_brk s \<le> mem_max_addr s"
  shows "mem_sbrk n s = (mem_brk s, s\<lparr>mem_brk := mem_brk s + n\<rparr>) \<and> mem_brk s + n < mem_brk s"
proof -
  have "unat (mem_brk s + n) = unat (mem_brk s) + unat n - 4294967296"
    using assms(2) unat_lt32 [of "mem_brk s"] unat_lt32 [of n] by (simp add: unat_word_ariths mod_if)
  then have "mem_brk s + n < mem_brk s"
    using assms(2) unat_lt32 [of n] by (simp add: word_less_nat_alt)
  with assms(1,3) show ?thesis by (auto simp: mem_sbrk_def)
qed

lemma brk_bounds:
  assumes "a \<noteq> 0" "unat a + MAX_HEAP < 4294967295" "n \<le> MAX_HEAP"
  shows "unat (w32 (unat a + n) - 1) + 1 = unat a + n" "unat (w32 (unat a + n) - a) = n"
proof -
  have "0 < unat a" using assms(1) by (simp add: unat_gt_0)
  then have "w32 (unat a + n) - 1 = w32 (unat a + n - 1)" using w32_sub [of 1 "unat a + n"] by (simp add: w32_def)
  with \<open>0 < unat a\<close> assms(2,3) show "unat (w32 (unat a + n) - 1) + 1 = unat a + n" by (simp add: unat_w32)
  have "w32 (unat a + n) - a = w32 n" by (simp add: w32_add [symmetric])
  with assms(2,3) show "unat (w32 (unat a + n) - a) = n" by (simp add: unat_w32)
qed

lemma mem_init_granted:
  assumes init: "mem_init storage contents s = Some s0" and a: "unat storage + MAX_HEAP < 4294967295"
    and w: "\<forall>n. Sbrk n \<in> set cs \<longrightarrow> sint n < 0 \<or> unat storage + MAX_HEAP + unat n < 4294967296"
    and g: "granted MAX_HEAP cs ([], False) = (ns, failed)"
  shows "mem_calls cs [] s0 = (areas (unat storage) ns,
      s0\<lparr>mem_brk := w32 (unat storage + sum_list ns), errno := if failed then ENOMEM else errno s0\<rparr>)
    \<and> sum_list ns \<le> MAX_HEAP"
proof -
  have "brk_at storage [] s0" using init by (auto simp: brk_at_def mem_init_def split: if_splits)
  moreover have "\<forall>c \<in> set cs. no_wrap storage c" using w by (auto simp: no_wrap_def)
  ultimately show ?thesis using mem_calls_granted [OF a, of "[]" s0 cs False] g by simp
qed

end
