(* ===== verification/Trace.thy ===== *)
theory Trace
  imports Malloc
begin

text \<open>
  The data of the trace driver \<^verbatim>\<open>mdriver.c\<close>: trace requests and traces, the driver's own state
  on top of the allocator's, its error log, and the loop over the requests of a trace that
  all its evaluation functions share.

  An \<open>int\<close> is kept as its 32-bit word and read with \<open>sint\<close> where the code's comparison is
  signed. The arrays of a trace are lists: an access outside them is undefined, \<open>None\<close>, and an
  element that was never assigned has the value the list was made with (memory from
  \<open>malloc\<close> has unspecified contents).
\<close>

section \<open>Requests and traces\<close>

datatype optype = ALLOC | FREE | REALLOC

record traceop =
  op_type :: optype
  op_index :: u32
  op_size :: u32

record trace =
  sugg_heapsize :: u32
  num_ids :: u32
  num_ops :: u32
  weight :: u32
  ops :: "traceop list"
  blocks :: "u32 list"
  block_sizes :: "u32 list"

definition read_at :: "'a list \<Rightarrow> u32 \<Rightarrow> 'a option" where
  "read_at xs i = (if unat i < length xs then Some (xs ! unat i) else None)"

definition write_at :: "'a list \<Rightarrow> u32 \<Rightarrow> 'a \<Rightarrow> 'a list option" where
  "write_at xs i v = (if unat i < length xs then Some (xs[unat i := v]) else None)"

definition set_block :: "u32 \<Rightarrow> u32 \<Rightarrow> trace \<Rightarrow> trace option" where
  "set_block i p t = do { bs \<leftarrow> write_at (blocks t) i p; Some (t\<lparr>blocks := bs\<rparr>) }"

definition set_block_size :: "u32 \<Rightarrow> u32 \<Rightarrow> trace \<Rightarrow> trace option" where
  "set_block_size i n t = do { ns \<leftarrow> write_at (block_sizes t) i n; Some (t\<lparr>block_sizes := ns\<rparr>) }"

section \<open>The state of the driver\<close>

text \<open>
  What \<open>malloc_error\<close> is told; the formatted messages of \<open>add_range\<close> by the values they show.
\<close>

datatype message =
    Not_aligned u32
  | Outside_heap u32 u32 u32 u32
  | Overlaps u32 u32 u32 u32
  | Message string

record driver = mm_state +
  errors :: u32
  report :: "(int \<times> int \<times> message) list"
  ranges :: "(u32 \<times> u32) list"

definition LINENUM :: "int \<Rightarrow> int" where
  "LINENUM i = i + 5"

definition malloc_error :: "int \<Rightarrow> int \<Rightarrow> message \<Rightarrow> 'a driver_scheme \<Rightarrow> 'a driver_scheme" where
  "malloc_error tracenum opnum msg s =
     s\<lparr>errors := errors s + 1, report := report s @ [(tracenum, LINENUM opnum, msg)]\<rparr>"

section \<open>The loop over the requests\<close>

text \<open>
  \<^verbatim>\<open>for (i = 0; i < trace->num_ops; i++)\<close> with a body that may return early: the body yields
  the value to return, if any, and the state. \<open>op_numbers\<close> lists the values of \<open>i\<close>.
\<close>

fun for_each :: "(nat \<Rightarrow> 's \<Rightarrow> ('r option \<times> 's) option) \<Rightarrow> nat list \<Rightarrow> 's \<Rightarrow> ('r option \<times> 's) option" where
  "for_each body [] s = Some (None, s)"
| "for_each body (i # is) s = do {
     (r, s) \<leftarrow> body i s;
     (case r of None \<Rightarrow> for_each body is s | Some v \<Rightarrow> Some (Some v, s)) }"

definition op_numbers :: "trace \<Rightarrow> nat list" where
  "op_numbers t = [0..<nat (sint (num_ops t))]"

definition op_at :: "trace \<Rightarrow> nat \<Rightarrow> traceop option" where
  "op_at t i = (if i < length (ops t) then Some (ops t ! i) else None)"

text \<open>
  The rule for such a loop: an invariant over the requests still to come, which every body
  keeps unless it returns, and a property of the early returns.
\<close>

lemma for_each_rule:
  assumes "I 0 s" and len: "length is = n"
    and step: "\<And>k s. k < n \<Longrightarrow> I k s \<Longrightarrow>
      body (is ! k) s = None \<and> F \<or> (\<exists>t. body (is ! k) s = Some (None, t) \<and> I (Suc k) t)
      \<or> (\<exists>v t. body (is ! k) s = Some (Some v, t) \<and> R v t)"
  shows "for_each body is s = None \<and> F \<or> (\<exists>t. for_each body is s = Some (None, t) \<and> I n t)
    \<or> (\<exists>v t. for_each body is s = Some (Some v, t) \<and> R v t)"
proof -
  have "for_each body (drop k is) s = None \<and> F
      \<or> (\<exists>t. for_each body (drop k is) s = Some (None, t) \<and> I n t)
      \<or> (\<exists>v t. for_each body (drop k is) s = Some (Some v, t) \<and> R v t)"
    if "k \<le> n" "I k s" for k s
    using that
  proof (induction "n - k" arbitrary: k s)
    case 0
    then show ?case using len by simp
  next
    case (Suc d)
    then have k: "k < n" by simp
    then have d: "drop k is = is ! k # drop (Suc k) is" using len by (simp add: Cons_nth_drop_Suc)
    have rest: "for_each body (drop (Suc k) is) t = None \<and> F
        \<or> (\<exists>t'. for_each body (drop (Suc k) is) t = Some (None, t') \<and> I n t')
        \<or> (\<exists>v t'. for_each body (drop (Suc k) is) t = Some (Some v, t') \<and> R v t')"
      if "I (Suc k) t" for t
      using Suc.hyps(1) [of "Suc k" t] Suc.hyps(2) k that by simp
    from step [OF k Suc.prems(2)] show ?case
    proof (elim disjE exE conjE)
      fix t assume b: "body (is ! k) s = Some (None, t)" "I (Suc k) t"
      then have "for_each body (drop k is) s = for_each body (drop (Suc k) is) t" by (simp add: d)
      with rest [OF b(2)] show ?thesis by simp
    qed (simp_all add: d)
  qed
  from this [of 0 s] assms(1) show ?thesis by simp
qed

end
