(* ===== verification/Requests.thy ===== *)
theory Requests
  imports Trace
begin

text \<open>
  What the requests of a trace ask for, apart from any allocator: which identifiers are in use
  after each request and with which sizes, when a trace is well formed, and how the arrays
  \<open>blocks\<close> and \<open>block_sizes\<close> the driver keeps follow the payloads an allocator gave it.
\<close>

section \<open>The demand of a trace\<close>

definition next_sizes :: "traceop \<Rightarrow> (nat \<rightharpoonup> nat) \<Rightarrow> (nat \<rightharpoonup> nat)" where
  "next_sizes op S = (case op_type op of
     FREE \<Rightarrow> S(unat (op_index op) := None)
   | _ \<Rightarrow> S(unat (op_index op) \<mapsto> unat (op_size op)))"

definition sizes_after :: "traceop list \<Rightarrow> (nat \<rightharpoonup> nat)" where
  "sizes_after ops' = fold next_sizes ops' Map.empty"

lemma sizes_after_step:
  "k < length xs \<Longrightarrow> sizes_after (take (Suc k) xs) = next_sizes (xs ! k) (sizes_after (take k xs))"
  by (simp add: sizes_after_def take_Suc_conv_app_nth)

lemma sizes_after_Nil [simp]: "sizes_after [] = Map.empty"
  by (simp add: sizes_after_def)

text \<open>
  A well-formed trace: identifiers are taken when free and released when taken, sizes are
  between 1 and \<open>N\<close>, and the arrays have the length the header of the trace announces.
\<close>

definition request_ok :: "nat \<Rightarrow> (nat \<rightharpoonup> nat) \<Rightarrow> traceop \<Rightarrow> bool" where
  "request_ok N S op \<longleftrightarrow> (case op_type op of
     ALLOC \<Rightarrow> unat (op_index op) \<notin> dom S \<and> 0 < unat (op_size op) \<and> unat (op_size op) \<le> N
   | REALLOC \<Rightarrow> unat (op_index op) \<in> dom S \<and> 0 < unat (op_size op) \<and> unat (op_size op) \<le> N
   | FREE \<Rightarrow> unat (op_index op) \<in> dom S)"

definition trace_ok :: "nat \<Rightarrow> trace \<Rightarrow> bool" where
  "trace_ok N t \<longleftrightarrow> sint (num_ops t) = int (length (ops t))
     \<and> length (blocks t) = unat (num_ids t) \<and> length (block_sizes t) = unat (num_ids t)
     \<and> (\<forall>k < length (ops t). unat (op_index (ops t ! k)) < unat (num_ids t)
          \<and> request_ok N (sizes_after (take k (ops t))) (ops t ! k))"

lemma trace_okD:
  assumes "trace_ok N t"
  shows "op_numbers t = [0..<length (ops t)]" "length (blocks t) = unat (num_ids t)"
    "length (block_sizes t) = unat (num_ids t)"
    "k < length (ops t) \<Longrightarrow> unat (op_index (ops t ! k)) < unat (num_ids t)"
    "k < length (ops t) \<Longrightarrow> request_ok N (sizes_after (take k (ops t))) (ops t ! k)"
  using assms by (simp_all add: trace_ok_def op_numbers_def)

text \<open>The same, request by request: how a concrete trace is checked.\<close>

fun requests_ok :: "nat \<Rightarrow> nat \<Rightarrow> (nat \<rightharpoonup> nat) \<Rightarrow> traceop list \<Rightarrow> bool" where
  "requests_ok N nids S [] \<longleftrightarrow> True"
| "requests_ok N nids S (op # ops') \<longleftrightarrow> unat (op_index op) < nids \<and> request_ok N S op
     \<and> requests_ok N nids (next_sizes op S) ops'"

lemma requests_ok_all:
  "requests_ok N nids S xs \<longleftrightarrow> (\<forall>k < length xs. unat (op_index (xs ! k)) < nids
     \<and> request_ok N (fold next_sizes (take k xs) S) (xs ! k))"
  by (induction xs arbitrary: S) (auto simp: All_less_Suc2)

lemma trace_ok_check:
  "trace_ok N t \<longleftrightarrow> sint (num_ops t) = int (length (ops t)) \<and> length (blocks t) = unat (num_ids t)
     \<and> length (block_sizes t) = unat (num_ids t) \<and> requests_ok N (unat (num_ids t)) Map.empty (ops t)"
  by (simp add: trace_ok_def requests_ok_all sizes_after_def)

lemma sizes_after_bounds:
  assumes "trace_ok N t" "k \<le> length (ops t)" "sizes_after (take k (ops t)) ix = Some n"
  shows "ix < unat (num_ids t)" "0 < n" "n \<le> N"
proof -
  have "ix < unat (num_ids t) \<and> 0 < n \<and> n \<le> N"
    using assms(2,3)
  proof (induction k arbitrary: ix n)
    case 0
    then show ?case by simp
  next
    case (Suc k)
    then have k: "k < length (ops t)" by simp
    from sizes_after_step [OF k] Suc.prems(2)
    have "next_sizes (ops t ! k) (sizes_after (take k (ops t))) ix = Some n" by simp
    with Suc.IH [of ix n] trace_okD(4,5) [OF assms(1) k] k show ?case
      by (auto simp: next_sizes_def request_ok_def split: optype.splits if_splits)
  qed
  then show "ix < unat (num_ids t)" "0 < n" "n \<le> N" by simp_all
qed

section \<open>The arrays of the driver\<close>

text \<open>
  \<open>A\<close> gives the address and the size of the payload of every identifier in use, \<open>C\<close> the
  contents of the payloads, and \<open>Q\<close> what is known of them.
\<close>

definition tracked ::
    "(nat \<Rightarrow> u8 list \<Rightarrow> bool) \<Rightarrow> (nat \<rightharpoonup> nat \<times> nat) \<Rightarrow> u32 list \<Rightarrow> (nat \<rightharpoonup> u8 list) \<Rightarrow> bool" where
  "tracked Q A bs C \<longleftrightarrow>
     (\<forall>ix a n. A ix = Some (a, n) \<longrightarrow> ix < length bs \<and> bs ! ix = w32 a
        \<and> (\<exists>c. C a = Some c \<and> length c = n \<and> Q ix c))
     \<and> (\<forall>ix ix' a n n'. A ix = Some (a, n) \<longrightarrow> A ix' = Some (a, n') \<longrightarrow> ix' = ix)"

definition sized :: "(nat \<rightharpoonup> nat) \<Rightarrow> u32 list \<Rightarrow> bool" where
  "sized S ns \<longleftrightarrow> (\<forall>ix n. S ix = Some n \<longrightarrow> ix < length ns \<and> ns ! ix = w32 n)"

definition sizes_of :: "(nat \<rightharpoonup> nat \<times> nat) \<Rightarrow> (nat \<rightharpoonup> nat)" where
  "sizes_of A = (\<lambda>ix. map_option snd (A ix))"

lemma dom_sizes_of [simp]: "dom (sizes_of A) = dom A"
  by (auto simp: sizes_of_def)

lemma sizes_of_upd [simp]:
  "sizes_of (A(ix \<mapsto> (a, n))) = (sizes_of A)(ix \<mapsto> n)"
  "sizes_of (A(ix := None)) = (sizes_of A)(ix := None)"
  "sizes_of Map.empty = Map.empty"
  by (auto simp: sizes_of_def)

lemma sizes_ofE: "sizes_of A ix = Some n \<Longrightarrow> \<exists>a. A ix = Some (a, n)"
  by (auto simp: sizes_of_def)

lemma tracked_empty [simp]: "tracked Q Map.empty bs C"
  by (simp add: tracked_def)

lemma sized_empty [simp]: "sized Map.empty ns"
  by (simp add: sized_def)

lemma trackedD:
  assumes "tracked Q A bs C" "A ix = Some (a, n)"
  obtains c where "ix < length bs" "bs ! ix = w32 a" "C a = Some c" "length c = n" "Q ix c"
  using assms unfolding tracked_def by blast

lemma sized_read: "sized S ns \<Longrightarrow> S (unat i) = Some n \<Longrightarrow> read_at ns i = Some (w32 n)"
  by (simp add: sized_def read_at_def)

lemma tracked_read:
  "tracked Q A bs C \<Longrightarrow> A (unat i) = Some (a, n) \<Longrightarrow> read_at bs i = Some (w32 a)"
  by (auto simp: tracked_def read_at_def)

lemma tracked_remove:
  assumes t: "tracked Q A bs C" and a: "A ix = Some (a, n)"
  shows "tracked Q (A(ix := None)) bs (C(a := None))"
proof -
  have "b \<noteq> a" if "A ix' = Some (b, m)" "ix' \<noteq> ix" for ix' b m
    using t that a unfolding tracked_def by metis
  with t show ?thesis unfolding tracked_def by (auto split: if_splits)
qed

lemma tracked_add:
  assumes t: "tracked Q A bs C" and C: "C a = None" and ix: "ix < length bs" "A ix = None"
    and c: "Q ix c" "length c = n"
  shows "tracked Q (A(ix \<mapsto> (a, n))) (bs[ix := w32 a]) (C(a \<mapsto> c))"
proof -
  have "b \<noteq> a" if "A ix' = Some (b, m)" for ix' b m
    using t that C unfolding tracked_def by fastforce
  with t ix c show ?thesis
    unfolding tracked_def by (auto split: if_splits simp: nth_list_update)
qed

lemma sized_upd: "sized S ns \<Longrightarrow> ix < length ns \<Longrightarrow> sized (S(ix \<mapsto> n)) (ns[ix := w32 n])"
  by (auto simp: sized_def nth_list_update)

lemma sized_remove: "sized S ns \<Longrightarrow> sized (S(ix := None)) ns"
  by (auto simp: sized_def)

text \<open>The same requests, with arrays of the same length.\<close>

definition same_trace :: "trace \<Rightarrow> trace \<Rightarrow> bool" where
  "same_trace t u \<longleftrightarrow> ops u = ops t \<and> num_ops u = num_ops t \<and> num_ids u = num_ids t
     \<and> length (blocks u) = unat (num_ids t) \<and> length (block_sizes u) = unat (num_ids t)"

lemma same_trace_ok: "same_trace t u \<Longrightarrow> trace_ok N t \<Longrightarrow> trace_ok N u"
  by (simp add: same_trace_def trace_ok_def)

lemma same_trace_refl: "trace_ok N t \<Longrightarrow> same_trace t t"
  by (simp add: same_trace_def trace_ok_def)

text \<open>The sum of the sizes in use, over the identifiers a trace has.\<close>

definition total :: "nat \<Rightarrow> (nat \<rightharpoonup> nat) \<Rightarrow> nat" where
  "total nids S = (\<Sum>ix<nids. case S ix of None \<Rightarrow> 0 | Some n \<Rightarrow> n)"

lemma total_upd:
  assumes "ix < nids"
  shows "total nids (S(ix := v)) + (case S ix of None \<Rightarrow> 0 | Some n \<Rightarrow> n)
    = total nids S + (case v of None \<Rightarrow> 0 | Some n \<Rightarrow> n)"
  using assms by (simp add: total_def sum.remove [of "{..<nids}" ix])

text \<open>
  Payloads that do not overlap are together no larger than the space they lie in.
\<close>

lemma disjoint_intervals_sum:
  fixes size' :: "'i \<Rightarrow> nat"
  assumes fin: "finite I" and inside: "\<And>i. i \<in> I \<Longrightarrow> l \<le> start i \<and> start i + size' i \<le> h"
    and apart: "\<And>i j. i \<in> I \<Longrightarrow> j \<in> I \<Longrightarrow> i \<noteq> j \<Longrightarrow>
      start i + size' i \<le> start j \<or> start j + size' j \<le> start i"
  shows "sum size' I \<le> h - l"
proof -
  let ?S = "\<lambda>i. {start i..<start i + size' i}"
  have "?S i \<inter> ?S j = {}" if "i \<in> I" "j \<in> I" "i \<noteq> j" for i j
    using apart [OF that] by auto
  then have "card (\<Union> (?S ` I)) = (\<Sum>i\<in>I. card (?S i))"
    using fin by (intro card_UN_disjoint) auto
  moreover have "\<Union> (?S ` I) \<subseteq> {l..<h}" using inside by fastforce
  then have "card (\<Union> (?S ` I)) \<le> card {l..<h}" by (intro card_mono) auto
  ultimately show ?thesis by simp
qed

end
