(* ===== verification/Replay.thy ===== *)
theory Replay
  imports Client Requests
begin

text \<open>
  Requests of a trace replayed on the package: what each call returns and that the driver's
  \<open>blocks\<close> array follows the payloads. Shared by the evaluation functions of
  \<^verbatim>\<open>mdriver.c\<close>.
\<close>

section \<open>When the storage is nearly used up\<close>

definition near_full :: "nat \<Rightarrow> 'a memlib_scheme \<Rightarrow> bool" where
  "near_full N s \<longleftrightarrow> lo s + MAX_HEAP < hi s + max (N + 39) 4096 + 8"

lemma near_fullI: "lo s + MAX_HEAP < hi s + max (n + 39) 4096 + k \<Longrightarrow> n \<le> N \<Longrightarrow> k \<le> 8 \<Longrightarrow> near_full N s"
  unfolding near_full_def by linarith

text \<open>
  A trace for which the storage is large enough whatever the fragmentation: each request
  extends the heap by at most one step.
\<close>

definition room :: "nat \<Rightarrow> trace \<Rightarrow> bool" where
  "room N t \<longleftrightarrow> 4248 + length (ops t) * max (N + 39) 4096 \<le> MAX_HEAP"

lemma near_full_room:
  assumes "near_full N s" "hi s \<le> lo s + 4240 + k * max (N + 39) 4096" and k: "k < length (ops t)"
  shows "\<not> room N t"
proof -
  let ?g = "max (N + 39) 4096"
  have "Suc k * ?g \<le> length (ops t) * ?g" using k by (intro mult_le_mono1) simp
  then show ?thesis using assms(1,2) by (simp add: near_full_def room_def)
qed

text \<open>A state from which a run can start: the storage is there and large enough.\<close>

definition driver_ready :: "nat \<Rightarrow> 'a mm_state_scheme \<Rightarrow> bool" where
  "driver_ready N s \<longleftrightarrow> fresh_heap (mem_reset_brk s) \<and> small_requests N (mem_reset_brk s)"

section \<open>The calls of a replay\<close>

definition follows :: "nat \<Rightarrow> (nat \<rightharpoonup> nat \<times> nat) \<Rightarrow> trace \<Rightarrow> 'a mm_state_scheme \<Rightarrow> bool" where
  "follows N A t s \<longleftrightarrow> (\<exists>C. backs (mm_rep N) peek s C \<and> tracked (\<lambda>_ _. True) A (blocks t) C)"

lemma follows_sizes [simp]: "follows N A (t\<lparr>block_sizes := ns\<rparr>) s = follows N A t s"
  by (simp add: follows_def)

lemma follows_start: "mm_rep N s Map.empty \<Longrightarrow> follows N Map.empty t s"
  by (auto simp: follows_def backs_def intro!: exI [of _ Map.empty])

lemma follows_ready: "follows N A t s \<Longrightarrow> driver_ready N s"
  using mm_rep_fresh by (fastforce simp: follows_def backs_def driver_ready_def)

lemma follows_malloc:
  assumes H: "follows N A t s" and A: "A (unat index) = None" "unat index < length (blocks t)"
    and n: "0 < unat n" "unat n \<le> N"
  shows "(\<exists>u. mm_malloc n s = Some (0, u) \<and> near_full N s)
    \<or> (\<exists>a u. mm_malloc n s = Some (w32 a, u) \<and> w32 a \<noteq> 0
        \<and> follows N (A(unat index \<mapsto> (a, unat n))) (t\<lparr>blocks := (blocks t)[unat index := w32 a]\<rparr>) u
        \<and> evolves (max (N + 39) 4096) s u)"
proof -
  obtain C where C: "backs (mm_rep N) peek s C" "tracked (\<lambda>_ _. True) A (blocks t) C"
    using H by (auto simp: follows_def)
  have n32: "w32 (unat n) = n" by (rule w32_unat)
  from client_malloc [OF C(1) n] show ?thesis
  proof (elim disjE exE conjE)
    fix u assume "mm_malloc (w32 (unat n)) s = Some (0, u)"
      "lo s + MAX_HEAP < hi s + max (unat n + 39) 4096"
    then show ?thesis using near_fullI [of s "unat n" 0 N] n(2) by (auto simp: n32)
  next
    fix a u assume u: "mm_malloc (w32 (unat n)) s = Some (w32 a, u)" "w32 a \<noteq> 0" "C a = None"
      "backs (mm_rep N) peek u (C(a \<mapsto> stored peek u a (unat n)))"
      "evolves (max (unat n + 39) 4096) s u"
    have "tracked (\<lambda>_ _. True) (A(unat index \<mapsto> (a, unat n))) ((blocks t)[unat index := w32 a])
        (C(a \<mapsto> stored peek u a (unat n)))"
      by (rule tracked_add [OF C(2) u(3) A(2,1)]) simp_all
    then have "follows N (A(unat index \<mapsto> (a, unat n))) (t\<lparr>blocks := (blocks t)[unat index := w32 a]\<rparr>) u"
      unfolding follows_def using u(4) by auto
    moreover have "evolves (max (N + 39) 4096) s u" using u(5) n(2) by (auto simp: evolves_def)
    ultimately show ?thesis using u(1,2) by (auto simp: n32)
  qed
qed

lemma follows_free:
  assumes H: "follows N A t s" and A: "A (unat index) = Some (a, n)"
  shows "read_at (blocks t) index = Some (w32 a)"
    "\<exists>u. mm_free (w32 a) s = Some u \<and> follows N (A(unat index := None)) t u \<and> evolves 0 s u"
proof -
  obtain C where C: "backs (mm_rep N) peek s C" "tracked (\<lambda>_ _. True) A (blocks t) C"
    using H by (auto simp: follows_def)
  show "read_at (blocks t) index = Some (w32 a)" by (rule tracked_read [OF C(2) A])
  obtain c where "C a = Some c" using trackedD [OF C(2) A] by blast
  from client_free [OF C(1) this] obtain u where u: "mm_free (w32 a) s = Some u"
    "backs (mm_rep N) peek u (C(a := None))" "evolves 0 s u" by blast
  with tracked_remove [OF C(2) A]
  show "\<exists>u. mm_free (w32 a) s = Some u \<and> follows N (A(unat index := None)) t u \<and> evolves 0 s u"
    unfolding follows_def by blast
qed

lemma follows_realloc:
  assumes H: "follows N A t s" and A: "A (unat index) = Some (a, m)"
    and n: "0 < unat n" "unat n \<le> N"
  shows "mm_realloc (w32 a) n s = None \<and> near_full N s
    \<or> (\<exists>b u. mm_realloc (w32 a) n s = Some (w32 b, u) \<and> w32 b \<noteq> 0
        \<and> follows N (A(unat index \<mapsto> (b, unat n))) (t\<lparr>blocks := (blocks t)[unat index := w32 b]\<rparr>) u
        \<and> evolves (max (N + 39) 4096) s u)"
proof -
  obtain C where C: "backs (mm_rep N) peek s C" "tracked (\<lambda>_ _. True) A (blocks t) C"
    using H by (auto simp: follows_def)
  obtain c where c: "C a = Some c" and ix: "unat index < length (blocks t)"
    using trackedD [OF C(2) A] by blast
  have n32: "w32 (unat n) = n" by (rule w32_unat)
  from client_realloc [OF C(1) c n] show ?thesis
  proof (elim disjE exE conjE)
    assume "mm_realloc (w32 a) (w32 (unat n)) s = None"
      "lo s + MAX_HEAP < hi s + max (unat n + 39) 4096 + 8"
    then show ?thesis using near_fullI [of s "unat n" 8 N] n(2) by (simp add: n32)
  next
    fix b u assume u: "mm_realloc (w32 a) (w32 (unat n)) s = Some (w32 b, u)" "w32 b \<noteq> 0" "C b = None"
      "backs (mm_rep N) peek u ((C(a := None))(b \<mapsto> stored peek u b (unat n)))"
      "evolves (max (unat n + 39) 4096) s u"
    have "(C(a := None)) b = None" "(A(unat index := None)) (unat index) = None" using u(3) by simp_all
    note add = tracked_add [OF tracked_remove [OF C(2) A] this(1) ix this(2), unfolded fun_upd_upd]
    have "tracked (\<lambda>_ _. True) (A(unat index \<mapsto> (b, unat n))) ((blocks t)[unat index := w32 b])
        ((C(a := None))(b \<mapsto> stored peek u b (unat n)))" by (rule add) simp_all
    then have "follows N (A(unat index \<mapsto> (b, unat n))) (t\<lparr>blocks := (blocks t)[unat index := w32 b]\<rparr>) u"
      unfolding follows_def using u(4) by auto
    moreover have "evolves (max (N + 39) 4096) s u" using u(5) n(2) by (auto simp: evolves_def)
    ultimately show ?thesis using u(1,2) by (auto simp: n32)
  qed
qed

text \<open>The payloads in use lie in the heap, apart from each other.\<close>

lemma follows_total:
  assumes H: "follows N A t s" and n: "length (blocks t) = nids"
  shows "total nids (sizes_of A) + 160 \<le> hi s - lo s \<or> total nids (sizes_of A) = 0"
    "hi s \<le> lo s + MAX_HEAP"
proof -
  obtain C where C: "backs (mm_rep N) peek s C" "tracked (\<lambda>_ _. True) A (blocks t) C"
    using H by (auto simp: follows_def)
  obtain m bks fl where "heap_inv s bks fl" using backs_live [OF C(1)] by metis
  then show "hi s \<le> lo s + MAX_HEAP" by (auto simp: heap_inv_def heap_core_def region_ok_def)
  let ?I = "{ix. ix < nids \<and> A ix \<noteq> None}"
  let ?start = "\<lambda>ix. fst (the (A ix))" and ?size = "\<lambda>ix. snd (the (A ix))"
  have pay: "\<exists>c. C (?start ix) = Some c \<and> length c = ?size ix" if "ix \<in> ?I" for ix
    using C(2) that unfolding tracked_def by fastforce
  have "sum ?size ?I \<le> hi s - 8 - (lo s + 152)"
  proof (rule disjoint_intervals_sum [where start = ?start])
    fix i assume "i \<in> ?I"
    from pay [OF this] obtain c where "C (?start i) = Some c" "length c = ?size i" by blast
    with backs_range(2,3) [OF C(1) this(1)]
    show "lo s + 152 \<le> ?start i \<and> ?start i + ?size i \<le> hi s - 8" by linarith
  next
    fix i j assume ij: "i \<in> ?I" "j \<in> ?I" "i \<noteq> j"
    then obtain c d where c: "C (?start i) = Some c" "length c = ?size i"
      and d: "C (?start j) = Some d" "length d = ?size j" using pay by metis
    have "A i = Some (?start i, ?size i)" "A j = Some (?start j, ?size j)" using ij by auto
    then have "?start j \<noteq> ?start i" using C(2) ij(3) unfolding tracked_def by metis
    with backs_range(4) [OF C(1) c(1) d(1)] c(2) d(2)
    show "?start i + ?size i \<le> ?start j \<or> ?start j + ?size j \<le> ?start i" by linarith
  qed simp
  moreover have "total nids (sizes_of A) = sum ?size ?I"
    unfolding total_def sizes_of_def
    by (rule sum.mono_neutral_cong_right) (auto split: option.splits)
  ultimately show "total nids (sizes_of A) + 160 \<le> hi s - lo s \<or> total nids (sizes_of A) = 0"
    by linarith
qed

end
