(* ===== verification/Ranges.thy ===== *)
theory Ranges
  imports Trace
begin

text \<open>
  The range list of \<^verbatim>\<open>mdriver.c\<close>, which records the first and last byte of every payload the
  driver holds, and the checks \<open>add_range\<close> makes on a new payload. The linked list is a HOL
  list of pairs, newest first.
\<close>

section \<open>The code\<close>

text \<open>
  \<open>add_range\<close>: \<open>node\<close> is what \<open>malloc(sizeof(range_t))\<close> returns; a null pointer ends the
  program, as does a failed assertion. The result is the code's 0 or 1.
\<close>

definition add_range ::
    "u32 \<Rightarrow> u32 \<Rightarrow> u32 \<Rightarrow> int \<Rightarrow> int \<Rightarrow> 'a driver_scheme \<Rightarrow> (bool \<times> 'a driver_scheme) option" where
  "add_range node lo' size' tracenum opnum s =
     (let hi' = lo' + size' - 1 in
      if \<not> 0 < sint size' then None
      else if lo' mod ALIGNMENT \<noteq> 0
      then Some (False, malloc_error tracenum opnum (Not_aligned lo') s)
      else if lo' < mem_heap_lo s \<or> lo' > mem_heap_hi s \<or> hi' < mem_heap_lo s \<or> hi' > mem_heap_hi s
      then Some (False, malloc_error tracenum opnum
             (Outside_heap lo' hi' (mem_heap_lo s) (mem_heap_hi s)) s)
      else case find (\<lambda>(l, h). (lo' \<ge> l \<and> lo' \<le> h) \<or> (hi' \<ge> l \<and> hi' \<le> h)) (ranges s) of
        Some (l, h) \<Rightarrow> Some (False, malloc_error tracenum opnum (Overlaps lo' hi' l h) s)
      | None \<Rightarrow> if node = 0 then None else Some (True, s\<lparr>ranges := (lo', hi') # ranges s\<rparr>))"

fun remove_first :: "u32 \<Rightarrow> (u32 \<times> u32) list \<Rightarrow> (u32 \<times> u32) list" where
  "remove_first lo' [] = []"
| "remove_first lo' ((l, h) # rs) = (if l = lo' then rs else (l, h) # remove_first lo' rs)"

definition remove_range :: "u32 \<Rightarrow> 'a driver_scheme \<Rightarrow> 'a driver_scheme" where
  "remove_range lo' s = s\<lparr>ranges := remove_first lo' (ranges s)\<rparr>"

definition clear_ranges :: "'a driver_scheme \<Rightarrow> 'a driver_scheme" where
  "clear_ranges s = s\<lparr>ranges := []\<rparr>"

section \<open>What the range list records\<close>

definition covers :: "u32 \<times> u32 \<Rightarrow> nat \<Rightarrow> bool" where
  "covers r b \<longleftrightarrow> unat (fst r) \<le> b \<and> b \<le> unat (snd r)"

definition range_of :: "nat \<times> nat \<Rightarrow> u32 \<times> u32" where
  "range_of r = (w32 (fst r), w32 (fst r + snd r - 1))"

text \<open>The abstract list: pairs of an address and a positive size, below the end of memory.\<close>

definition ranges_ok :: "(nat \<times> nat) list \<Rightarrow> bool" where
  "ranges_ok rs \<longleftrightarrow> (\<forall>(a, n) \<in> set rs. 0 < n \<and> a + n \<le> 4294967296)"

lemma unat_range_of:
  assumes "0 < n" "a + n \<le> 4294967296"
  shows "unat (fst (range_of (a, n))) = a" "unat (snd (range_of (a, n))) = a + n - 1"
  using assms by (simp_all add: range_of_def unat_w32)

lemma range_of_inject:
  assumes "0 < n" "a + n \<le> 4294967296" "b < 4294967296"
  shows "fst (range_of (a, n)) = w32 b \<longleftrightarrow> a = b"
  using assms by (simp add: range_of_def w32_inject)

text \<open>Neither end of the new payload lies in an old one: the test \<open>add_range\<close> makes.\<close>

definition ends_outside :: "nat \<Rightarrow> nat \<Rightarrow> nat \<times> nat \<Rightarrow> bool" where
  "ends_outside a n r \<longleftrightarrow> \<not> (fst r \<le> a \<and> a < fst r + snd r)
     \<and> \<not> (fst r < a + n \<and> a + n \<le> fst r + snd r)"

definition acceptable :: "'a driver_scheme \<Rightarrow> (nat \<times> nat) list \<Rightarrow> nat \<Rightarrow> nat \<Rightarrow> bool" where
  "acceptable s rs a n \<longleftrightarrow> 8 dvd a \<and> lo s \<le> a \<and> a + n \<le> hi s \<and> list_all (ends_outside a n) rs"

lemma range_test:
  assumes n: "0 < n" "a + n \<le> 4294967296" and r: "0 < m" "b + m \<le> 4294967296"
  shows "(case range_of (b, m) of (l, h) \<Rightarrow>
      (w32 a \<ge> l \<and> w32 a \<le> h) \<or> (w32 (a + n - 1) \<ge> l \<and> w32 (a + n - 1) \<le> h))
    \<longleftrightarrow> \<not> ends_outside a n (b, m)"
  using assms by (auto simp: range_of_def word_le_nat_alt unat_w32 ends_outside_def)

lemma heap_hi_unat: "0 < hi s \<Longrightarrow> unat (mem_heap_hi s) = hi s - 1"
proof -
  assume "0 < hi s"
  then have "w32 (hi s) - w32 1 = w32 (hi s - 1)" by (intro w32_sub) simp
  then have "mem_heap_hi s = w32 (hi s - 1)" by (simp add: mem_heap_hi_def w32_def)
  then show ?thesis using unat_lt32 [of "mem_brk s"] by (simp add: unat_w32)
qed

lemma w32_aligned: "a < 4294967296 \<Longrightarrow> w32 a mod ALIGNMENT \<noteq> 0 \<longleftrightarrow> \<not> 8 dvd a"
  by (simp add: unat_eq_zero [symmetric] unat_mod unat_w32 dvd_eq_mod_eq_0)

text \<open>
  \<open>add_range\<close> on a payload whose size is positive as an \<open>int\<close> and which does not reach past
  the end of memory: its verdict and its effect.
\<close>

lemma add_range_verdict:
  assumes n: "0 < n" "n < 2147483648" "a + n \<le> 4294967296" and node: "node \<noteq> 0"
    and rs: "ranges s = map range_of rs" "ranges_ok rs" and hi: "0 < hi s"
  shows "if acceptable s rs a n
    then add_range node (w32 a) (w32 n) tn i s = Some (True, s\<lparr>ranges := map range_of ((a, n) # rs)\<rparr>)
    else \<exists>msg. add_range node (w32 a) (w32 n) tn i s = Some (False, malloc_error tn i msg s)"
proof -
  have last: "w32 a + w32 n - 1 = w32 (a + n - 1)"
    using w32_sub [of 1 "a + n"] n(1) by (simp add: w32_add) (simp add: w32_def)
  have pos: "0 < sint (w32 n)" using n(1,2) by (simp add: sint_w32)
  have al: "w32 a mod ALIGNMENT \<noteq> 0 \<longleftrightarrow> \<not> 8 dvd a" using n(1,3) by (intro w32_aligned) simp
  have out: "w32 a < mem_heap_lo s \<or> w32 a > mem_heap_hi s \<or> w32 (a + n - 1) < mem_heap_lo s
      \<or> w32 (a + n - 1) > mem_heap_hi s \<longleftrightarrow> \<not> (lo s \<le> a \<and> a + n \<le> hi s)"
    using n heap_hi_unat [OF hi] hi
    by (simp add: word_less_nat_alt unat_w32 mem_heap_lo_def) linarith
  let ?hit = "\<lambda>(l, h). (w32 a \<ge> l \<and> w32 a \<le> h) \<or> (w32 (a + n - 1) \<ge> l \<and> w32 (a + n - 1) \<le> h)"
  have hit: "?hit (range_of r) \<longleftrightarrow> \<not> ends_outside a n r" if "r \<in> set rs" for r
    using range_test [OF n(1,3), of "snd r" "fst r"] rs(2) that by (cases r) (auto simp: ranges_ok_def)
  have ov: "find ?hit (ranges s) = None \<longleftrightarrow> list_all (ends_outside a n) rs"
    unfolding find_None_iff rs(1) using hit by (auto simp: list_all_iff)
  show ?thesis
  proof (cases "find ?hit (ranges s)")
    case None
    with ov pos al out node show ?thesis
      by (auto simp: add_range_def last Let_def acceptable_def rs(1) range_of_def)
  next
    case (Some r)
    with ov have "\<not> acceptable s rs a n" by (auto simp: acceptable_def)
    with Some pos al out show ?thesis
      by (cases r) (auto simp: add_range_def last Let_def)
  qed
qed

text \<open>Removing a payload's range.\<close>

lemma remove_first_range:
  "distinct (map fst rs) \<Longrightarrow> ranges_ok rs \<Longrightarrow> a < 4294967296 \<Longrightarrow>
   remove_first (w32 a) (map range_of rs) = map range_of (filter (\<lambda>r. fst r \<noteq> a) rs)"
proof (induction rs)
  case Nil
  then show ?case by simp
next
  case (Cons r rs)
  have b: "w32 (fst r) = w32 a \<longleftrightarrow> fst r = a"
    using Cons.prems(2,3) by (intro w32_inject) (auto simp: ranges_ok_def split: prod.splits)
  have IH: "remove_first (w32 a) (map range_of rs) = map range_of (filter (\<lambda>r. fst r \<noteq> a) rs)"
    using Cons by (simp add: ranges_ok_def)
  have split: "range_of r = (w32 (fst r), snd (range_of r))" by (simp add: range_of_def)
  show ?case
  proof (cases "fst r = a")
    case True
    with Cons.prems(1) have "fst r' \<noteq> a" if "r' \<in> set rs" for r'
      using that by (metis distinct.simps(2) image_eqI list.set_map list.simps(9))
    then have "filter (\<lambda>r. fst r \<noteq> a) rs = rs" by simp
    with True split show ?thesis by (simp add: b [symmetric]) (metis remove_first.simps(2))
  next
    case False
    with b IH split show ?thesis by simp (metis remove_first.simps(2))
  qed
qed

end
