(* ===== verification/Eval_Valid.thy ===== *)
theory Eval_Valid
  imports Replay Ranges
begin

text \<open>
  \<open>eval_mm_valid\<close> of \<^verbatim>\<open>mdriver.c\<close>: the driver runs a trace on the package and checks every
  payload it is given. The theorems say what the checks of the driver find on this package.
\<close>

section \<open>The code\<close>

text \<open>
  The comparison of the old contents after a \<open>mm_realloc\<close>: \<open>newp[j]\<close> is a \<open>char\<close>, signed on
  this machine, so it is compared as an \<open>int\<close> between -128 and 127.
\<close>

fun check_bytes :: "u32 \<Rightarrow> u32 \<Rightarrow> nat \<Rightarrow> 'a memlib_scheme \<Rightarrow> bool option" where
  "check_bytes newp index 0 s = Some True"
| "check_bytes newp index (Suc n) s = do {
     b \<leftarrow> load_byte newp s;
     if sint b \<noteq> sint (index AND 0xFF) then Some False
     else check_bytes (newp + 1) index n s }"

text \<open>
  The three cases of the loop's \<open>switch\<close>, for request number \<open>i\<close>; \<open>nodes i\<close> is what the C
  library's \<open>malloc\<close> returns to \<open>add_range\<close>. The result is the value to return at once, if
  any, and the new state.
\<close>

definition valid_alloc ::
    "(nat \<Rightarrow> u32) \<Rightarrow> int \<Rightarrow> nat \<Rightarrow> u32 \<Rightarrow> u32 \<Rightarrow> trace \<times> 'a driver_scheme \<Rightarrow>
     (int option \<times> trace \<times> 'a driver_scheme) option" where
  "valid_alloc nodes tracenum i index size' = (\<lambda>(t, s). do {
     (p, s) \<leftarrow> mm_malloc size' s;
     if p = 0
     then Some (Some 0, t, malloc_error tracenum (int i) (Message ''mm_malloc failed.'') s)
     else do {
       (ok, s) \<leftarrow> add_range (nodes i) p size' tracenum (int i) s;
       if \<not> ok then Some (Some 0, t, s)
       else do {
         s \<leftarrow> memset p (ucast (index AND 0xFF)) (unat size') s;
         t \<leftarrow> set_block index p t;
         t \<leftarrow> set_block_size index size' t;
         Some (None, t, s) } } })"

definition valid_realloc ::
    "(nat \<Rightarrow> u32) \<Rightarrow> int \<Rightarrow> nat \<Rightarrow> u32 \<Rightarrow> u32 \<Rightarrow> trace \<times> 'a driver_scheme \<Rightarrow>
     (int option \<times> trace \<times> 'a driver_scheme) option" where
  "valid_realloc nodes tracenum i index size' = (\<lambda>(t, s). do {
     oldp \<leftarrow> read_at (blocks t) index;
     (newp, s) \<leftarrow> mm_realloc oldp size' s;
     if newp = 0
     then Some (Some 0, t, malloc_error tracenum (int i) (Message ''mm_realloc failed.'') s)
     else do {
       let s = remove_range oldp s;
       (ok, s) \<leftarrow> add_range (nodes i) newp size' tracenum (int i) s;
       if \<not> ok then Some (Some 0, t, s)
       else do {
         oldsize \<leftarrow> read_at (block_sizes t) index;
         let oldsize = (if sint size' < sint oldsize then size' else oldsize);
         kept \<leftarrow> check_bytes newp index (nat (sint oldsize)) s;
         if \<not> kept
         then Some (Some 0, t, malloc_error tracenum (int i)
                (Message ''mm_realloc did not preserve the data from old block'') s)
         else do {
           s \<leftarrow> memset newp (ucast (index AND 0xFF)) (unat size') s;
           t \<leftarrow> set_block index newp t;
           t \<leftarrow> set_block_size index size' t;
           Some (None, t, s) } } } })"

definition valid_free ::
    "u32 \<Rightarrow> trace \<times> 'a driver_scheme \<Rightarrow> (int option \<times> trace \<times> 'a driver_scheme) option" where
  "valid_free index = (\<lambda>(t, s). do {
     p \<leftarrow> read_at (blocks t) index;
     let s = remove_range p s;
     s \<leftarrow> mm_free p s;
     Some (None, t, s) })"

definition valid_op ::
    "(nat \<Rightarrow> u32) \<Rightarrow> int \<Rightarrow> nat \<Rightarrow> trace \<times> 'a driver_scheme \<Rightarrow>
     (int option \<times> trace \<times> 'a driver_scheme) option" where
  "valid_op nodes tracenum i ts = do {
     op \<leftarrow> op_at (fst ts) i;
     (case op_type op of
        ALLOC \<Rightarrow> valid_alloc nodes tracenum i (op_index op) (op_size op) ts
      | REALLOC \<Rightarrow> valid_realloc nodes tracenum i (op_index op) (op_size op) ts
      | FREE \<Rightarrow> valid_free (op_index op) ts) }"

definition eval_mm_valid ::
    "(nat \<Rightarrow> u32) \<Rightarrow> trace \<Rightarrow> int \<Rightarrow> 'a driver_scheme \<Rightarrow> (int \<times> trace \<times> 'a driver_scheme) option" where
  "eval_mm_valid nodes t tracenum s = do {
     let s = mem_reset_brk s;
     let s = clear_ranges s;
     (r, s) \<leftarrow> mm_init s;
     if r < 0 then Some (0, t, malloc_error tracenum 0 (Message ''mm_init failed.'') s)
     else do {
       (v, t, s) \<leftarrow> for_each (valid_op nodes tracenum) (op_numbers t) (t, s);
       (case v of Some v \<Rightarrow> Some (v, t, s) | None \<Rightarrow> Some (1, t, s)) } }"

section \<open>The data check\<close>

lemma unat_low_byte: "unat (index AND 0xFF :: u32) = unat index mod 256"
proof -
  have "index AND 0xFF = take_bit 8 index"
    by (simp add: take_bit_eq_mask mask_eq_exp_minus_1)
  then have "unat (index AND 0xFF) = unat (take_bit 8 index)" by (rule arg_cong)
  also have "\<dots> = take_bit 8 (unat index)" by (rule unsigned_take_bit_eq)
  finally show ?thesis by (simp add: take_bit_eq_mod)
qed

lemma sint_low_byte: "sint (index AND 0xFF :: u32) = int (unat index mod 256)"
proof -
  have "index AND 0xFF = w32 (unat index mod 256)" by (metis unat_low_byte w32_unat)
  moreover have "unat index mod 256 < 2147483648"
    using mod_less_divisor [of 256 "unat index"] by simp
  ultimately show ?thesis by (simp add: sint_w32)
qed

lemma byte_mod: "(of_nat (k mod 256) :: u8) = of_nat k"
proof (rule word_unat_eq_iff [THEN iffD2])
  show "unat (of_nat (k mod 256) :: u8) = unat (of_nat k :: u8)"
    by (simp add: unsigned_of_nat take_bit_eq_mod)
qed

lemma ucast_low_byte: "(ucast (index AND 0xFF :: u32) :: u8) = of_nat (unat index)"
proof -
  have "(ucast (index AND 0xFF :: u32) :: u8) = of_nat (unat (index AND 0xFF))" by simp
  also have "\<dots> = of_nat (unat index mod 256)" by (simp only: unat_low_byte)
  finally show ?thesis by (simp only: byte_mod)
qed

lemma sint_byte: "sint (of_nat n :: u8) = (if n mod 256 < 128 then int (n mod 256) else int (n mod 256) - 256)"
proof -
  have "(128 * (2 * q) + r) div 128 = 2 * q + r div 128" for q r :: nat by simp
  from this [of "n div 256" "n mod 256"]
  have "n div 128 = 2 * (n div 256) + n mod 256 div 128" by simp
  moreover have "n mod 256 div 128 = (if n mod 256 < 128 then 0 else 1)"
    using mod_less_divisor [of 256 n] by (auto simp: div_if)
  ultimately have odd: "odd (n div 128) \<longleftrightarrow> \<not> n mod 256 < 128" by simp
  have "bit (int n) 7 = odd (int (n div 128))" by (simp add: bit_iff_odd zdiv_int)
  then have bit: "bit (int n) 7 \<longleftrightarrow> \<not> n mod 256 < 128" by (simp only: even_of_nat odd)
  have "sint (of_nat n :: u8) = signed_take_bit 7 (int n)" by (simp add: signed_of_nat)
  also have "\<dots> = take_bit 8 (int n) - (if bit (int n) 7 then 256 else 0)"
    using signed_take_bit_eq_take_bit_minus [of 7 "int n"] by simp
  finally show ?thesis by (simp add: bit take_bit_eq_mod zmod_int)
qed

lemma check_bytes_const:
  "(\<forall>i < n. load_byte (w32 (a + i)) s = Some v) \<Longrightarrow>
   check_bytes (w32 a) index n s = Some (n = 0 \<or> sint v = sint (index AND 0xFF))"
proof (induction n arbitrary: a)
  case 0
  then show ?case by simp
next
  case (Suc n)
  have first: "load_byte (w32 a) s = Some v" using Suc.prems by force
  have "\<forall>i < n. load_byte (w32 (Suc a + i)) s = Some v"
    using Suc.prems by (metis Suc_less_eq add_Suc add_Suc_right)
  then have "check_bytes (w32 (Suc a)) index n s = Some (n = 0 \<or> sint v = sint (index AND 0xFF))"
    by (rule Suc.IH)
  then show ?case using first by (auto simp: w32_Suc)
qed

section \<open>What the driver knows of the payloads\<close>

text \<open>
  Every byte of a payload is the low byte of its identifier; the range list holds exactly the
  payloads.
\<close>

definition filled :: "nat \<Rightarrow> u8 list \<Rightarrow> bool" where
  "filled ix c \<longleftrightarrow> c = replicate (length c) (of_nat ix)"

definition listed :: "(nat \<rightharpoonup> u8 list) \<Rightarrow> (u32 \<times> u32) list \<Rightarrow> bool" where
  "listed C R \<longleftrightarrow> (\<exists>rs. R = map range_of rs \<and> distinct (map fst rs) \<and> ranges_ok rs
     \<and> (\<forall>a. map_of rs a = map_option length (C a)))"

definition holds :: "nat \<Rightarrow> (nat \<rightharpoonup> nat \<times> nat) \<Rightarrow> trace \<Rightarrow> 'a driver_scheme \<Rightarrow> bool" where
  "holds N A t s \<longleftrightarrow> (\<exists>C. backs (mm_rep N) peek s C \<and> tracked filled A (blocks t) C
     \<and> sized (sizes_of A) (block_sizes t) \<and> listed C (ranges s))"

definition progress :: "nat \<Rightarrow> 'a driver_scheme \<Rightarrow> 'a driver_scheme \<Rightarrow> bool" where
  "progress g s u \<longleftrightarrow> mem_start_brk u = mem_start_brk s \<and> hi u \<le> hi s + g
     \<and> errors u = errors s \<and> report u = report s"

lemma driver_fields:
  assumes "mm_state.more u = mm_state.more (s :: 'a driver_scheme)"
  shows "errors u = errors s" "report u = report s" "ranges u = ranges s"
  using assms by (cases u; cases s; simp)+

lemma evolves_progress: "evolves g s u \<Longrightarrow> progress g s u"
  using driver_fields evolvesD unfolding progress_def by metis

lemma mm_rep_ranges [simp]: "mm_rep N (s\<lparr>ranges := R\<rparr>) m = mm_rep N s m"
  by (simp add: mm_rep_def heap_inv_def heap_core_def region_ok_def)

lemma backs_ranges [simp]: "backs (mm_rep N) peek (s\<lparr>ranges := R\<rparr>) C = backs (mm_rep N) peek s C"
  by (simp add: backs_def stored_def peek_def)

lemma map_of_filter_fst:
  "map_of (filter (\<lambda>r. fst r \<noteq> a) rs) b = (if b = a then None else map_of rs b)"
  by (induction rs) auto

lemma listed_remove:
  assumes "listed C R" "a < 4294967296"
  shows "listed (C(a := None)) (remove_first (w32 a) R)"
proof -
  obtain rs where rs: "R = map range_of rs" "distinct (map fst rs)" "ranges_ok rs"
    "\<forall>a. map_of rs a = map_option length (C a)" using assms(1) by (auto simp: listed_def)
  let ?rs = "filter (\<lambda>r. fst r \<noteq> a) rs"
  have "remove_first (w32 a) R = map range_of ?rs"
    using remove_first_range [OF rs(2,3) assms(2)] rs(1) by simp
  moreover have "distinct (map fst ?rs)" using rs(2) by (simp add: distinct_map_filter)
  moreover have "ranges_ok ?rs" using rs(3) by (auto simp: ranges_ok_def)
  moreover have "\<forall>b. map_of ?rs b = map_option length ((C(a := None)) b)"
    using rs(4) by (simp add: map_of_filter_fst)
  ultimately show ?thesis unfolding listed_def by blast
qed

lemma listed_add:
  assumes "listed C R" "C a = None" "0 < length c" "a + length c \<le> 4294967296"
  shows "listed (C(a \<mapsto> c)) (range_of (a, length c) # R)"
proof -
  obtain rs where rs: "R = map range_of rs" "distinct (map fst rs)" "ranges_ok rs"
    "\<forall>a. map_of rs a = map_option length (C a)" using assms(1) by (auto simp: listed_def)
  have "map_of rs a = None" using rs(4) assms(2) by simp
  then have "a \<notin> fst ` set rs" by (simp add: map_of_eq_None_iff)
  then have "distinct (map fst ((a, length c) # rs))" using rs(2) by simp
  moreover have "ranges_ok ((a, length c) # rs)" using rs(3) assms(3,4) by (simp add: ranges_ok_def)
  moreover have "\<forall>b. map_of ((a, length c) # rs) b = map_option length ((C(a \<mapsto> c)) b)"
    using rs(4) by simp
  ultimately show ?thesis unfolding listed_def using rs(1) by (metis list.simps(9))
qed

lemma listed_content:
  assumes "listed (C(a \<mapsto> c)) R" "length d = length c"
  shows "listed (C(a \<mapsto> d)) R"
proof -
  have "map_option length ((C(a \<mapsto> d)) b) = map_option length ((C(a \<mapsto> c)) b)" for b
    using assms(2) by simp
  then show ?thesis using assms(1) unfolding listed_def by metis
qed

text \<open>The driver accepts the payloads of this package.\<close>

lemma accept:
  assumes b: "backs (mm_rep N) peek s (C(a \<mapsto> c))" and C: "C a = None" "listed C (ranges s)"
    and n: "0 < length c" "length c < 2147483648" and node: "node \<noteq> 0"
  shows "add_range node (w32 a) (w32 (length c)) tn i s
      = Some (True, s\<lparr>ranges := range_of (a, length c) # ranges s\<rparr>)"
    "listed (C(a \<mapsto> c)) (range_of (a, length c) # ranges s)"
proof -
  obtain rs where rs: "ranges s = map range_of rs" "distinct (map fst rs)" "ranges_ok rs"
    "\<forall>a. map_of rs a = map_option length (C a)" using C(2) by (auto simp: listed_def)
  have at: "(C(a \<mapsto> c)) a = Some c" by simp
  note range = backs_range [OF b at]
  have top: "a + length c \<le> 4294967296" "0 < hi s" using range(3) unat_lt32 [of "mem_brk s"] by linarith+
  have "ends_outside a (length c) r" if r: "r \<in> set rs" for r
  proof -
    obtain x m where xm: "r = (x, m)" by (cases r)
    then have "map_of rs x = Some m" using rs(2) r by simp
    then obtain d where d: "C x = Some d" "length d = m" using rs(4) by fastforce
    with C(1) have "x \<noteq> a" by auto
    with d have "a + length c + 16 \<le> x \<or> x + m + 16 \<le> a" using range(4) [of x d] by simp
    with xm n(1) show ?thesis by (auto simp: ends_outside_def)
  qed
  then have "acceptable s rs a (length c)"
    using range(1-3) by (simp add: acceptable_def list_all_iff)
  with add_range_verdict [OF n top(1) node rs(1,3) top(2), of tn i]
  show "add_range node (w32 a) (w32 (length c)) tn i s
      = Some (True, s\<lparr>ranges := range_of (a, length c) # ranges s\<rparr>)"
    by (simp add: rs(1))
  show "listed (C(a \<mapsto> c)) (range_of (a, length c) # ranges s)"
    by (rule listed_add [OF C(2,1) n(1) top(1)])
qed

section \<open>One request\<close>

lemma clear_ranges_listed: "listed Map.empty (ranges (clear_ranges s))"
  by (auto simp: listed_def clear_ranges_def ranges_ok_def intro: exI [of _ "[]"])

lemma filled_replicate [simp]: "filled ix (replicate n (of_nat ix))"
  by (simp add: filled_def)

text \<open>
  Recording a new payload, filled with the low byte of its identifier: the end of the first two
  cases of the loop.
\<close>

lemma record_payload:
  assumes b: "backs (mm_rep N) peek s (C(a \<mapsto> c))" and C: "C a = None" "listed (C(a \<mapsto> c)) R"
    and t: "tracked filled A (blocks t) C" "sized (sizes_of A) (block_sizes t)" "A (unat index) = None"
    and ix: "unat index < length (blocks t)" "unat index < length (block_sizes t)"
  shows "\<exists>u t'. memset (w32 a) (ucast (index AND 0xFF)) (length c) (s\<lparr>ranges := R\<rparr>) = Some u
    \<and> do { t \<leftarrow> set_block index (w32 a) t; set_block_size index (w32 (length c)) t } = Some t'
    \<and> t' = t\<lparr>blocks := (blocks t)[unat index := w32 a],
         block_sizes := (block_sizes t)[unat index := w32 (length c)]\<rparr>
    \<and> holds N (A(unat index \<mapsto> (a, length c))) t' u \<and> progress 0 s u"
proof -
  let ?v = "of_nat (unat index) :: u8" and ?n = "length c"
  have "backs (mm_rep N) peek (s\<lparr>ranges := R\<rparr>) (C(a \<mapsto> c))" using b by simp
  from backs_memset [OF this, of a c ?v] obtain W where
    W: "memset (w32 a) ?v ?n (s\<lparr>ranges := R\<rparr>) = Some (s\<lparr>ranges := R, words := W\<rparr>)"
    "backs (mm_rep N) peek (s\<lparr>ranges := R, words := W\<rparr>) (C(a \<mapsto> replicate ?n ?v))" by auto
  let ?t = "t\<lparr>blocks := (blocks t)[unat index := w32 a],
    block_sizes := (block_sizes t)[unat index := w32 ?n]\<rparr>"
  have "tracked filled (A(unat index \<mapsto> (a, ?n))) (blocks ?t) (C(a \<mapsto> replicate ?n ?v))"
    using tracked_add [OF t(1) C(1) ix(1) t(3) filled_replicate length_replicate] by simp
  moreover have "sized (sizes_of (A(unat index \<mapsto> (a, ?n)))) (block_sizes ?t)"
    using sized_upd [OF t(2) ix(2)] by simp
  moreover have "listed (C(a \<mapsto> replicate ?n ?v)) R" by (rule listed_content [OF C(2)]) simp
  ultimately have "holds N (A(unat index \<mapsto> (a, ?n))) ?t (s\<lparr>ranges := R, words := W\<rparr>)"
    using W(2) unfolding holds_def by auto
  moreover have "progress 0 s (s\<lparr>ranges := R, words := W\<rparr>)" by (simp add: progress_def)
  ultimately show ?thesis
    using W(1) ix by (auto simp: ucast_low_byte set_block_def set_block_size_def write_at_def)
qed

lemma holdsE:
  assumes "holds N A t s"
  obtains C where "backs (mm_rep N) peek s C" "tracked filled A (blocks t) C"
    "sized (sizes_of A) (block_sizes t)" "listed C (ranges s)"
  using assms unfolding holds_def by blast

lemma holds_limit: "holds N A t s \<Longrightarrow> N < 2147483648"
  by (auto simp: holds_def backs_def mm_rep_def)

lemma progress_trans: "progress g s t \<Longrightarrow> progress h t u \<Longrightarrow> progress (g + h) s u"
  by (simp add: progress_def)

text \<open>The driver can start the next trace from any state it leaves a trace in.\<close>

lemma backs_ready: "backs (mm_rep N) peek s C \<Longrightarrow> driver_ready N s"
  using mm_rep_fresh by (fastforce simp: backs_def driver_ready_def)

lemma holds_ready: "holds N A t s \<Longrightarrow> driver_ready N s"
  using backs_ready by (fastforce simp: holds_def)

lemma driver_ready_fields [simp]:
  "driver_ready N (s\<lparr>errors := x, report := r\<rparr>) = driver_ready N s"
  "driver_ready N (s\<lparr>errno := e\<rparr>) = driver_ready N s"
  by (simp_all add: driver_ready_def mem_reset_brk_def fresh_heap_def small_requests_def)

lemma valid_alloc_step:
  assumes H: "holds N A t s" and A: "A (unat index) = None"
    and ix: "unat index < length (blocks t)" "unat index < length (block_sizes t)"
    and n: "0 < unat n" "unat n \<le> N" and node: "nodes i \<noteq> 0"
  shows "(\<exists>u. valid_alloc nodes tn i index n (t, s)
        = Some (Some 0, t, malloc_error tn (int i) (Message ''mm_malloc failed.'') u)
        \<and> progress 0 s u \<and> near_full N s \<and> driver_ready N u)
    \<or> (\<exists>a u. valid_alloc nodes tn i index n (t, s) = Some (None, t\<lparr>blocks := (blocks t)[unat index := w32 a],
          block_sizes := (block_sizes t)[unat index := n]\<rparr>, u)
        \<and> holds N (A(unat index \<mapsto> (a, unat n))) (t\<lparr>blocks := (blocks t)[unat index := w32 a],
          block_sizes := (block_sizes t)[unat index := n]\<rparr>) u \<and> progress (max (N + 39) 4096) s u)"
proof -
  obtain C where C: "backs (mm_rep N) peek s C" "tracked filled A (blocks t) C"
    "sized (sizes_of A) (block_sizes t)" "listed C (ranges s)" using holdsE [OF H] by blast
  have n32: "w32 (unat n) = n" by (rule w32_unat)
  from client_malloc [OF C(1) n] show ?thesis
  proof (elim disjE exE conjE)
    fix u assume u: "mm_malloc (w32 (unat n)) s = Some (0, u)" "u = s\<lparr>errno := ENOMEM\<rparr>"
      "lo s + MAX_HEAP < hi s + max (unat n + 39) 4096"
    have "near_full N s" using near_fullI [of s "unat n" 0 N] u(3) n(2) by simp
    with u holds_ready [OF H] show ?thesis by (auto simp: valid_alloc_def n32 progress_def)
  next
    fix a u assume u: "mm_malloc (w32 (unat n)) s = Some (w32 a, u)" "w32 a \<noteq> 0" "C a = None"
      "backs (mm_rep N) peek u (C(a \<mapsto> stored peek u a (unat n)))"
      "evolves (max (unat n + 39) 4096) s u"
    let ?c = "stored peek u a (unat n)"
    note p = evolves_progress [OF u(5)]
    have L: "listed C (ranges u)" using C(4) driver_fields(3) [OF evolvesD(3) [OF u(5)]] by simp
    have "0 < length ?c" "length ?c < 2147483648" using n holds_limit [OF H] by simp_all
    note acc = accept [OF u(4,3) L this node]
    from record_payload [OF u(4,3) acc(2) C(2,3) A ix] obtain v where
      v: "memset (w32 a) (ucast (index AND 0xFF)) (unat n)
            (u\<lparr>ranges := range_of (a, unat n) # ranges u\<rparr>) = Some v"
        "holds N (A(unat index \<mapsto> (a, unat n))) (t\<lparr>blocks := (blocks t)[unat index := w32 a],
           block_sizes := (block_sizes t)[unat index := n]\<rparr>) v" "progress 0 u v"
      by (auto simp: n32)
    have "progress (max (N + 39) 4096) s v" using progress_trans [OF p v(3)] n(2)
      by (auto simp: progress_def)
    moreover have "valid_alloc nodes tn i index n (t, s) = Some (None,
        t\<lparr>blocks := (blocks t)[unat index := w32 a], block_sizes := (block_sizes t)[unat index := n]\<rparr>, v)"
      using u(1,2) acc(1) v(1) ix
      by (simp add: valid_alloc_def n32 set_block_def set_block_size_def write_at_def)
    ultimately show ?thesis using v(2) by blast
  qed
qed

lemma valid_free_step:
  assumes H: "holds N A t s" and A: "A (unat index) = Some (a, n)"
  shows "\<exists>u. valid_free index (t, s) = Some (None, t, u) \<and> holds N (A(unat index := None)) t u
    \<and> progress 0 s u"
proof -
  obtain C where C: "backs (mm_rep N) peek s C" "tracked filled A (blocks t) C"
    "sized (sizes_of A) (block_sizes t)" "listed C (ranges s)" using holdsE [OF H] by blast
  obtain c where c: "C a = Some c" using trackedD [OF C(2) A] by blast
  have a32: "a < 4294967296" using backs_range(3) [OF C(1) c] unat_lt32 [of "mem_brk s"] by linarith
  let ?s = "remove_range (w32 a) s"
  have "backs (mm_rep N) peek ?s C" using C(1) by (simp add: remove_range_def)
  from client_free [OF this c] obtain u where u: "mm_free (w32 a) ?s = Some u"
    "backs (mm_rep N) peek u (C(a := None))" "evolves 0 ?s u" by blast
  have "ranges u = remove_first (w32 a) (ranges s)"
    using driver_fields(3) [OF evolvesD(3) [OF u(3)]] by (simp add: remove_range_def)
  then have "listed (C(a := None)) (ranges u)" using listed_remove [OF C(4) a32] by simp
  with u(2) tracked_remove [OF C(2) A] sized_remove [OF C(3)]
  have "holds N (A(unat index := None)) t u" unfolding holds_def by auto
  moreover have "progress 0 s u" using evolves_progress [OF u(3)] by (simp add: progress_def remove_range_def)
  ultimately show ?thesis using u(1) tracked_read [OF C(2) A] by (simp add: valid_free_def)
qed

text \<open>
  The comparison the code makes after \<open>mm_realloc\<close>: it holds of contents the package kept only
  if the low byte of the identifier is at most 127.
\<close>

definition low_byte_ok :: "u32 \<Rightarrow> bool" where
  "low_byte_ok index \<longleftrightarrow> unat index mod 256 < 128"

lemma check_kept:
  assumes b: "backs (mm_rep N) peek s C" and c: "C a = Some c" "k \<le> length c"
    and kept: "take k c = replicate k (of_nat (unat index))" and k: "0 < k"
  shows "check_bytes (w32 a) index k s = Some (low_byte_ok index)"
proof -
  have "load_byte (w32 (a + i)) s = Some (of_nat (unat index))" if i: "i < k" for i
  proof -
    have "c ! i = take k c ! i" using i by simp
    then have "c ! i = of_nat (unat index)" unfolding kept using i by simp
    then show ?thesis using backs_load [OF b c(1), of i] c(2) i by simp
  qed
  then have "check_bytes (w32 a) index k s
      = Some (k = 0 \<or> sint (of_nat (unat index) :: u8) = sint (index AND 0xFF))"
    by (intro check_bytes_const) blast
  moreover have "sint (of_nat (unat index) :: u8) = sint (index AND 0xFF) \<longleftrightarrow> low_byte_ok index"
    unfolding sint_byte sint_low_byte low_byte_ok_def by simp
  ultimately show ?thesis using k by simp
qed

lemma signed_min:
  assumes "n < 2147483648" "m < 2147483648"
  shows "nat (sint (if sint (w32 n) < sint (w32 m) then w32 n else w32 m)) = min n m"
  using assms by (simp add: sint_w32 min_def)

lemma kept_prefix:
  assumes "take (length c) d = take n c" "length d = n" "filled ix c"
  shows "take (min n (length c)) d = replicate (min n (length c)) (of_nat ix)"
proof -
  have "take (min n (length c)) d = take (length c) d" using assms(2) by (simp add: min_def)
  also have "\<dots> = take n c" by (rule assms(1))
  also have "\<dots> = replicate (min n (length c)) (of_nat ix)"
    using assms(3) unfolding filled_def by (metis take_replicate)
  finally show ?thesis .
qed

text \<open>
  From the point where \<open>mm_realloc\<close> has returned: the new payload is entered in the range list,
  and the data check passes or fails with the low byte of the identifier.
\<close>

lemma valid_realloc_moved:
  assumes H: "holds N A t s" and A: "A (unat index) = Some (a, m)"
    and n: "0 < unat n" "unat n \<le> N" and m: "0 < m" "m \<le> N" and node: "nodes i \<noteq> 0"
    and C: "backs (mm_rep N) peek s C" "tracked filled A (blocks t) C" "listed C (ranges s)"
    and c: "C a = Some c" "length c = m" "filled (unat index) c"
    and u: "mm_realloc (w32 a) n s = Some (w32 b, u)" "w32 b \<noteq> 0" "C b = None"
      "backs (mm_rep N) peek u ((C(a := None))(b \<mapsto> stored peek u b (unat n)))"
      "take (length c) (stored peek u b (unat n)) = take (unat n) c" "mm_state.more u = mm_state.more s"
    and reads: "read_at (blocks t) index = Some (w32 a)" "read_at (block_sizes t) index = Some (w32 m)"
  defines "v \<equiv> (remove_range (w32 a) u)\<lparr>ranges := range_of (b, unat n) # ranges (remove_range (w32 a) u)\<rparr>"
  shows "valid_realloc nodes tn i index n (t, s) =
      (if \<not> low_byte_ok index
       then Some (Some 0, t, malloc_error tn (int i)
              (Message ''mm_realloc did not preserve the data from old block'') v)
       else do {
         s \<leftarrow> memset (w32 b) (ucast (index AND 0xFF)) (unat n) v;
         t \<leftarrow> set_block index (w32 b) t;
         t \<leftarrow> set_block_size index n t;
         Some (None, t, s) })"
    "backs (mm_rep N) peek v ((C(a := None))(b \<mapsto> stored peek u b (unat n)))"
    "listed ((C(a := None))(b \<mapsto> stored peek u b (unat n))) (ranges v)"
proof -
  let ?C = "C(a := None)" and ?c = "stored peek u b (unat n)" and ?k = "min (unat n) m"
  let ?u = "remove_range (w32 a) u"
  have a32: "a < 4294967296" using backs_range(3) [OF C(1) c(1)] unat_lt32 [of "mem_brk s"] by linarith
  have "ranges ?u = remove_first (w32 a) (ranges s)"
    using driver_fields(3) [OF u(6)] by (simp add: remove_range_def)
  then have L: "listed ?C (ranges ?u)" using listed_remove [OF C(3) a32] by simp
  have b: "?C b = None" using u(3) by simp
  have len: "0 < length ?c" "length ?c < 2147483648" using n holds_limit [OF H] by simp_all
  have B: "backs (mm_rep N) peek ?u (?C(b \<mapsto> ?c))" using u(4) by (simp add: remove_range_def)
  note acc = accept [OF B b L len node]
  show V: "backs (mm_rep N) peek v (?C(b \<mapsto> ?c))" using B by (simp add: v_def)
  show "listed (?C(b \<mapsto> ?c)) (ranges v)" using acc(2) by (simp add: v_def)
  have old: "nat (sint (if sint n < sint (w32 m) then n else w32 m)) = ?k"
    by (rule signed_min [of "unat n" m, unfolded w32_unat]) (use n(2) m(2) holds_limit [OF H] in linarith)+
  have kept: "take ?k ?c = replicate ?k (of_nat (unat index))"
    using kept_prefix [OF u(5) _ c(3)] c(2) by simp
  have "check_bytes (w32 b) index ?k v = Some (low_byte_ok index)"
    by (rule check_kept [OF V fun_upd_same _ kept]) (use n(1) m(1) in simp_all)
  then show "valid_realloc nodes tn i index n (t, s) =
      (if \<not> low_byte_ok index
       then Some (Some 0, t, malloc_error tn (int i)
              (Message ''mm_realloc did not preserve the data from old block'') v)
       else do {
         s \<leftarrow> memset (w32 b) (ucast (index AND 0xFF)) (unat n) v;
         t \<leftarrow> set_block index (w32 b) t;
         t \<leftarrow> set_block_size index n t;
         Some (None, t, s) })"
    using u(1,2) reads acc(1) old by (simp add: valid_realloc_def Let_def v_def)
qed

lemma valid_realloc_step:
  assumes H: "holds N A t s" and A: "A (unat index) = Some (a, m)"
    and n: "0 < unat n" "unat n \<le> N" and m: "0 < m" "m \<le> N" and node: "nodes i \<noteq> 0"
  shows "valid_realloc nodes tn i index n (t, s) = None \<and> near_full N s
    \<or> (\<exists>u. valid_realloc nodes tn i index n (t, s) = Some (Some 0, t, malloc_error tn (int i)
          (Message ''mm_realloc did not preserve the data from old block'') u)
        \<and> progress (max (N + 39) 4096) s u \<and> \<not> low_byte_ok index \<and> driver_ready N u)
    \<or> (\<exists>b u. valid_realloc nodes tn i index n (t, s) = Some (None,
          t\<lparr>blocks := (blocks t)[unat index := w32 b], block_sizes := (block_sizes t)[unat index := n]\<rparr>, u)
        \<and> holds N (A(unat index \<mapsto> (b, unat n))) (t\<lparr>blocks := (blocks t)[unat index := w32 b],
          block_sizes := (block_sizes t)[unat index := n]\<rparr>) u \<and> progress (max (N + 39) 4096) s u
        \<and> low_byte_ok index)"
proof -
  obtain C where C: "backs (mm_rep N) peek s C" "tracked filled A (blocks t) C"
    "sized (sizes_of A) (block_sizes t)" "listed C (ranges s)" using holdsE [OF H] by blast
  obtain c where c: "C a = Some c" "length c = m" "filled (unat index) c"
    and ix: "unat index < length (blocks t)" using trackedD [OF C(2) A] by blast
  have S: "sizes_of A (unat index) = Some m" using A by (simp add: sizes_of_def)
  then have ix': "unat index < length (block_sizes t)" using C(3) by (auto simp: sized_def)
  note reads = tracked_read [OF C(2) A] sized_read [OF C(3) S]
  from client_realloc [OF C(1) c(1) n, unfolded w32_unat] show ?thesis
  proof (elim disjE exE conjE)
    assume "mm_realloc (w32 a) n s = None" "lo s + MAX_HEAP < hi s + max (unat n + 39) 4096 + 8"
    then show ?thesis using near_fullI [of s "unat n" 8 N] n(2) reads by (simp add: valid_realloc_def)
  next
    fix b u assume u: "mm_realloc (w32 a) n s = Some (w32 b, u)" "w32 b \<noteq> 0" "C b = None"
      "backs (mm_rep N) peek u ((C(a := None))(b \<mapsto> stored peek u b (unat n)))"
      "take (length c) (stored peek u b (unat n)) = take (unat n) c"
      "evolves (max (unat n + 39) 4096) s u"
    let ?v = "(remove_range (w32 a) u)\<lparr>ranges := range_of (b, unat n) # ranges (remove_range (w32 a) u)\<rparr>"
    note moved = valid_realloc_moved [where nodes = nodes and i = i,
      OF H A n m node C(1,2,4) c u(1-5) evolvesD(3) [OF u(6)] reads]
    have p: "progress (max (N + 39) 4096) s ?v"
      using evolves_progress [OF u(6)] n(2) by (auto simp: progress_def remove_range_def)
    show ?thesis
    proof (cases "low_byte_ok index")
      case False
      with moved(1) p backs_ready [OF moved(2)] show ?thesis by auto
    next
      case True
      have T: "tracked filled (A(unat index := None)) (blocks t) (C(a := None))" by (rule tracked_remove [OF C(2) A])
      have Z: "sized (sizes_of (A(unat index := None))) (block_sizes t)" using sized_remove [OF C(3)] by simp
      have b: "(C(a := None)) b = None" "(A(unat index := None)) (unat index) = None" using u(3) by simp_all
      from record_payload [OF moved(2) b(1) moved(3) T Z b(2) ix ix', unfolded fun_upd_upd] obtain w where
        w: "memset (w32 b) (ucast (index AND 0xFF)) (unat n) ?v = Some w"
          "holds N (A(unat index \<mapsto> (b, unat n))) (t\<lparr>blocks := (blocks t)[unat index := w32 b],
             block_sizes := (block_sizes t)[unat index := n]\<rparr>) w" "progress 0 ?v w"
        by auto
      have "progress (max (N + 39) 4096) s w" using p w(3) by (simp add: progress_def)
      moreover have "valid_realloc nodes tn i index n (t, s) = Some (None,
          t\<lparr>blocks := (blocks t)[unat index := w32 b], block_sizes := (block_sizes t)[unat index := n]\<rparr>, w)"
        using True w(1) ix ix' moved(1) by (simp add: set_block_def set_block_size_def write_at_def)
      ultimately show ?thesis using w(2) True by blast
    qed
  qed
qed

section \<open>The whole trace\<close>

text \<open>
  The requests the data check wrongly reports.
\<close>

definition misjudged :: "traceop \<Rightarrow> bool" where
  "misjudged op \<longleftrightarrow> op_type op = REALLOC \<and> \<not> low_byte_ok (op_index op)"

definition valid_inv :: "nat \<Rightarrow> trace \<Rightarrow> 'a driver_scheme \<Rightarrow> nat \<Rightarrow> trace \<times> 'a driver_scheme \<Rightarrow> bool" where
  "valid_inv N t s0 k = (\<lambda>(t', s). \<exists>A. holds N A t' s \<and> sizes_of A = sizes_after (take k (ops t))
     \<and> same_trace t t' \<and> progress (k * max (N + 39) 4096) s0 s \<and> (\<forall>op \<in> set (take k (ops t)). \<not> misjudged op))"

definition complaint ::
    "nat \<Rightarrow> trace \<Rightarrow> int \<Rightarrow> 'a driver_scheme \<Rightarrow> int \<Rightarrow> trace \<times> 'a driver_scheme \<Rightarrow> bool" where
  "complaint N t tn s0 v = (\<lambda>(t', s). v = 0 \<and> errors s = errors s0 + 1 \<and> driver_ready N s \<and> (\<exists>i < length (ops t).
     \<not> room N t \<and> report s = report s0 @ [(tn, LINENUM (int i), Message ''mm_malloc failed.'')]
     \<or> misjudged (ops t ! i) \<and> report s = report s0 @ [(tn, LINENUM (int i),
         Message ''mm_realloc did not preserve the data from old block'')]))"

lemma valid_invE:
  assumes ok: "trace_ok N t" and k: "k < length (ops t)" and I: "valid_inv N t s0 k (t', s)"
  obtains A where "holds N A t' s" "sizes_of A = sizes_after (take k (ops t))"
    "unat (op_index (ops t ! k)) < length (blocks t')" "unat (op_index (ops t ! k)) < length (block_sizes t')"
    "same_trace t t'" "op_at t' k = Some (ops t ! k)"
proof -
  from I obtain A where A: "holds N A t' s" "sizes_of A = sizes_after (take k (ops t))" "same_trace t t'"
    by (auto simp: valid_inv_def)
  moreover have "unat (op_index (ops t ! k)) < length (blocks t')"
    "unat (op_index (ops t ! k)) < length (block_sizes t')" "op_at t' k = Some (ops t ! k)"
    using trace_okD(4) [OF ok k] A(3) k by (simp_all add: same_trace_def op_at_def)
  ultimately show ?thesis using that by blast
qed

text \<open>How a request that succeeds continues the invariant, and one that fails ends the run.\<close>

lemma valid_inv_step:
  assumes k: "k < length (ops t)" and I: "valid_inv N t s0 k (t', s)"
    and B: "holds N B u' u" "sizes_of B = next_sizes (ops t ! k) (sizes_after (take k (ops t)))"
      "same_trace t u'" "progress (max (N + 39) 4096) s u" "\<not> misjudged (ops t ! k)"
  shows "valid_inv N t s0 (Suc k) (u', u)"
proof -
  from I have "progress (k * max (N + 39) 4096) s0 s" "\<forall>op \<in> set (take k (ops t)). \<not> misjudged op"
    by (auto simp: valid_inv_def)
  with B progress_trans [OF this(1) B(4)] show ?thesis
    using sizes_after_step [OF k] k by (auto simp: valid_inv_def take_Suc_conv_app_nth algebra_simps)
qed

lemma complaint_step:
  assumes "k < length (ops t)" "valid_inv N t s0 k (t', s)" "progress h s u" "driver_ready N u"
    "\<not> room N t \<and> msg = Message ''mm_malloc failed.''
      \<or> misjudged (ops t ! k) \<and> msg = Message ''mm_realloc did not preserve the data from old block''"
  shows "complaint N t tn s0 0 (t', malloc_error tn (int k) msg u)"
  using assms by (auto simp: valid_inv_def complaint_def malloc_error_def progress_def)

lemma valid_inv_full:
  assumes "k < length (ops t)" "valid_inv N t s0 k (t', s)" "hi s0 \<le> lo s0 + 4240" "near_full N s"
  shows "\<not> room N t"
  using near_full_room [OF assms(4) _ assms(1)] assms(2,3) by (auto simp: valid_inv_def progress_def)

lemma same_trace_arrays:
  "same_trace t u \<Longrightarrow> same_trace t (u\<lparr>blocks := (blocks u)[i := p], block_sizes := (block_sizes u)[i := n]\<rparr>)"
  by (simp add: same_trace_def)

text \<open>What the three kinds of requests come to; the conclusion is the same.\<close>

definition op_outcome :: "nat \<Rightarrow> trace \<Rightarrow> int \<Rightarrow> 'a driver_scheme \<Rightarrow> nat \<Rightarrow>
    (int option \<times> trace \<times> 'a driver_scheme) option \<Rightarrow> bool" where
  "op_outcome N t tn s0 k r \<longleftrightarrow> r = None \<and> \<not> room N t
     \<or> (\<exists>ts'. r = Some (None, ts') \<and> valid_inv N t s0 (Suc k) ts')
     \<or> (\<exists>v ts'. r = Some (Some v, ts') \<and> complaint N t tn s0 v ts')"

lemma valid_op_alloc:
  assumes ok: "trace_ok N t" and nodes: "\<forall>i. nodes i \<noteq> 0" and low: "hi s0 \<le> lo s0 + 4240"
    and k: "k < length (ops t)" and I: "valid_inv N t s0 k (t', s)" and op: "op_type (ops t ! k) = ALLOC"
  shows "op_outcome N t tn s0 k (valid_op nodes tn k (t', s))"
proof -
  let ?op = "ops t ! k" and ?ix = "unat (op_index (ops t ! k))"
  obtain A where A: "holds N A t' s" "sizes_of A = sizes_after (take k (ops t))" "?ix < length (blocks t')"
    "?ix < length (block_sizes t')" "same_trace t t'" "op_at t' k = Some ?op"
    by (rule valid_invE [OF ok k I])
  from trace_okD(5) [OF ok k] op have n: "?ix \<notin> dom (sizes_of A)" "0 < unat (op_size ?op)" "unat (op_size ?op) \<le> N"
    by (auto simp: request_ok_def A(2))
  then have A0: "A ?ix = None" by (metis dom_sizes_of domIff)
  have run: "valid_op nodes tn k (t', s) = valid_alloc nodes tn k (op_index ?op) (op_size ?op) (t', s)"
    using op A(6) by (simp add: valid_op_def)
  from valid_alloc_step [OF A(1) A0 A(3,4) n(2,3) _, where tn = tn and nodes = nodes and i = k,
      OF nodes [rule_format]] show ?thesis
  proof (elim disjE exE conjE)
    fix u assume u: "valid_alloc nodes tn k (op_index ?op) (op_size ?op) (t', s)
        = Some (Some 0, t', malloc_error tn (int k) (Message ''mm_malloc failed.'') u)"
      "progress 0 s u" "near_full N s" "driver_ready N u"
    from complaint_step [OF k I u(2,4)] valid_inv_full [OF k I low u(3)] show ?thesis
      by (simp add: op_outcome_def run u(1))
  next
    fix a u assume u: "valid_alloc nodes tn k (op_index ?op) (op_size ?op) (t', s) = Some (None,
        t'\<lparr>blocks := (blocks t')[?ix := w32 a], block_sizes := (block_sizes t')[?ix := op_size ?op]\<rparr>, u)"
      "holds N (A(?ix \<mapsto> (a, unat (op_size ?op)))) (t'\<lparr>blocks := (blocks t')[?ix := w32 a],
        block_sizes := (block_sizes t')[?ix := op_size ?op]\<rparr>) u" "progress (max (N + 39) 4096) s u"
    from valid_inv_step [OF k I u(2) _ same_trace_arrays [OF A(5)] u(3)] show ?thesis
      by (simp add: op_outcome_def run u(1) A(2) op next_sizes_def misjudged_def)
  qed
qed

lemma valid_op_realloc:
  assumes ok: "trace_ok N t" and nodes: "\<forall>i. nodes i \<noteq> 0" and low: "hi s0 \<le> lo s0 + 4240"
    and k: "k < length (ops t)" and I: "valid_inv N t s0 k (t', s)" and op: "op_type (ops t ! k) = REALLOC"
  shows "op_outcome N t tn s0 k (valid_op nodes tn k (t', s))"
proof -
  let ?op = "ops t ! k" and ?ix = "unat (op_index (ops t ! k))"
  obtain A where A: "holds N A t' s" "sizes_of A = sizes_after (take k (ops t))" "?ix < length (blocks t')"
    "?ix < length (block_sizes t')" "same_trace t t'" "op_at t' k = Some ?op"
    by (rule valid_invE [OF ok k I])
  from trace_okD(5) [OF ok k] op obtain m where n: "sizes_of A ?ix = Some m" "0 < unat (op_size ?op)"
    "unat (op_size ?op) \<le> N" by (auto simp: request_ok_def A(2))
  then obtain a where a: "A ?ix = Some (a, m)" using sizes_ofE by metis
  have m: "0 < m" "m \<le> N" using sizes_after_bounds(2,3) [OF ok less_imp_le [OF k]] n(1) A(2) by metis+
  have run: "valid_op nodes tn k (t', s) = valid_realloc nodes tn k (op_index ?op) (op_size ?op) (t', s)"
    using op A(6) by (simp add: valid_op_def)
  from valid_realloc_step [OF A(1) a n(2,3) m _, where tn = tn and nodes = nodes and i = k,
      OF nodes [rule_format]] show ?thesis
  proof (elim disjE exE conjE)
    assume "valid_realloc nodes tn k (op_index ?op) (op_size ?op) (t', s) = None" "near_full N s"
    then show ?thesis using valid_inv_full [OF k I low] by (simp add: op_outcome_def run)
  next
    fix u assume u: "valid_realloc nodes tn k (op_index ?op) (op_size ?op) (t', s)
        = Some (Some 0, t', malloc_error tn (int k)
            (Message ''mm_realloc did not preserve the data from old block'') u)"
      "progress (max (N + 39) 4096) s u" "\<not> low_byte_ok (op_index ?op)"
      "driver_ready N u"
    from complaint_step [OF k I u(2,4)] show ?thesis
      by (simp add: op_outcome_def run u(1,3) misjudged_def op)
  next
    fix b u assume u: "valid_realloc nodes tn k (op_index ?op) (op_size ?op) (t', s) = Some (None,
        t'\<lparr>blocks := (blocks t')[?ix := w32 b], block_sizes := (block_sizes t')[?ix := op_size ?op]\<rparr>, u)"
      "holds N (A(?ix \<mapsto> (b, unat (op_size ?op)))) (t'\<lparr>blocks := (blocks t')[?ix := w32 b],
        block_sizes := (block_sizes t')[?ix := op_size ?op]\<rparr>) u" "progress (max (N + 39) 4096) s u"
      "low_byte_ok (op_index ?op)"
    from valid_inv_step [OF k I u(2) _ same_trace_arrays [OF A(5)] u(3)] show ?thesis
      by (simp add: op_outcome_def run u(1,4) A(2) op next_sizes_def misjudged_def)
  qed
qed

lemma valid_op_free:
  assumes ok: "trace_ok N t" and k: "k < length (ops t)" and I: "valid_inv N t s0 k (t', s)"
    and op: "op_type (ops t ! k) = FREE"
  shows "op_outcome N t tn s0 k (valid_op nodes tn k (t', s))"
proof -
  let ?op = "ops t ! k" and ?ix = "unat (op_index (ops t ! k))"
  obtain A where A: "holds N A t' s" "sizes_of A = sizes_after (take k (ops t))" "?ix < length (blocks t')"
    "?ix < length (block_sizes t')" "same_trace t t'" "op_at t' k = Some ?op"
    by (rule valid_invE [OF ok k I])
  from trace_okD(5) [OF ok k] op obtain m where "sizes_of A ?ix = Some m"
    by (auto simp: request_ok_def A(2))
  then obtain a where a: "A ?ix = Some (a, m)" using sizes_ofE by metis
  from valid_free_step [OF A(1) a] obtain u where u: "valid_free (op_index ?op) (t', s) = Some (None, t', u)"
    "holds N (A(?ix := None)) t' u" "progress 0 s u" by blast
  have "progress (max (N + 39) 4096) s u" using u(3) by (simp add: progress_def)
  from valid_inv_step [OF k I u(2) _ A(5) this] op A(6) u(1) show ?thesis
    by (simp add: op_outcome_def valid_op_def A(2) next_sizes_def misjudged_def)
qed

lemma valid_op_step:
  assumes "trace_ok N t" "\<forall>i. nodes i \<noteq> 0" "hi s0 \<le> lo s0 + 4240" "k < length (ops t)"
    "valid_inv N t s0 k ts"
  shows "op_outcome N t tn s0 k (valid_op nodes tn k ts)"
proof (cases ts)
  case (Pair t' s)
  note I = assms(5) [unfolded Pair]
  from valid_op_alloc [where nodes = nodes, OF assms(1-4) I] valid_op_realloc [where nodes = nodes, OF assms(1-4) I]
    valid_op_free [OF assms(1,4) I] show ?thesis
    unfolding Pair by (cases "op_type (ops t ! k)")
qed

text \<open>
  A run of the driver over a well-formed trace: it stops at a fault only in \<open>mm_realloc\<close> with
  a full storage, and complains only of a failed \<open>mm_malloc\<close> with a full storage or of a
  misjudged payload; the range checks never reject one.
\<close>

lemma eval_mm_valid_run:
  assumes ready: "driver_ready N s" and ok: "trace_ok N t" and nodes: "\<forall>i. nodes i \<noteq> 0"
  shows "eval_mm_valid nodes t tn s = None \<and> \<not> room N t
    \<or> (\<exists>t' u. eval_mm_valid nodes t tn s = Some (1, t', u) \<and> errors u = errors s \<and> report u = report s
        \<and> (\<forall>op \<in> set (ops t). \<not> misjudged op) \<and> same_trace t t' \<and> driver_ready N u)
    \<or> (\<exists>t' u. eval_mm_valid nodes t tn s = Some (0, t', u) \<and> complaint N t tn s 0 (t', u))"
proof -
  let ?s = "clear_ranges (mem_reset_brk s)"
  have "fresh_heap ?s" "small_requests N ?s"
    using ready by (simp_all add: clear_ranges_def fresh_heap_def small_requests_def driver_ready_def)
  from client_init [OF this] obtain u where u: "mm_init ?s = Some (0, u)" "mm_rep N u Map.empty"
    "hi u = lo u + 4240" "mm_state.more u = mm_state.more ?s" by blast
  note f = driver_fields [OF u(4)]
  have e: "errors u = errors s" "report u = report s" "ranges u = []"
    using f by (simp_all add: clear_ranges_def mem_reset_brk_def)
  have b: "backs (mm_rep N) peek u Map.empty" using u(2) by (auto simp: backs_def)
  have l: "listed Map.empty (ranges u)" using e(3) clear_ranges_listed [of u] by (simp add: clear_ranges_def)
  have "holds N Map.empty t u" unfolding holds_def using b l by auto
  then have I: "valid_inv N t u 0 (t, u)"
    using same_trace_refl [OF ok] by (auto simp: valid_inv_def progress_def)
  have "for_each (valid_op nodes tn) [0..<length (ops t)] (t, u) = None \<and> \<not> room N t
    \<or> (\<exists>ts. for_each (valid_op nodes tn) [0..<length (ops t)] (t, u) = Some (None, ts)
        \<and> valid_inv N t u (length (ops t)) ts)
    \<or> (\<exists>v ts. for_each (valid_op nodes tn) [0..<length (ops t)] (t, u) = Some (Some v, ts)
        \<and> complaint N t tn u v ts)"
    using valid_op_step [where nodes = nodes and tn = tn and ?s0.0 = u, OF ok nodes] u(3)
    unfolding op_outcome_def
    by (intro for_each_rule [where I = "valid_inv N t u"]) (simp_all add: I)
  then show ?thesis
    using u(1) e by (auto simp: eval_mm_valid_def trace_okD(1) [OF ok] valid_inv_def complaint_def
        progress_def dest: holds_ready)
qed

lemma eval_mm_valid_room:
  assumes "driver_ready N s" "trace_ok N t" "\<forall>i. nodes i \<noteq> 0" and room: "room N t"
  shows "\<exists>t' u. if \<forall>op \<in> set (ops t). \<not> misjudged op
    then eval_mm_valid nodes t tn s = Some (1, t', u) \<and> errors u = errors s \<and> report u = report s
      \<and> same_trace t t' \<and> driver_ready N u
    else eval_mm_valid nodes t tn s = Some (0, t', u) \<and> errors u = errors s + 1 \<and> driver_ready N u \<and> (\<exists>i < length (ops t).
      misjudged (ops t ! i) \<and> report u = report s @ [(tn, LINENUM (int i),
         Message ''mm_realloc did not preserve the data from old block'')])"
proof (cases "\<forall>op \<in> set (ops t). \<not> misjudged op")
  case True
  then have "\<not> complaint N t tn s 0 (t', u)" for t' and u :: "'a driver_scheme"
    using room by (auto simp: complaint_def)
  with True room eval_mm_valid_run [where tn = tn, OF assms(1-3)] show ?thesis by auto
next
  case False
  have "\<not> (\<forall>op \<in> set (ops t). \<not> misjudged op) \<and> \<not> \<not> room N t" using False room by simp
  with eval_mm_valid_run [where tn = tn, OF assms(1-3)] show ?thesis
    by (simp only: False if_False) (auto simp: complaint_def)
qed

end
