(* ===== verification/Eval_Util.thy ===== *)
theory Eval_Util
  imports Replay Complex_Main
begin

text \<open>
  \<open>eval_mm_util\<close> of \<^verbatim>\<open>mdriver.c\<close>: the space utilization of the package on a trace, the largest
  number of payload bytes the trace ever holds over the size of the heap.

  \<open>app_error\<close> ends the program with its message: the left alternative of the result. The
  quotient of the two sizes, both exact as \<open>double\<close>s, is kept exact here.
\<close>

section \<open>The code\<close>

type_synonym 'a util_state = "trace \<times> u32 \<times> u32 \<times> 'a mm_state_scheme"

definition util_alloc :: "u32 \<Rightarrow> u32 \<Rightarrow> 'a util_state \<Rightarrow> (string option \<times> 'a util_state) option" where
  "util_alloc index size' = (\<lambda>(t, total_size, max_total_size, s). do {
     (p, s) \<leftarrow> mm_malloc size' s;
     if p = 0 then Some (Some ''mm_malloc failed in eval_mm_util'', t, total_size, max_total_size, s)
     else do {
       t \<leftarrow> set_block index p t;
       t \<leftarrow> set_block_size index size' t;
       let total_size = total_size + size';
       let max_total_size =
         (if sint total_size > sint max_total_size then total_size else max_total_size);
       Some (None, t, total_size, max_total_size, s) } })"

definition util_realloc :: "u32 \<Rightarrow> u32 \<Rightarrow> 'a util_state \<Rightarrow> (string option \<times> 'a util_state) option" where
  "util_realloc index newsize = (\<lambda>(t, total_size, max_total_size, s). do {
     oldsize \<leftarrow> read_at (block_sizes t) index;
     oldp \<leftarrow> read_at (blocks t) index;
     (newp, s) \<leftarrow> mm_realloc oldp newsize s;
     if newp = 0 then Some (Some ''mm_realloc failed in eval_mm_util'', t, total_size, max_total_size, s)
     else do {
       t \<leftarrow> set_block index newp t;
       t \<leftarrow> set_block_size index newsize t;
       let total_size = total_size + (newsize - oldsize);
       let max_total_size =
         (if sint total_size > sint max_total_size then total_size else max_total_size);
       Some (None, t, total_size, max_total_size, s) } })"

definition util_free :: "u32 \<Rightarrow> 'a util_state \<Rightarrow> (string option \<times> 'a util_state) option" where
  "util_free index = (\<lambda>(t, total_size, max_total_size, s). do {
     size' \<leftarrow> read_at (block_sizes t) index;
     p \<leftarrow> read_at (blocks t) index;
     s \<leftarrow> mm_free p s;
     Some (None, t, total_size - size', max_total_size, s) })"

definition util_op :: "nat \<Rightarrow> 'a util_state \<Rightarrow> (string option \<times> 'a util_state) option" where
  "util_op i ts = do {
     op \<leftarrow> op_at (fst ts) i;
     (case op_type op of
        ALLOC \<Rightarrow> util_alloc (op_index op) (op_size op) ts
      | REALLOC \<Rightarrow> util_realloc (op_index op) (op_size op) ts
      | FREE \<Rightarrow> util_free (op_index op) ts) }"

definition eval_mm_util :: "trace \<Rightarrow> 'a mm_state_scheme \<Rightarrow>
    (string + rat \<times> trace \<times> 'a mm_state_scheme) option" where
  "eval_mm_util t s = do {
     let s = mem_reset_brk s;
     (r, s) \<leftarrow> mm_init s;
     if r < 0 then Some (Inl ''mm_init failed in eval_mm_util'')
     else do {
       (v, t, total_size, max_total_size, s) \<leftarrow> for_each util_op (op_numbers t) (t, 0, 0, s);
       (case v of
          Some msg \<Rightarrow> Some (Inl msg)
        | None \<Rightarrow> Some (Inr (of_int (sint max_total_size) / of_nat (unat (mem_heapsize s)), t, s))) } }"

section \<open>The largest demand of a trace\<close>

definition high_water :: "nat \<Rightarrow> traceop list \<Rightarrow> nat \<Rightarrow> nat" where
  "high_water nids xs k = Max ((\<lambda>j. total nids (sizes_after (take j xs))) ` {..k})"

lemma high_water_0 [simp]: "high_water nids xs 0 = 0"
  by (simp add: high_water_def total_def)

lemma high_water_Suc:
  "high_water nids xs (Suc k) = max (high_water nids xs k) (total nids (sizes_after (take (Suc k) xs)))"
  unfolding high_water_def atMost_Suc image_insert
  by (subst Max_insert) (auto simp: max.commute)

lemma total_high_water: "total nids (sizes_after (take k xs)) \<le> high_water nids xs k"
  unfolding high_water_def by (rule Max_ge) auto

section \<open>One request\<close>

text \<open>
  Before request \<open>k\<close> the two counters are the demand and the largest demand so far; neither
  exceeds the heap, so the \<open>int\<close> arithmetic does not overflow.
\<close>

definition util_inv :: "nat \<Rightarrow> trace \<Rightarrow> 'a \<Rightarrow> nat \<Rightarrow> 'a util_state \<Rightarrow> bool" where
  "util_inv N t X k = (\<lambda>(t', total_size, max_total_size, s).
     (\<exists>A. follows N A t' s \<and> sizes_of A = sizes_after (take k (ops t))
        \<and> sized (sizes_of A) (block_sizes t'))
     \<and> same_trace t t' \<and> total_size = w32 (total (unat (num_ids t)) (sizes_after (take k (ops t))))
     \<and> max_total_size = w32 (high_water (unat (num_ids t)) (ops t) k)
     \<and> high_water (unat (num_ids t)) (ops t) k \<le> hi s - lo s
     \<and> lo s + 4240 \<le> hi s \<and> hi s \<le> lo s + 4240 + k * max (N + 39) 4096
     \<and> mm_state.more s = X)"

lemma w32_balance: "x + m = y + n \<Longrightarrow> w32 x = w32 y + (w32 n - w32 m)"
proof -
  assume "x + m = y + n"
  then have "w32 x + w32 m = w32 y + w32 n" by (metis w32_add)
  then show ?thesis by (simp add: algebra_simps)
qed

lemma counters:
  assumes "x + m = y + n" "x \<le> d" "h \<le> d" "d \<le> MAX_HEAP" "sz = w32 n" "old = w32 m"
  shows "w32 y + (sz - old) = w32 x"
    "(if sint (w32 x) > sint (w32 h) then w32 x else w32 h) = w32 (max h x)"
proof -
  show "w32 y + (sz - old) = w32 x" using w32_balance [OF assms(1)] assms(5,6) by simp
  have "x < 2147483648" "h < 2147483648" using assms(2-4) by (simp_all add: MAX_HEAP_num)
  then show "(if sint (w32 x) > sint (w32 h) then w32 x else w32 h) = w32 (max h x)"
    by (simp add: sint_w32 max_def)
qed

text \<open>
  After a request that leaves the arrays and the payloads in step, the invariant holds with the
  new demand.
\<close>

lemma util_inv_next:
  assumes k: "k < length (ops t)" and I: "util_inv N t X k (t', T, M, s)"
    and F: "follows N B u' u" "sizes_of B = next_sizes (ops t ! k) (sizes_after (take k (ops t)))"
      "sized (sizes_of B) (block_sizes u')" "same_trace t u'"
    and ev: "evolves (max (N + 39) 4096) s u"
    and bal: "total (unat (num_ids t)) (sizes_of B) + m
      = total (unat (num_ids t)) (sizes_after (take k (ops t))) + n"
    and T': "T' = T + (w32 n - w32 m)"
    and M': "M' = (if sint T' > sint M then T' else M) \<or> M' = M \<and> n \<le> m"
  shows "util_inv N t X (Suc k) (u', T', M', u)"
proof -
  let ?nids = "unat (num_ids t)"
  let ?x = "total ?nids (sizes_of B)" and ?h = "high_water ?nids (ops t) k"
  have S: "sizes_of B = sizes_after (take (Suc k) (ops t))" using F(2) sizes_after_step [OF k] by simp
  have old: "T = w32 (total ?nids (sizes_after (take k (ops t))))" "M = w32 ?h"
    "?h \<le> hi s - lo s" "lo s + 4240 \<le> hi s" "hi s \<le> lo s + 4240 + k * max (N + 39) 4096"
    using I by (simp_all add: util_inv_def)
  note e = evolvesD [OF ev]
  have "length (blocks u') = ?nids" using F(4) by (simp add: same_trace_def)
  note tot = follows_total [OF F(1) this]
  have x: "?x \<le> hi u - lo u" and h: "?h \<le> hi u - lo u" using tot(1) old(3) e by auto
  have d: "hi u - lo u \<le> MAX_HEAP" using tot(2) by simp
  note c = counters [OF bal x h d refl refl]
  have "T' = w32 ?x" using T' c(1) old(1) by simp
  moreover have "M' = w32 (high_water ?nids (ops t) (Suc k))"
  proof -
    have "?x \<le> ?h" if "n \<le> m"
      using bal that total_high_water [of ?nids k "ops t"] by linarith
    then have "n \<le> m \<Longrightarrow> max ?h ?x = ?h" by simp
    with M' c(2) old(2) \<open>T' = w32 ?x\<close> show ?thesis by (auto simp: high_water_Suc S [symmetric])
  qed
  moreover have "high_water ?nids (ops t) (Suc k) \<le> hi u - lo u"
    using x h by (simp add: high_water_Suc S [symmetric])
  moreover have "lo u + 4240 \<le> hi u" "hi u \<le> lo u + 4240 + Suc k * max (N + 39) 4096"
    using old(4,5) e by auto
  moreover have "mm_state.more u = X" using I e(3) by (simp add: util_inv_def)
  ultimately show ?thesis
    using F S unfolding util_inv_def by auto
qed

lemma util_alloc_step:
  assumes ok: "trace_ok N t" and k: "k < length (ops t)" and I: "util_inv N t X k (t', T, M, s)"
    and op: "op_type (ops t ! k) = ALLOC"
  shows "(\<exists>ts. util_alloc (op_index (ops t ! k)) (op_size (ops t ! k)) (t', T, M, s)
        = Some (Some ''mm_malloc failed in eval_mm_util'', ts) \<and> \<not> room N t)
    \<or> (\<exists>ts. util_alloc (op_index (ops t ! k)) (op_size (ops t ! k)) (t', T, M, s) = Some (None, ts)
        \<and> util_inv N t X (Suc k) ts)"
proof -
  let ?op = "ops t ! k" and ?S = "sizes_after (take k (ops t))" and ?nids = "unat (num_ids t)"
  let ?ix = "unat (op_index ?op)" and ?n = "unat (op_size ?op)"
  from I obtain A where A: "follows N A t' s" "sizes_of A = ?S" "sized (sizes_of A) (block_sizes t')"
    and u: "ops t' = ops t" "length (blocks t') = ?nids" "length (block_sizes t') = ?nids"
      "hi s \<le> lo s + 4240 + k * max (N + 39) 4096" and same: "same_trace t t'"
    by (auto simp: util_inv_def same_trace_def)
  have ix: "?ix < ?nids" by (rule trace_okD(4) [OF ok k])
  have S: "?S ?ix = None" "0 < ?n" "?n \<le> N"
    using trace_okD(5) [OF ok k] op by (auto simp: request_ok_def)
  then have A0: "A ?ix = None" using A(2) by (metis dom_sizes_of domIff)
  have ix': "?ix < length (blocks t')" using ix u(2) by simp
  from follows_malloc [OF A(1) A0 ix' S(2,3)] show ?thesis
  proof (elim disjE exE conjE)
    fix v assume "mm_malloc (op_size ?op) s = Some (0, v)" "near_full N s"
    then show ?thesis using near_full_room [OF _ u(4) k] by (simp add: util_alloc_def)
  next
    fix a v assume v: "mm_malloc (op_size ?op) s = Some (w32 a, v)" "w32 a \<noteq> 0"
      "follows N (A(?ix \<mapsto> (a, ?n))) (t'\<lparr>blocks := (blocks t')[?ix := w32 a]\<rparr>) v"
      "evolves (max (N + 39) 4096) s v"
    let ?t = "t'\<lparr>blocks := (blocks t')[?ix := w32 a], block_sizes := (block_sizes t')[?ix := op_size ?op]\<rparr>"
    let ?M = "if sint (T + op_size ?op) > sint M then T + op_size ?op else M"
    have "util_inv N t X (Suc k) (?t, T + op_size ?op, ?M, v)"
    proof (rule util_inv_next [OF k I, where B = "A(?ix \<mapsto> (a, ?n))" and n = ?n and m = 0])
      show "follows N (A(?ix \<mapsto> (a, ?n))) ?t v" using v(3) follows_sizes by force
      show "sized (sizes_of (A(?ix \<mapsto> (a, ?n)))) (block_sizes ?t)"
        using sized_upd [OF A(3), of ?ix ?n] ix u(3) by simp
      show "total ?nids (sizes_of (A(?ix \<mapsto> (a, ?n)))) + 0 = total ?nids ?S + ?n"
        using total_upd [OF ix, of ?S "Some ?n"] S(1) A(2) by simp
      show "T + op_size ?op = T + (w32 ?n - w32 0)" by (simp add: w32_0)
    qed (use A same op v(4) in \<open>auto simp: next_sizes_def same_trace_def\<close>)
    then show ?thesis using v(1,2) ix u
      by (auto simp: util_alloc_def set_block_def set_block_size_def write_at_def Let_def)
  qed
qed

lemma util_realloc_step:
  assumes ok: "trace_ok N t" and k: "k < length (ops t)" and I: "util_inv N t X k (t', T, M, s)"
    and op: "op_type (ops t ! k) = REALLOC"
  shows "util_realloc (op_index (ops t ! k)) (op_size (ops t ! k)) (t', T, M, s) = None \<and> \<not> room N t
    \<or> (\<exists>ts. util_realloc (op_index (ops t ! k)) (op_size (ops t ! k)) (t', T, M, s) = Some (None, ts)
        \<and> util_inv N t X (Suc k) ts)"
proof -
  let ?op = "ops t ! k" and ?S = "sizes_after (take k (ops t))" and ?nids = "unat (num_ids t)"
  let ?ix = "unat (op_index ?op)" and ?n = "unat (op_size ?op)"
  from I obtain A where A: "follows N A t' s" "sizes_of A = ?S" "sized (sizes_of A) (block_sizes t')"
    and u: "ops t' = ops t" "length (blocks t') = ?nids" "length (block_sizes t') = ?nids"
      "hi s \<le> lo s + 4240 + k * max (N + 39) 4096" and same: "same_trace t t'"
    by (auto simp: util_inv_def same_trace_def)
  have ix: "?ix < ?nids" by (rule trace_okD(4) [OF ok k])
  have n: "?ix \<in> dom ?S" "0 < ?n" "?n \<le> N"
    using trace_okD(5) [OF ok k] op by (auto simp: request_ok_def)
  then obtain m where m: "?S ?ix = Some m" by blast
  then obtain a where a: "A ?ix = Some (a, m)" using A(2) sizes_ofE by metis
  have reads: "read_at (blocks t') (op_index ?op) = Some (w32 a)"
    "read_at (block_sizes t') (op_index ?op) = Some (w32 m)"
    using follows_free(1) [OF A(1) a] sized_read [OF A(3)] A(2) m by simp_all
  from follows_realloc [OF A(1) a n(2,3)] show ?thesis
  proof (elim disjE exE conjE)
    assume "mm_realloc (w32 a) (op_size ?op) s = None" "near_full N s"
    then show ?thesis using near_full_room [OF _ u(4) k] reads by (simp add: util_realloc_def)
  next
    fix b v assume v: "mm_realloc (w32 a) (op_size ?op) s = Some (w32 b, v)" "w32 b \<noteq> 0"
      "follows N (A(?ix \<mapsto> (b, ?n))) (t'\<lparr>blocks := (blocks t')[?ix := w32 b]\<rparr>) v"
      "evolves (max (N + 39) 4096) s v"
    let ?t = "t'\<lparr>blocks := (blocks t')[?ix := w32 b], block_sizes := (block_sizes t')[?ix := op_size ?op]\<rparr>"
    let ?T = "T + (op_size ?op - w32 m)"
    have "util_inv N t X (Suc k) (?t, ?T, if sint ?T > sint M then ?T else M, v)"
    proof (rule util_inv_next [OF k I, where B = "A(?ix \<mapsto> (b, ?n))" and n = ?n and m = m])
      show "follows N (A(?ix \<mapsto> (b, ?n))) ?t v" using v(3) follows_sizes by force
      show "sized (sizes_of (A(?ix \<mapsto> (b, ?n)))) (block_sizes ?t)"
        using sized_upd [OF A(3), of ?ix ?n] ix u(3) by simp
      show "total ?nids (sizes_of (A(?ix \<mapsto> (b, ?n)))) + m = total ?nids ?S + ?n"
        using total_upd [OF ix, of ?S "Some ?n"] m A(2) by simp
    qed (use A same op v(4) in \<open>auto simp: next_sizes_def same_trace_def\<close>)
    then show ?thesis using v(1,2) ix u reads
      by (auto simp: util_realloc_def set_block_def set_block_size_def write_at_def Let_def)
  qed
qed

lemma util_free_step:
  assumes ok: "trace_ok N t" and k: "k < length (ops t)" and I: "util_inv N t X k (t', T, M, s)"
    and op: "op_type (ops t ! k) = FREE"
  shows "\<exists>ts. util_free (op_index (ops t ! k)) (t', T, M, s) = Some (None, ts) \<and> util_inv N t X (Suc k) ts"
proof -
  let ?op = "ops t ! k" and ?S = "sizes_after (take k (ops t))" and ?nids = "unat (num_ids t)"
  let ?ix = "unat (op_index ?op)"
  from I obtain A where A: "follows N A t' s" "sizes_of A = ?S" "sized (sizes_of A) (block_sizes t')"
    and u: "ops t' = ops t" "length (blocks t') = ?nids" "length (block_sizes t') = ?nids"
    and same: "same_trace t t'" by (auto simp: util_inv_def same_trace_def)
  have ix: "?ix < ?nids" by (rule trace_okD(4) [OF ok k])
  have "?ix \<in> dom ?S" using trace_okD(5) [OF ok k] op by (auto simp: request_ok_def)
  then obtain m where m: "?S ?ix = Some m" by blast
  then obtain a where a: "A ?ix = Some (a, m)" using A(2) sizes_ofE by metis
  have reads: "read_at (blocks t') (op_index ?op) = Some (w32 a)"
    "read_at (block_sizes t') (op_index ?op) = Some (w32 m)"
    using follows_free(1) [OF A(1) a] sized_read [OF A(3)] A(2) m by simp_all
  from follows_free(2) [OF A(1) a] obtain v where v: "mm_free (w32 a) s = Some v"
    "follows N (A(?ix := None)) t' v" "evolves 0 s v" by blast
  have "util_inv N t X (Suc k) (t', T - w32 m, M, v)"
  proof (rule util_inv_next [OF k I, where B = "A(?ix := None)" and n = 0 and m = m])
    show "sized (sizes_of (A(?ix := None))) (block_sizes t')" using sized_remove [OF A(3)] by simp
    show "total ?nids (sizes_of (A(?ix := None))) + m = total ?nids ?S + 0"
      using total_upd [OF ix, of ?S None] m A(2) by simp
    show "T - w32 m = T + (w32 0 - w32 m)" by (simp add: w32_0)
    show "evolves (max (N + 39) 4096) s v" using v(3) by (auto simp: evolves_def)
  qed (use A same op v(2) in \<open>auto simp: next_sizes_def\<close>)
  then show ?thesis using v(1) reads by (simp add: util_free_def)
qed

lemma util_op_step:
  assumes ok: "trace_ok N t" and k: "k < length (ops t)" and I: "util_inv N t X k ts"
  shows "util_op k ts = None \<and> \<not> room N t \<or> (\<exists>ts'. util_op k ts = Some (None, ts') \<and> util_inv N t X (Suc k) ts')
    \<or> (\<exists>msg ts'. util_op k ts = Some (Some msg, ts')
        \<and> msg = ''mm_malloc failed in eval_mm_util'' \<and> \<not> room N t)"
proof -
  obtain t' T M s where ts: "ts = (t', T, M, s)" by (cases ts)
  with I have at: "op_at t' k = Some (ops t ! k)" using k by (simp add: util_inv_def op_at_def same_trace_def)
  note I = I [unfolded ts]
  show ?thesis
  proof (cases "op_type (ops t ! k)")
    case ALLOC
    with util_alloc_step [OF ok k I] show ?thesis by (auto simp: util_op_def ts at)
  next
    case REALLOC
    with util_realloc_step [OF ok k I] show ?thesis by (auto simp: util_op_def ts at)
  next
    case FREE
    with util_free_step [OF ok k I] show ?thesis by (auto simp: util_op_def ts at)
  qed
qed

section \<open>The whole trace\<close>

lemma util_loop:
  assumes ok: "trace_ok N t" and I: "util_inv N t X 0 st"
  shows "for_each util_op [0..<length (ops t)] st = None \<and> \<not> room N t
    \<or> (\<exists>ts. for_each util_op [0..<length (ops t)] st = Some (None, ts) \<and> util_inv N t X (length (ops t)) ts)
    \<or> (\<exists>msg ts. for_each util_op [0..<length (ops t)] st = Some (Some msg, ts)
        \<and> msg = ''mm_malloc failed in eval_mm_util'' \<and> \<not> room N t)"
proof (rule for_each_rule [where I = "util_inv N t X"])
  fix k and ts :: "'a util_state" assume k: "k < length (ops t)" "util_inv N t X k ts"
  show "util_op ([0..<length (ops t)] ! k) ts = None \<and> \<not> room N t
    \<or> (\<exists>ts'. util_op ([0..<length (ops t)] ! k) ts = Some (None, ts') \<and> util_inv N t X (Suc k) ts')
    \<or> (\<exists>msg ts'. util_op ([0..<length (ops t)] ! k) ts = Some (Some msg, ts')
        \<and> msg = ''mm_malloc failed in eval_mm_util'' \<and> \<not> room N t)"
    using util_op_step [OF ok k] k(1) by simp
qed (simp_all add: I)

lemma util_end:
  assumes "util_inv N t X (length (ops t)) (t', T, M, v)"
  shows "sint M = int (high_water (unat (num_ids t)) (ops t) (length (ops t)))"
    "unat (mem_heapsize v) = hi v - lo v"
proof -
  let ?h = "high_water (unat (num_ids t)) (ops t) (length (ops t))"
  from assms obtain A where A: "follows N A t' v" "length (blocks t') = unat (num_ids t)"
    "M = w32 ?h" "?h \<le> hi v - lo v" "lo v + 4240 \<le> hi v" by (auto simp: util_inv_def same_trace_def)
  have "hi v \<le> lo v + MAX_HEAP" by (rule follows_total(2) [OF A(1) refl])
  then have "?h < 2147483648" using A(4) by (simp add: MAX_HEAP_num)
  then show "sint M = int ?h" using A(3) by (simp add: sint_w32)
  show "unat (mem_heapsize v) = hi v - lo v"
    using A(5) by (simp add: mem_heapsize_def unat_sub word_le_nat_alt)
qed

lemma eval_mm_util_run:
  assumes ready: "driver_ready N s" and ok: "trace_ok N t"
  shows "eval_mm_util t s = None \<and> \<not> room N t
    \<or> eval_mm_util t s = Some (Inl ''mm_malloc failed in eval_mm_util'') \<and> \<not> room N t
    \<or> (\<exists>t' u. eval_mm_util t s = Some (Inr (of_nat (high_water (unat (num_ids t)) (ops t) (length (ops t)))
          / of_nat (hi u - lo u), t', u))
        \<and> high_water (unat (num_ids t)) (ops t) (length (ops t)) \<le> hi u - lo u \<and> lo u + 4240 \<le> hi u
        \<and> hi u \<le> lo u + 4240 + length (ops t) * max (N + 39) 4096
        \<and> same_trace t t' \<and> driver_ready N u \<and> mm_state.more u = mm_state.more s)"
proof -
  let ?n = "length (ops t)" and ?nids = "unat (num_ids t)" and ?X = "mm_state.more s"
  from ready have "fresh_heap (mem_reset_brk s)" "small_requests N (mem_reset_brk s)"
    by (simp_all add: driver_ready_def)
  from client_init [OF this] obtain u where u: "mm_init (mem_reset_brk s) = Some (0, u)"
    "mm_rep N u Map.empty" "hi u = lo u + 4240" "mm_state.more u = mm_state.more s"
    by (auto simp: mem_reset_brk_def)
  have "util_inv N t ?X 0 (t, 0, 0, u)"
    using follows_start [OF u(2)] u(3,4) same_trace_refl [OF ok]
    by (auto simp: util_inv_def total_def w32_0 intro!: exI [of _ Map.empty])
  from util_loop [OF ok this] show ?thesis
  proof (elim disjE exE conjE)
    fix ts assume ts: "for_each util_op [0..<?n] (t, 0, 0, u) = Some (None, ts)" "util_inv N t ?X ?n ts"
    obtain t' T M v where e: "ts = (t', T, M, v)" by (cases ts)
    note fin = util_end [OF ts(2) [unfolded e]]
    have "high_water ?nids (ops t) ?n \<le> hi v - lo v" "lo v + 4240 \<le> hi v"
      "hi v \<le> lo v + 4240 + ?n * max (N + 39) 4096" "same_trace t t'" "driver_ready N v"
      "mm_state.more v = ?X"
      using ts(2) follows_ready by (auto simp: e util_inv_def)
    moreover have "eval_mm_util t s
        = Some (Inr (of_int (sint M) / of_nat (unat (mem_heapsize v)), t', v))"
      using ts(1) u(1) by (simp add: eval_mm_util_def trace_okD(1) [OF ok] e)
    then have "eval_mm_util t s = Some (Inr (of_nat (high_water ?nids (ops t) ?n) / of_nat (hi v - lo v), t', v))"
      by (simp only: fin of_int_of_nat_eq)
    ultimately show ?thesis by blast
  qed (use u(1) in \<open>auto simp: eval_mm_util_def trace_okD(1) [OF ok]\<close>)
qed

text \<open>With room for the trace the utilization is computed.\<close>

lemma eval_mm_util_room:
  assumes "driver_ready N s" "trace_ok N t" and room: "room N t"
  obtains t' u where "eval_mm_util t s
      = Some (Inr (of_nat (high_water (unat (num_ids t)) (ops t) (length (ops t))) / of_nat (hi u - lo u), t', u))"
    "high_water (unat (num_ids t)) (ops t) (length (ops t)) \<le> hi u - lo u" "lo u + 4240 \<le> hi u"
    "hi u \<le> lo u + 4240 + length (ops t) * max (N + 39) 4096"
    "same_trace t t'" "driver_ready N u" "mm_state.more u = mm_state.more s"
  using eval_mm_util_run [OF assms(1,2)]
proof (elim disjE exE conjE)
  fix t' u
  assume "eval_mm_util t s
      = Some (Inr (of_nat (high_water (unat (num_ids t)) (ops t) (length (ops t))) / of_nat (hi u - lo u), t', u))"
    "high_water (unat (num_ids t)) (ops t) (length (ops t)) \<le> hi u - lo u" "lo u + 4240 \<le> hi u"
    "hi u \<le> lo u + 4240 + length (ops t) * max (N + 39) 4096"
    "same_trace t t'" "driver_ready N u" "mm_state.more u = mm_state.more s"
  then show thesis by (rule that)
qed (use room in simp_all)

end
