(* ===== verification/Eval_Speed.thy ===== *)
theory Eval_Speed
  imports Eval_Util
begin

text \<open>
  \<open>eval_mm_speed\<close>, the function of \<^verbatim>\<open>mdriver.c\<close> that is timed, and that its run is the run
  \<open>eval_mm_util\<close> measures.
\<close>

section \<open>The code\<close>

definition speed_op :: "nat \<Rightarrow> trace \<times> 'a mm_state_scheme \<Rightarrow>
    (string option \<times> trace \<times> 'a mm_state_scheme) option" where
  "speed_op i = (\<lambda>(t, s). do {
     op \<leftarrow> op_at t i;
     (case op_type op of
        ALLOC \<Rightarrow> do {
          (p, s) \<leftarrow> mm_malloc (op_size op) s;
          if p = 0 then Some (Some ''mm_malloc error in eval_mm_speed'', t, s)
          else do { t \<leftarrow> set_block (op_index op) p t; Some (None, t, s) } }
      | REALLOC \<Rightarrow> do {
          oldp \<leftarrow> read_at (blocks t) (op_index op);
          (newp, s) \<leftarrow> mm_realloc oldp (op_size op) s;
          if newp = 0 then Some (Some ''mm_realloc error in eval_mm_speed'', t, s)
          else do { t \<leftarrow> set_block (op_index op) newp t; Some (None, t, s) } }
      | FREE \<Rightarrow> do {
          block \<leftarrow> read_at (blocks t) (op_index op);
          s \<leftarrow> mm_free block s;
          Some (None, t, s) }) })"

definition eval_mm_speed :: "trace \<Rightarrow> 'a mm_state_scheme \<Rightarrow>
    (string + trace \<times> 'a mm_state_scheme) option" where
  "eval_mm_speed t s = do {
     let s = mem_reset_brk s;
     (r, s) \<leftarrow> mm_init s;
     if r < 0 then Some (Inl ''mm_init failed in eval_mm_speed'')
     else do {
       (v, ts) \<leftarrow> for_each speed_op (op_numbers t) (t, s);
       (case v of Some msg \<Rightarrow> Some (Inl msg) | None \<Rightarrow> Some (Inr ts)) } }"

section \<open>One loop follows another\<close>

lemma for_each_simulates:
  assumes step: "\<And>i x y x'. R x y \<Longrightarrow> body i x = Some (None, x') \<Longrightarrow>
      \<exists>y'. body' i y = Some (None, y') \<and> R x' y'"
  shows "R x y \<Longrightarrow> for_each body is x = Some (None, x') \<Longrightarrow>
    \<exists>y'. for_each body' is y = Some (None, y') \<and> R x' y'"
proof (induction "is" arbitrary: x y)
  case Nil
  then show ?case by simp
next
  case (Cons i "is")
  from Cons.prems(2) obtain z where z: "body i x = Some (None, z)" "for_each body is z = Some (None, x')"
    by (auto split: Option.bind_splits option.splits)
  from step [OF Cons.prems(1) z(1)] obtain y' where "body' i y = Some (None, y')" "R z y'" by blast
  with Cons.IH [OF _ z(2)] show ?case by auto
qed

text \<open>
  The run that is timed makes the calls of the run that was measured; only it does not record
  the sizes.
\<close>

lemma speed_op_follows:
  assumes "util_op i (t, T, M, s) = Some (None, t', T', M', s')"
    "t = u\<lparr>block_sizes := ns\<rparr>"
  shows "\<exists>u' ns'. speed_op i (u, s) = Some (None, u', s') \<and> t' = u'\<lparr>block_sizes := ns'\<rparr>
    \<and> block_sizes u' = block_sizes u"
  using assms
  by (auto simp: util_op_def speed_op_def util_alloc_def util_realloc_def util_free_def op_at_def
      set_block_def set_block_size_def write_at_def read_at_def Let_def
      split: Option.bind_splits optype.splits if_splits prod.splits)

lemma eval_mm_speed_util:
  assumes "eval_mm_util t s = Some (Inr (q, t', u))"
  shows "eval_mm_speed t s = Some (Inr (t'\<lparr>block_sizes := block_sizes t\<rparr>, u))"
proof -
  let ?R = "\<lambda>(x, T, M, s) (y, s'). s' = s \<and> (\<exists>ns. x = y\<lparr>block_sizes := ns\<rparr>)
    \<and> block_sizes y = block_sizes t"
  from assms obtain s0 r T M where s0: "mm_init (mem_reset_brk s) = Some (r, s0)" "\<not> r < 0"
    and run: "for_each util_op (op_numbers t) (t, 0, 0, s0) = Some (None, t', T, M, u)"
    by (auto simp: eval_mm_util_def split: Option.bind_splits if_splits option.splits prod.splits)
  have "?R (t, 0, 0, s0) (t, s0)" by (auto intro: exI [of _ "block_sizes t"])
  from for_each_simulates [where R = ?R, OF _ this run] speed_op_follows
  have "\<exists>y. for_each speed_op (op_numbers t) (t, s0) = Some (None, y) \<and> ?R (t', T, M, u) y"
    by fastforce
  with s0 show ?thesis by (auto simp: eval_mm_speed_def)
qed

end
