(* ===== verification/Libc.thy ===== *)
theory Libc
  imports Alloc_Prelude
begin

text \<open>
  The allocator of the C library. It is not part of the program: its calls are a parameter, with a
  state of their own, and what the driver relies on is stated of them.
\<close>

section \<open>The calls\<close>

text \<open>The library's allocator: \<open>malloc\<close>, \<open>realloc\<close> and \<open>free\<close>; \<open>unix_error\<close> ends the program.\<close>

record 'h libc =
  malloc :: "u32 \<Rightarrow> 'h \<Rightarrow> (u32 \<times> 'h) option"
  realloc :: "u32 \<Rightarrow> u32 \<Rightarrow> 'h \<Rightarrow> (u32 \<times> 'h) option"
  free' :: "u32 \<Rightarrow> 'h \<Rightarrow> 'h option"

section \<open>What the library promises\<close>

text \<open>
  What the C standard says of \<open>malloc\<close>, \<open>realloc\<close> and \<open>free\<close>, as far as the driver relies on it.
  \<open>R h m\<close> says that \<open>m\<close> are the live blocks of the library and their sizes before a call, and \<open>R'\<close>
  the same after it. A call is defined for a live block and a size between 1 and \<open>N\<close>; \<open>may\<close> says
  whether \<open>malloc\<close> and \<open>realloc\<close> may fail, with a null pointer.
\<close>

definition libc_call :: "bool \<Rightarrow> nat \<Rightarrow> 'h libc \<Rightarrow> ('h \<Rightarrow> (nat \<rightharpoonup> nat) \<Rightarrow> bool) \<Rightarrow>
    ('h \<Rightarrow> (nat \<rightharpoonup> nat) \<Rightarrow> bool) \<Rightarrow> bool" where
  "libc_call may N L R R' \<longleftrightarrow>
     (\<forall>h m n. R h m \<longrightarrow> 0 < unat n \<longrightarrow> unat n \<le> N \<longrightarrow> (\<exists>r h'. malloc L n h = Some (r, h')
        \<and> (may \<and> r = 0 \<and> R' h' m \<or> (\<exists>a c. r = w32 a \<and> r \<noteq> 0 \<and> m a = None \<and> R' h' (m(a \<mapsto> c))))))
     \<and> (\<forall>h m a c n. R h m \<longrightarrow> m a = Some c \<longrightarrow> 0 < unat n \<longrightarrow> unat n \<le> N \<longrightarrow>
        (\<exists>r h'. realloc L (w32 a) n h = Some (r, h')
          \<and> (may \<and> r = 0 \<and> R' h' m \<or> (\<exists>b d. r = w32 b \<and> r \<noteq> 0 \<and> (m(a := None)) b = None
               \<and> R' h' ((m(a := None))(b \<mapsto> d))))))
     \<and> (\<forall>h m a c. R h m \<longrightarrow> m a = Some c \<longrightarrow> (\<exists>h'. free' L (w32 a) h = Some h' \<and> R' h' (m(a := None))))"

text \<open>
  A library as the standard has it, and one that has the memory for \<open>k\<close> further calls in the
  states \<open>rep k\<close>.
\<close>

definition libc_behaves :: "'h libc \<Rightarrow> ('h \<Rightarrow> (nat \<rightharpoonup> nat) \<Rightarrow> bool) \<Rightarrow> bool" where
  "libc_behaves L rep \<longleftrightarrow> (\<forall>N. libc_call True N L rep rep)"

definition libc_serves :: "nat \<Rightarrow> 'h libc \<Rightarrow> (nat \<Rightarrow> 'h \<Rightarrow> (nat \<rightharpoonup> nat) \<Rightarrow> bool) \<Rightarrow> bool" where
  "libc_serves N L rep \<longleftrightarrow> (\<forall>k. libc_call False N L (rep (Suc k)) (rep k))"

lemma libc_behavesD: "libc_behaves L rep \<Longrightarrow> libc_call True N L rep rep"
  by (simp add: libc_behaves_def)

lemma libc_servesD: "libc_serves N L rep \<Longrightarrow> libc_call False N L (rep (Suc k)) (rep k)"
  by (simp add: libc_serves_def)

lemma libc_mallocE:
  assumes "libc_call may N L R R'" "R h m" "0 < unat n" "unat n \<le> N"
  obtains r h' where "malloc L n h = Some (r, h')" "r = 0 \<longrightarrow> may"
    "r \<noteq> 0 \<longrightarrow> (\<exists>a c. r = w32 a \<and> m a = None \<and> R' h' (m(a \<mapsto> c)))"
  using assms unfolding libc_call_def by meson

lemma libc_reallocE:
  assumes "libc_call may N L R R'" "R h m" "m a = Some c" "0 < unat n" "unat n \<le> N"
  obtains r h' where "realloc L (w32 a) n h = Some (r, h')" "r = 0 \<longrightarrow> may"
    "r \<noteq> 0 \<longrightarrow> (\<exists>b d. r = w32 b \<and> (m(a := None)) b = None \<and> R' h' ((m(a := None))(b \<mapsto> d)))"
  using assms unfolding libc_call_def by meson

lemma libc_freeE:
  assumes "libc_call may N L R R'" "R h m" "a \<in> dom m"
  obtains h' where "free' L (w32 a) h = Some h'" "R' h' (m(a := None))"
  using assms unfolding libc_call_def by (meson domD)

text \<open>A library that serves larger requests serves smaller ones.\<close>

lemma libc_call_mono: "libc_call may M L R R' \<Longrightarrow> N \<le> M \<Longrightarrow> libc_call may N L R R'"
  unfolding libc_call_def by (meson order_trans)

lemma libc_serves_mono: "libc_serves M L rep \<Longrightarrow> N \<le> M \<Longrightarrow> libc_serves N L rep"
  unfolding libc_serves_def using libc_call_mono by blast

end
