(* ===== verification/Trace_Memory.thy ===== *)
theory Trace_Memory
  imports Libc
begin

text \<open>
  The storage of a trace: the record and the three arrays that \<open>read_trace\<close> obtains from the C
  library and \<open>free_trace\<close> gives back. The contents of the trace are the subject of Read_Trace;
  here only the calls of the library are followed, in the order the code makes them.
\<close>

section \<open>The code\<close>

record trace_store =
  record_at :: u32
  ops_at :: u32
  blocks_at :: u32
  sizes_at :: u32

text \<open>
  The three arrays, once the record is there; a null pointer ends the program with a message.
\<close>

definition alloc_arrays :: "'h libc \<Rightarrow> u32 \<Rightarrow> u32 \<Rightarrow> u32 \<Rightarrow> 'h \<Rightarrow> (string + trace_store \<times> 'h) option" where
  "alloc_arrays L nops nids p h = do {
     (os, h) \<leftarrow> malloc L (nops * 12) h;
     if os = 0 then Some (Inl ''malloc 2 failed in read_trace'')
     else do {
       (bs, h) \<leftarrow> malloc L (nids * 4) h;
       if bs = 0 then Some (Inl ''malloc 3 failed in read_trace'')
       else do {
         (ns, h) \<leftarrow> malloc L (nids * 4) h;
         if ns = 0 then Some (Inl ''malloc 4 failed in read_trace'')
         else Some (Inr (\<lparr>record_at = p, ops_at = os, blocks_at = bs, sizes_at = ns\<rparr>, h)) } } }"

definition free_trace :: "'h libc \<Rightarrow> trace_store \<Rightarrow> 'h \<Rightarrow> 'h option" where
  "free_trace L t h = do {
     h \<leftarrow> free' L (ops_at t) h;
     h \<leftarrow> free' L (blocks_at t) h;
     h \<leftarrow> free' L (sizes_at t) h;
     free' L (record_at t) h }"

text \<open>All the storage of a trace, the calls without what is read between them.\<close>

definition alloc_trace :: "'h libc \<Rightarrow> u32 \<Rightarrow> u32 \<Rightarrow> 'h \<Rightarrow> (string + trace_store \<times> 'h) option" where
  "alloc_trace L nops nids h = do {
     (p, h) \<leftarrow> malloc L 28 h;
     if p = 0 then Some (Inl ''malloc 1 failed in read_trance'') else alloc_arrays L nops nids p h }"

section \<open>What is obtained is given back\<close>

text \<open>\<open>owns t S\<close>: the four objects of \<open>t\<close> are the distinct blocks \<open>S\<close>.\<close>

definition owns :: "trace_store \<Rightarrow> nat set \<Rightarrow> bool" where
  "owns t S \<longleftrightarrow> (\<exists>a b c d. distinct [a, b, c, d] \<and> S = {a, b, c, d}
     \<and> t = \<lparr>record_at = w32 a, ops_at = w32 b, blocks_at = w32 c, sizes_at = w32 d\<rparr>)"

text \<open>The states of the library before the calls are those of \<open>R 0\<close>, \<open>R 1\<close> and so on.\<close>

lemma alloc_trace_ok:
  assumes L: "\<And>k. k < 4 \<Longrightarrow> libc_call may N L (R k) (R (Suc k))" and h: "R 0 h m" and N: "28 \<le> N"
    and n: "0 < unat (nops * 12)" "unat (nops * 12) \<le> N" "0 < unat (nids * 4)" "unat (nids * 4) \<le> N"
  shows "may \<and> (\<exists>msg. alloc_trace L nops nids h = Some (Inl msg))
    \<or> (\<exists>t S h' K. alloc_trace L nops nids h = Some (Inr (t, h')) \<and> owns t S \<and> R 4 h' K
        \<and> S \<inter> dom m = {} \<and> dom K = S \<union> dom m)"
proof -
  have n1: "0 < unat (28 :: u32)" "unat (28 :: u32) \<le> N" using N by simp_all
  have c: "libc_call may N L (R 0) (R 1)" "libc_call may N L (R 1) (R 2)" "libc_call may N L (R 2) (R 3)"
    "libc_call may N L (R 3) (R 4)" using L [of 0] L [of 1] L [of 2] L [of 3] by (simp_all add: numeral_eq_Suc)
  obtain r1 h1 where 1: "malloc L 28 h = Some (r1, h1)" "r1 = 0 \<longrightarrow> may"
    "r1 \<noteq> 0 \<longrightarrow> (\<exists>a k. r1 = w32 a \<and> m a = None \<and> R 1 h1 (m(a \<mapsto> k)))" by (rule libc_mallocE [OF c(1) h n1])
  show ?thesis
  proof (cases "r1 = 0")
    case False
    with 1(3) obtain a k1 where a: "r1 = w32 a" "m a = None" "R 1 h1 (m(a \<mapsto> k1))" by blast
    obtain r2 h2 where 2: "malloc L (nops * 12) h1 = Some (r2, h2)" "r2 = 0 \<longrightarrow> may" "r2 \<noteq> 0 \<longrightarrow>
      (\<exists>b k. r2 = w32 b \<and> (m(a \<mapsto> k1)) b = None \<and> R 2 h2 (m(a \<mapsto> k1, b \<mapsto> k)))"
      by (rule libc_mallocE [OF c(2) a(3) n(1,2)])
    show ?thesis
    proof (cases "r2 = 0")
      case r2: False
      with 2(3) obtain b k2 where b: "r2 = w32 b" "(m(a \<mapsto> k1)) b = None" "R 2 h2 (m(a \<mapsto> k1, b \<mapsto> k2))"
        by blast
      obtain r3 h3 where 3: "malloc L (nids * 4) h2 = Some (r3, h3)" "r3 = 0 \<longrightarrow> may" "r3 \<noteq> 0 \<longrightarrow> (\<exists>c k. r3 = w32 c
        \<and> (m(a \<mapsto> k1, b \<mapsto> k2)) c = None \<and> R 3 h3 (m(a \<mapsto> k1, b \<mapsto> k2, c \<mapsto> k)))"
        by (rule libc_mallocE [OF c(3) b(3) n(3,4)])
      show ?thesis
      proof (cases "r3 = 0")
        case r3: False
        with 3(3) obtain c k3 where c3: "r3 = w32 c" "(m(a \<mapsto> k1, b \<mapsto> k2)) c = None"
          "R 3 h3 (m(a \<mapsto> k1, b \<mapsto> k2, c \<mapsto> k3))" by blast
        obtain r4 h4 where 4: "malloc L (nids * 4) h3 = Some (r4, h4)" "r4 = 0 \<longrightarrow> may" "r4 \<noteq> 0 \<longrightarrow> (\<exists>d k. r4 = w32 d
          \<and> (m(a \<mapsto> k1, b \<mapsto> k2, c \<mapsto> k3)) d = None \<and> R 4 h4 (m(a \<mapsto> k1, b \<mapsto> k2, c \<mapsto> k3, d \<mapsto> k)))"
          by (rule libc_mallocE [OF c(4) c3(3) n(3,4)])
        show ?thesis
        proof (cases "r4 = 0")
          case r4: False
          with 4(3) obtain d k4 where d: "r4 = w32 d" "(m(a \<mapsto> k1, b \<mapsto> k2, c \<mapsto> k3)) d = None"
            "R 4 h4 (m(a \<mapsto> k1, b \<mapsto> k2, c \<mapsto> k3, d \<mapsto> k4))" by blast
          let ?t = "\<lparr>record_at = r1, ops_at = r2, blocks_at = r3, sizes_at = r4\<rparr>" and ?S = "{a, b, c, d}"
          let ?K = "m(a \<mapsto> k1, b \<mapsto> k2, c \<mapsto> k3, d \<mapsto> k4)"
          have new: "m a = None" "m b = None" "m c = None" "m d = None" "distinct [a, b, c, d]"
            using a(2) b(2) c3(2) d(2) by (auto split: if_splits)
          then have "owns ?t ?S" using a(1) b(1) c3(1) d(1) unfolding owns_def by blast
          moreover have "alloc_trace L nops nids h = Some (Inr (?t, h4))"
            using False r2 r3 r4 1(1) 2(1) 3(1) 4(1) by (simp add: alloc_trace_def alloc_arrays_def)
          moreover have "?S \<inter> dom m = {}" "dom ?K = ?S \<union> dom m" using new by auto
          ultimately show ?thesis using d(3) by blast
        qed (use False r2 r3 1(1) 2(1) 3(1) 4(1,2) in \<open>simp add: alloc_trace_def alloc_arrays_def\<close>)
      qed (use False r2 1(1) 2(1) 3(1,2) in \<open>simp add: alloc_trace_def alloc_arrays_def\<close>)
    qed (use False 1(1) 2(1,2) in \<open>simp add: alloc_trace_def alloc_arrays_def\<close>)
  qed (use 1(1,2) in \<open>simp add: alloc_trace_def\<close>)
qed

lemma free_trace_ok:
  assumes L: "\<And>k. k < 4 \<Longrightarrow> libc_call may N L (R k) (R (Suc k))"
    and t: "owns t S" and S: "S \<subseteq> dom K" and h: "R 0 h K"
  shows "\<exists>h'. free_trace L t h = Some h' \<and> R 4 h' (K |` (- S))"
proof -
  from t obtain a b c d where t: "distinct [a, b, c, d]" "S = {a, b, c, d}"
    "t = \<lparr>record_at = w32 a, ops_at = w32 b, blocks_at = w32 c, sizes_at = w32 d\<rparr>"
    unfolding owns_def by blast
  have l: "libc_call may N L (R 0) (R 1)" "libc_call may N L (R 1) (R 2)" "libc_call may N L (R 2) (R 3)"
    "libc_call may N L (R 3) (R 4)" using L [of 0] L [of 1] L [of 2] L [of 3] by (simp_all add: numeral_eq_Suc)
  have "b \<in> dom K" using t(2) S by simp
  from libc_freeE [OF l(1) h this] obtain h1 where 1: "free' L (w32 b) h = Some h1" "R 1 h1 (K(b := None))" .
  have "c \<in> dom (K(b := None))" using t(1,2) S by auto
  from libc_freeE [OF l(2) 1(2) this] obtain h2 where
    2: "free' L (w32 c) h1 = Some h2" "R 2 h2 (K(b := None, c := None))" .
  have "d \<in> dom (K(b := None, c := None))" using t(1,2) S by auto
  from libc_freeE [OF l(3) 2(2) this] obtain h3 where
    3: "free' L (w32 d) h2 = Some h3" "R 3 h3 (K(b := None, c := None, d := None))" .
  have "a \<in> dom (K(b := None, c := None, d := None))" using t(1,2) S by auto
  from libc_freeE [OF l(4) 3(2) this] obtain h4 where
    4: "free' L (w32 a) h3 = Some h4" "R 4 h4 (K(b := None, c := None, d := None, a := None))" .
  have "K(b := None, c := None, d := None, a := None) = K |` (- S)"
    using t(2) by (auto simp: fun_eq_iff restrict_map_def)
  with 1(1) 2(1) 3(1) 4 show ?thesis by (simp add: free_trace_def t(3))
qed

text \<open>Under a library that has the memory for the calls, the storage is obtained and given back.\<close>

definition storable :: "nat \<Rightarrow> u32 \<Rightarrow> u32 \<Rightarrow> bool" where
  "storable N nops nids \<longleftrightarrow> 28 \<le> N \<and> 0 < unat (nops * 12) \<and> unat (nops * 12) \<le> N
     \<and> 0 < unat (nids * 4) \<and> unat (nids * 4) \<le> N"

definition held :: "trace_store \<Rightarrow> (nat \<rightharpoonup> nat) \<Rightarrow> bool" where
  "held t m \<longleftrightarrow> (\<exists>S. owns t S \<and> S \<subseteq> dom m)"

lemma held_mono: "held t m \<Longrightarrow> dom m \<subseteq> dom m' \<Longrightarrow> held t m'"
  unfolding held_def by blast

lemma libc_serves_calls:
  assumes "libc_serves N L rep" "k < n"
  shows "libc_call False N L (rep (K + n - k)) (rep (K + n - Suc k))"
proof -
  have "K + n - k = Suc (K + n - Suc k)" using assms(2) by simp
  then show ?thesis using libc_servesD [OF assms(1)] by metis
qed

lemma alloc_trace_served:
  assumes L: "libc_serves N L rep" and h: "rep (K + 4) h m" and n: "storable N nops nids"
  shows "\<exists>t h' m'. alloc_trace L nops nids h = Some (Inr (t, h')) \<and> rep K h' m' \<and> held t m'"
proof -
  have n: "28 \<le> N" "0 < unat (nops * 12)" "unat (nops * 12) \<le> N" "0 < unat (nids * 4)" "unat (nids * 4) \<le> N"
    using n by (simp_all add: storable_def)
  have "rep (K + 4 - 0) h m" using h by simp
  from alloc_trace_ok [where R = "\<lambda>k. rep (K + 4 - k)", OF libc_serves_calls [OF L] this n]
  obtain t S h' m' where "alloc_trace L nops nids h = Some (Inr (t, h'))" "owns t S" "rep K h' m'"
    "dom m' = S \<union> dom m" by auto
  then show ?thesis unfolding held_def by blast
qed

lemma free_trace_served:
  assumes L: "libc_serves N L rep" and h: "rep (K + 4) h m" and t: "held t m"
  shows "\<exists>h' m'. free_trace L t h = Some h' \<and> rep K h' m'"
proof -
  obtain S where S: "owns t S" "S \<subseteq> dom m" using t by (auto simp: held_def)
  have "rep (K + 4 - 0) h m" using h by simp
  from free_trace_ok [where R = "\<lambda>k. rep (K + 4 - k)", OF libc_serves_calls [OF L] S this] show ?thesis by auto
qed

end
