(* ===== verification/Read_Trace.thy ===== *)
theory Read_Trace
  imports Requests Trace_Memory
begin

text \<open>
  \<open>read_trace\<close> of \<^verbatim>\<open>mdriver.c\<close>: the reader of trace files, with the conversions of \<open>fscanf\<close> it
  uses; its storage is that of Trace_Memory. A file is the list of its characters still to be read.
\<close>

section \<open>The conversions of fscanf\<close>

definition is_space :: "char \<Rightarrow> bool" where
  "is_space c \<longleftrightarrow> c \<in> {CHR '' '', CHR 0x09, CHR 0x0A, CHR 0x0B, CHR 0x0C, CHR 0x0D}"

definition is_digit :: "char \<Rightarrow> bool" where
  "is_digit c \<longleftrightarrow> 48 \<le> (of_char c :: nat) \<and> (of_char c :: nat) \<le> 57"

definition skip_space :: "string \<Rightarrow> string" where
  "skip_space s = dropWhile is_space s"

definition decimal :: "string \<Rightarrow> nat" where
  "decimal ds = foldl (\<lambda>v c. 10 * v + (of_char c - 48)) 0 ds"

text \<open>
  An integer: white space, an optional sign, digits. A failed match leaves its argument
  alone; the input read so far is consumed.
\<close>

definition scan_int :: "string \<Rightarrow> int option \<times> string" where
  "scan_int s =
     (let s = skip_space s;
          negative = (s \<noteq> [] \<and> hd s = CHR ''-'');
          s = (if s \<noteq> [] \<and> (hd s = CHR ''-'' \<or> hd s = CHR ''+'') then tl s else s);
          ds = takeWhile is_digit s
      in (if ds = [] then None else Some (if negative then - int (decimal ds) else int (decimal ds)),
          dropWhile is_digit s))"

text \<open>
  \<^verbatim>\<open>%d\<close> and \<^verbatim>\<open>%u\<close>: a number that does not fit is undefined. The first component says whether
  the conversion succeeded, so that the next directive of the format is run.
\<close>

definition scan_d :: "u32 \<Rightarrow> string \<Rightarrow> (bool \<times> u32 \<times> string) option" where
  "scan_d old s = (case scan_int s of
     (None, r) \<Rightarrow> Some (False, old, r)
   | (Some v, r) \<Rightarrow> if -2147483648 \<le> v \<and> v < 2147483648 then Some (True, word_of_int v, r) else None)"

definition scan_u :: "u32 \<Rightarrow> string \<Rightarrow> (bool \<times> u32 \<times> string) option" where
  "scan_u old s = (case scan_int s of
     (None, r) \<Rightarrow> Some (False, old, r)
   | (Some v, r) \<Rightarrow> if \<bar>v\<bar> < 4294967296 then Some (True, word_of_int v, r) else None)"

text \<open>\<^verbatim>\<open>fscanf(f, "%u %u", &index, &size)\<close> and \<^verbatim>\<open>fscanf(f, "%ud", &index)\<close>.\<close>

definition scan_u_u :: "u32 \<Rightarrow> u32 \<Rightarrow> string \<Rightarrow> (u32 \<times> u32 \<times> string) option" where
  "scan_u_u index size' s = do {
     (ok, index, s) \<leftarrow> scan_u index s;
     if \<not> ok then Some (index, size', s)
     else do { (_, size', s) \<leftarrow> scan_u size' (skip_space s); Some (index, size', s) } }"

definition scan_ud :: "u32 \<Rightarrow> string \<Rightarrow> (u32 \<times> string) option" where
  "scan_ud index s = do {
     (ok, index, s) \<leftarrow> scan_u index s;
     Some (index, if ok \<and> s \<noteq> [] \<and> hd s = CHR ''d'' then tl s else s) }"

definition MAXLINE :: nat where
  "MAXLINE = 1024"

text \<open>\<^verbatim>\<open>%s\<close>: a word, or the end of the file; a word the buffer cannot hold is undefined.\<close>

definition scan_word :: "string \<Rightarrow> (string \<times> string) option" where
  "scan_word s = (let s = skip_space s in
     if s = [] then None
     else Some (takeWhile (\<lambda>c. \<not> is_space c) s, dropWhile (\<lambda>c. \<not> is_space c) s))"

lemma scan_word_shorter: "scan_word s = Some (w, r) \<Longrightarrow> length r < length s \<and> w \<noteq> []"
proof -
  assume a: "scan_word s = Some (w, r)"
  then have s: "skip_space s \<noteq> []" and r: "r = dropWhile (\<lambda>c. \<not> is_space c) (skip_space s)"
    and w: "w = takeWhile (\<lambda>c. \<not> is_space c) (skip_space s)"
    by (auto simp: scan_word_def Let_def split: if_splits)
  have "\<not> is_space (hd (skip_space s))" using s unfolding skip_space_def by (rule hd_dropWhile)
  then have "length r < length (skip_space s)" "w \<noteq> []"
    using s r w by (cases "skip_space s"; simp add: le_imp_less_Suc length_dropWhile_le)+
  then show ?thesis using length_dropWhile_le [of is_space s] by (simp add: skip_space_def)
qed

lemma scan_u_shorter: "scan_u old s = Some (ok, v, r) \<Longrightarrow> length r \<le> length s"
proof -
  assume a: "scan_u old s = Some (ok, v, r)"
  let ?s = "skip_space s"
  let ?t = "if ?s \<noteq> [] \<and> (hd ?s = CHR ''-'' \<or> hd ?s = CHR ''+'') then tl ?s else ?s"
  have "r = dropWhile is_digit ?t"
    using a by (auto simp: scan_u_def scan_int_def Let_def split: if_splits)
  then have "length r \<le> length ?t" by (simp add: length_dropWhile_le)
  also have "\<dots> \<le> length ?s" by simp
  also have "\<dots> \<le> length s" by (simp add: skip_space_def length_dropWhile_le)
  finally show ?thesis .
qed

lemma skip_space_shorter: "length (skip_space s) \<le> length s"
  by (simp add: skip_space_def length_dropWhile_le)

lemma scan_u_u_shorter:
  assumes "scan_u_u index n s = Some (v, w, r)"
  shows "length r \<le> length s"
proof -
  obtain ok i s' where u: "scan_u index s = Some (ok, i, s')"
    using assms by (cases "scan_u index s") (auto simp: scan_u_u_def)
  then have "length s' \<le> length s" by (rule scan_u_shorter)
  moreover have "length r \<le> length s'"
  proof (cases ok)
    case True
    with assms u obtain b where "scan_u n (skip_space s') = Some (b, w, r)"
      by (cases "scan_u n (skip_space s')") (auto simp: scan_u_u_def)
    from scan_u_shorter [OF this] skip_space_shorter [of s'] show ?thesis by simp
  qed (use assms u in \<open>simp add: scan_u_u_def\<close>)
  ultimately show ?thesis by simp
qed

lemma scan_ud_shorter:
  assumes "scan_ud index s = Some (v, r)"
  shows "length r \<le> length s"
proof -
  obtain ok i s' where u: "scan_u index s = Some (ok, i, s')"
    using assms by (cases "scan_u index s") (auto simp: scan_ud_def)
  with assms scan_u_shorter [OF u] show ?thesis by (auto simp: scan_ud_def split: if_splits)
qed

section \<open>The reader\<close>

text \<open>
  The surroundings of \<open>read_trace\<close>: the files, and the unspecified contents of the memory its
  calls of \<open>malloc\<close> (numbered from 1) return and of its local \<open>size\<close>.
\<close>

record surroundings =
  files :: "string \<Rightarrow> string option"
  fresh_trace :: trace
  fresh_op :: "nat \<Rightarrow> traceop"
  fresh_word :: "nat \<Rightarrow> nat \<Rightarrow> u32"
  fresh_size :: u32

text \<open>
  The \<open>switch\<close> on the type character; \<open>k\<close> is the code's \<open>op_index\<close>. A write past the array is
  undefined. The left alternative ends the program with its message.
\<close>

definition read_request :: "string \<Rightarrow> char \<Rightarrow> string \<Rightarrow> u32 \<Rightarrow> u32 \<Rightarrow> u32 \<Rightarrow> u32 \<Rightarrow> traceop list \<Rightarrow>
    (string + string \<times> u32 \<times> u32 \<times> u32 \<times> traceop list) option" where
  "read_request path c s index size' max_index k os =
     (if c = CHR ''a'' then do {
        (index, size', s) \<leftarrow> scan_u_u index size' s;
        os \<leftarrow> write_at os k \<lparr>op_type = ALLOC, op_index = index, op_size = size'\<rparr>;
        Some (Inr (s, index, size', if index > max_index then index else max_index, os)) }
      else if c = CHR ''r'' then do {
        (index, size', s) \<leftarrow> scan_u_u index size' s;
        os \<leftarrow> write_at os k \<lparr>op_type = REALLOC, op_index = index, op_size = size'\<rparr>;
        Some (Inr (s, index, size', if index > max_index then index else max_index, os)) }
      else if c = CHR ''f'' then do {
        (index, s) \<leftarrow> scan_ud index s;
        old \<leftarrow> read_at os k;
        os \<leftarrow> write_at os k (old\<lparr>op_type := FREE, op_index := index\<rparr>);
        Some (Inr (s, index, size', max_index, os)) }
      else Some (Inl (''Bogus type character ('' @ [c] @ '') in tracefile '' @ path)))"

lemma read_request_shorter:
  "read_request path c s index n m k os = Some (Inr (r, v)) \<Longrightarrow> length r \<le> length s"
  by (auto simp: read_request_def split: Option.bind_splits if_splits
      dest!: scan_u_u_shorter scan_ud_shorter)

text \<open>The loop over the request lines: every round reads at least one character.\<close>

function read_requests :: "string \<Rightarrow> string \<Rightarrow> u32 \<Rightarrow> u32 \<Rightarrow> u32 \<Rightarrow> u32 \<Rightarrow> traceop list \<Rightarrow>
    (string + u32 \<times> u32 \<times> traceop list) option" where
  "read_requests path s index size' max_index k os =
     (case scan_word s of
        None \<Rightarrow> Some (Inr (max_index, k, os))
      | Some (w, s') \<Rightarrow>
          if MAXLINE \<le> length w then None
          else (case read_request path (hd w) s' index size' max_index k os of
              None \<Rightarrow> None
            | Some (Inl e) \<Rightarrow> Some (Inl e)
            | Some (Inr (s'', index, size', max_index, os)) \<Rightarrow>
                read_requests path s'' index size' max_index (k + 1) os))"
  by pat_completeness auto
termination
proof (relation "measure (\<lambda>(path, s, _). length s)")
  fix path s index n m k os p w s' r e e' p1 s'' p2 index' p3 n' p4 m' os'
  assume "scan_word s = Some p" "(w, s') = p" "\<not> MAXLINE \<le> length w"
    "read_request path (hd w) s' index n m k os = Some r" "r = Inr p1" "(s'', p2) = p1"
  then show "((path, s'', index', n', m', k + 1, os'), path, s, index, n, m, k, os)
      \<in> measure (\<lambda>(path, s, _). length s)"
    using scan_word_shorter [of s w s'] read_request_shorter [of path "hd w" s' index n m k os s'' p2]
    by auto
qed simp

declare read_requests.simps [simp del]

text \<open>The result is the trace, the addresses of its storage, and the library's state.\<close>

definition read_trace :: "'h libc \<Rightarrow> surroundings \<Rightarrow> string \<Rightarrow> string \<Rightarrow> 'h \<Rightarrow>
    (string + trace \<times> trace_store \<times> 'h) option" where
  "read_trace L E tracedir filename h = do {
     (p, h) \<leftarrow> malloc L 28 h;
     if p = 0 then Some (Inl ''malloc 1 failed in read_trance'')
     else if MAXLINE \<le> length (tracedir @ filename) then None
     else (case files E (tracedir @ filename) of
         None \<Rightarrow>
           (let msg = ''Could not open '' @ (tracedir @ filename) @ '' in read_trace''
            in if MAXLINE \<le> length msg then None else Some (Inl msg))
       | Some s \<Rightarrow> do {
           (_, heapsize, s) \<leftarrow> scan_d (sugg_heapsize (fresh_trace E)) s;
           (_, nids, s) \<leftarrow> scan_d (num_ids (fresh_trace E)) s;
           (_, nops, s) \<leftarrow> scan_d (num_ops (fresh_trace E)) s;
           (_, weight', s) \<leftarrow> scan_d (weight (fresh_trace E)) s;
           r \<leftarrow> alloc_arrays L nops nids p h;
           (case r of
              Inl e \<Rightarrow> Some (Inl e)
            | Inr (st, h) \<Rightarrow> do {
                r \<leftarrow> read_requests (tracedir @ filename) s 0 (fresh_size E) 0 0
                       (map (fresh_op E) [0..<unat (nops * 12) div 12]);
                (case r of
                   Inl e \<Rightarrow> Some (Inl e)
                 | Inr (max_index, k, os) \<Rightarrow>
                     if max_index \<noteq> nids - 1 then Some (Inl ''max_index == trace->num_ids - 1'')
                     else if nops \<noteq> k then Some (Inl ''trace->num_ops == op_index'')
                     else Some (Inr (\<lparr>sugg_heapsize = heapsize, num_ids = nids, num_ops = nops,
                       weight = weight', ops = os,
                       blocks = map (fresh_word E 3) [0..<unat (nids * 4) div 4],
                       block_sizes = map (fresh_word E 4) [0..<unat (nids * 4) div 4]\<rparr>, st, h))) }) }) }"

text \<open>The storage of a trace that was read is what its header asks for.\<close>

lemma read_trace_storage:
  assumes "read_trace L E dir name h = Some (Inr (t, st, h'))"
  shows "alloc_trace L (num_ops t) (num_ids t) h = Some (Inr (st, h'))"
  using assms by (auto simp: read_trace_def alloc_trace_def Let_def
      split: Option.bind_splits if_splits option.splits sum.splits)

section \<open>Printing a trace\<close>

fun show_nat :: "nat \<Rightarrow> string" where
  "show_nat n = (if n < 10 then [char_of (48 + n)] else show_nat (n div 10) @ [char_of (48 + n mod 10)])"

declare show_nat.simps [simp del]

definition newline :: char where
  "newline = CHR 0x0A"

definition print_op :: "traceop \<Rightarrow> string" where
  "print_op op = (case op_type op of
       ALLOC \<Rightarrow> ''a '' @ show_nat (unat (op_index op)) @ '' '' @ show_nat (unat (op_size op))
     | REALLOC \<Rightarrow> ''r '' @ show_nat (unat (op_index op)) @ '' '' @ show_nat (unat (op_size op))
     | FREE \<Rightarrow> ''f '' @ show_nat (unat (op_index op))) @ [newline]"

definition print_trace :: "trace \<Rightarrow> string" where
  "print_trace t = show_nat (unat (sugg_heapsize t)) @ [newline] @ show_nat (unat (num_ids t)) @ [newline]
     @ show_nat (unat (num_ops t)) @ [newline] @ show_nat (unat (weight t)) @ [newline]
     @ concat (map print_op (ops t))"

lemma of_char_digit: "n < 10 \<Longrightarrow> of_char (char_of (48 + n)) = (48 + n :: nat)"
  by (simp add: of_char_of)

lemma show_nat_digits: "show_nat n \<noteq> [] \<and> (\<forall>c \<in> set (show_nat n). is_digit c) \<and> decimal (show_nat n) = n"
proof (induction n rule: show_nat.induct)
  case (1 n)
  show ?case
  proof (cases "n < 10")
    case True
    then show ?thesis by (simp add: show_nat.simps [of n] is_digit_def decimal_def of_char_digit)
  next
    case False
    then show ?thesis using 1 [OF False]
      by (simp add: show_nat.simps [of n] is_digit_def decimal_def of_char_digit)
  qed
qed

section \<open>Reading what was printed\<close>

lemma digit_not_space: "is_digit c \<Longrightarrow> \<not> is_space c \<and> c \<noteq> CHR ''-'' \<and> c \<noteq> CHR ''+''"
  by (auto simp: is_digit_def is_space_def)

lemma newline_facts [simp]: "is_space newline" "\<not> is_digit newline" "is_space CHR '' ''" "\<not> is_digit CHR '' ''"
  by (simp_all add: newline_def is_space_def is_digit_def)

definition ends_number :: "string \<Rightarrow> bool" where
  "ends_number r \<longleftrightarrow> r = [] \<or> \<not> is_digit (hd r)"

lemma ends_number_simps [simp]: "ends_number []" "ends_number (newline # r)" "ends_number (CHR '' '' # r)"
  by (simp_all add: ends_number_def)

lemma skip_space_show [simp]: "skip_space (show_nat n @ r) = show_nat n @ r"
proof -
  obtain c cs where c: "show_nat n = c # cs" using show_nat_digits [of n] by (cases "show_nat n") auto
  then have "is_digit c" using show_nat_digits [of n] by simp
  then show ?thesis using digit_not_space [of c] by (simp add: skip_space_def c)
qed

lemma skip_space_blank [simp]:
  "skip_space (newline # s) = skip_space s" "skip_space (CHR '' '' # s) = skip_space s"
  by (simp_all add: skip_space_def)

lemma scan_int_blank [simp]:
  "scan_int (newline # s) = scan_int s" "scan_int (CHR '' '' # s) = scan_int s"
  by (simp_all add: scan_int_def)

lemma scan_int_show: "ends_number r \<Longrightarrow> scan_int (show_nat n @ r) = (Some (int n), r)"
proof -
  assume r: "ends_number r"
  obtain c cs where c: "show_nat n = c # cs" using show_nat_digits [of n] by (cases "show_nat n") auto
  then have d: "c \<noteq> CHR ''-''" "c \<noteq> CHR ''+''" using show_nat_digits [of n] digit_not_space [of c] by simp_all
  have "takeWhile is_digit r = []" "dropWhile is_digit r = r"
    using r by (cases r; simp add: ends_number_def)+
  then have "takeWhile is_digit (show_nat n @ r) = show_nat n" "dropWhile is_digit (show_nat n @ r) = r"
    using show_nat_digits [of n] by simp_all
  moreover have "hd (show_nat n @ r) \<noteq> CHR ''-''" "hd (show_nat n @ r) \<noteq> CHR ''+''"
    using c d by simp_all
  ultimately show ?thesis using show_nat_digits [of n] unfolding scan_int_def Let_def by simp
qed

lemma scan_u_blank [simp]:
  "scan_u old (newline # s) = scan_u old s" "scan_u old (CHR '' '' # s) = scan_u old s"
  by (simp_all add: scan_u_def)

lemma scan_u_show [simp]: "ends_number r \<Longrightarrow> scan_u old (show_nat (unat v) @ r) = Some (True, v, r)"
proof -
  assume "ends_number r"
  moreover have "(word_of_int (int (unat v)) :: u32) = v" by simp
  moreover have "\<bar>int (unat v)\<bar> < 4294967296" using unat_lt32 [of v] by linarith
  ultimately show ?thesis unfolding scan_u_def by (simp only: scan_int_show) simp
qed

lemma scan_d_blank [simp]:
  "scan_d old (newline # s) = scan_d old s" "scan_d old (CHR '' '' # s) = scan_d old s"
  by (simp_all add: scan_d_def)

lemma scan_d_show [simp]:
  "ends_number r \<Longrightarrow> unat v < 2147483648 \<Longrightarrow> scan_d old (show_nat (unat v) @ r) = Some (True, v, r)"
proof -
  assume "ends_number r" "unat v < 2147483648"
  moreover have "(word_of_int (int (unat v)) :: u32) = v" by simp
  moreover have "- 2147483648 \<le> int (unat v) \<and> int (unat v) < 2147483648"
    using calculation(2) by linarith
  ultimately show ?thesis unfolding scan_d_def by (simp only: scan_int_show) simp
qed

text \<open>
  Two requests that the driver does not tell apart: the size of a \<^verbatim>\<open>free\<close> request is not stored.
\<close>

definition same_request :: "traceop \<Rightarrow> traceop \<Rightarrow> bool" where
  "same_request x y \<longleftrightarrow> op_type y = op_type x \<and> op_index y = op_index x
     \<and> (op_type x \<noteq> FREE \<longrightarrow> op_size y = op_size x)"

definition highest :: "traceop list \<Rightarrow> u32 \<Rightarrow> u32" where
  "highest xs m = fold (\<lambda>x m. if op_type x \<noteq> FREE \<and> op_index x > m then op_index x else m) xs m"

lemma read_request_print:
  assumes "unat k < length os"
  shows "\<exists>c r. scan_word (newline # print_op op @ s) = Some ([c], r)
    \<and> (\<exists>i n y. read_request path c r index size' m k os
        = Some (Inr (newline # s, i, n, highest [op] m, os[unat k := y])) \<and> same_request op y)"
proof -
  have word: "scan_word (newline # c # CHR '' '' # r) = Some ([c], CHR '' '' # r)"
    if "\<not> is_space c" for c r
    using that by (simp add: scan_word_def) (simp add: skip_space_def)
  have letters: "\<not> is_space CHR ''a''" "\<not> is_space CHR ''r''" "\<not> is_space CHR ''f''"
    by (simp_all add: is_space_def)
  show ?thesis
  proof (cases "op_type op")
    case ALLOC
    have e: "print_op op @ s = CHR ''a'' # CHR '' '' # show_nat (unat (op_index op)) @ CHR '' '' #
        show_nat (unat (op_size op)) @ newline # s" by (simp add: print_op_def ALLOC)
    show ?thesis unfolding e word [OF letters(1)]
      using assms ALLOC by (auto simp: read_request_def scan_u_u_def write_at_def same_request_def highest_def)
  next
    case REALLOC
    have e: "print_op op @ s = CHR ''r'' # CHR '' '' # show_nat (unat (op_index op)) @ CHR '' '' #
        show_nat (unat (op_size op)) @ newline # s" by (simp add: print_op_def REALLOC)
    show ?thesis unfolding e word [OF letters(2)]
      using assms REALLOC by (auto simp: read_request_def scan_u_u_def write_at_def same_request_def highest_def)
  next
    case FREE
    have e: "print_op op @ s = CHR ''f'' # CHR '' '' # show_nat (unat (op_index op)) @ newline # s"
      by (simp add: print_op_def FREE)
    have d: "newline \<noteq> CHR ''d''" by (simp add: newline_def)
    show ?thesis unfolding e word [OF letters(3)]
      using assms FREE d by (auto simp: read_request_def scan_ud_def write_at_def read_at_def same_request_def highest_def)
  qed
qed

text \<open>The loop reads the printed requests one by one, whatever follows them.\<close>

lemma read_requests_print:
  "j + length xs \<le> length os \<Longrightarrow> length os < 4294967296 \<Longrightarrow>
   \<exists>i n os'. read_requests path (newline # concat (map print_op xs) @ s) index size' m (w32 j) os
       = read_requests path (newline # s) i n (highest xs m) (w32 (j + length xs)) os'
     \<and> length os' = length os \<and> (\<forall>i < j. os' ! i = os ! i)
     \<and> (\<forall>i < length xs. same_request (xs ! i) (os' ! (j + i)))"
proof (induction xs arbitrary: j index size' m os)
  case Nil
  then show ?case by (force simp: highest_def)
next
  case (Cons x xs)
  let ?s = "concat (map print_op xs) @ s"
  have j: "unat (w32 j) = j" "j < length os" "w32 j + 1 = w32 (Suc j)"
    using Cons.prems by (simp_all add: unat_w32) (simp add: w32_def)
  from read_request_print [of "w32 j" os x ?s path index size' m] j(1,2)
  obtain c r i n y where c: "scan_word (newline # print_op x @ ?s) = Some ([c], r)"
    "read_request path c r index size' m (w32 j) os
      = Some (Inr (newline # ?s, i, n, highest [x] m, os[j := y]))" "same_request x y" by auto
  have run: "read_requests path (newline # print_op x @ ?s) index size' m (w32 j) os
      = read_requests path (newline # ?s) i n (highest [x] m) (w32 (Suc j)) (os[j := y])"
    by (subst read_requests.simps) (simp add: c(1,2) j(3) MAXLINE_def)
  from Cons.IH [of "Suc j" "os[j := y]" i n "highest [x] m"] Cons.prems obtain i' n' os' where os':
    "read_requests path (newline # ?s) i n (highest [x] m) (w32 (Suc j)) (os[j := y])
      = read_requests path (newline # s) i' n' (highest xs (highest [x] m)) (w32 (Suc j + length xs)) os'"
    "length os' = length os" "\<forall>i < Suc j. os' ! i = os[j := y] ! i"
    "\<forall>i < length xs. same_request (xs ! i) (os' ! (Suc j + i))" by auto
  have "same_request ((x # xs) ! i) (os' ! (j + i))" if "i < length (x # xs)" for i
    using os'(3,4) c(3) j(2) that by (cases i) simp_all
  moreover have "\<forall>i < j. os' ! i = os ! i" using os'(3) by simp
  moreover have "highest (x # xs) m = highest xs (highest [x] m)" by (simp add: highest_def)
  ultimately show ?case using run os'(1,2) by auto
qed

lemma read_requests_end [simp]:
  "read_requests path [newline] index size' m k os = Some (Inr (m, k, os))"
proof -
  have "scan_word [newline] = None" by (simp add: scan_word_def) (simp add: skip_space_def)
  then show ?thesis by (subst read_requests.simps) simp
qed

text \<open>What the loop meets after them: one request too many, or a line of another type.\<close>

lemma read_requests_full:
  assumes "length os < 4294967296"
  shows "read_requests path (newline # print_op op @ s) index size' m (w32 (length os)) os = None"
proof -
  have k: "unat (w32 (length os)) = length os" using assms by (simp add: unat_w32)
  have blank: "\<not> is_space c \<Longrightarrow> scan_word (newline # c # CHR '' '' # r) = Some ([c], CHR '' '' # r)" for c r
    by (simp add: scan_word_def) (simp add: skip_space_def)
  have letters: "\<not> is_space CHR ''a''" "\<not> is_space CHR ''r''" "\<not> is_space CHR ''f''"
    by (simp_all add: is_space_def)
  have d: "newline \<noteq> CHR ''d''" by (simp add: newline_def)
  show ?thesis
    by (cases "op_type op"; subst read_requests.simps)
      (simp_all add: print_op_def blank letters read_request_def scan_u_u_def scan_ud_def write_at_def
        read_at_def k d MAXLINE_def)
qed

lemma read_requests_bogus:
  assumes "c \<notin> {CHR ''a'', CHR ''r'', CHR ''f''}" "\<not> is_space c"
  shows "read_requests path (newline # c # newline # s) index size' m k os
    = Some (Inl (''Bogus type character ('' @ [c] @ '') in tracefile '' @ path))"
proof -
  have "scan_word (newline # c # newline # s) = Some ([c], newline # s)"
    using assms(2) by (simp add: scan_word_def) (simp add: skip_space_def)
  then show ?thesis
    using assms(1) by (subst read_requests.simps) (simp add: MAXLINE_def read_request_def)
qed

section \<open>Trace files\<close>

text \<open>
  A header that fits the code's types, and whose array sizes do not wrap; surroundings in which
  the file is there.
\<close>

definition header_ok :: "trace \<Rightarrow> bool" where
  "header_ok t \<longleftrightarrow> unat (sugg_heapsize t) < 2147483648 \<and> unat (num_ids t) * 4 < 4294967296
     \<and> unat (num_ops t) * 12 < 4294967296 \<and> unat (weight t) < 2147483648"

definition serves :: "surroundings \<Rightarrow> string \<Rightarrow> string \<Rightarrow> bool" where
  "serves E path s \<longleftrightarrow> length path < MAXLINE \<and> files E path = Some s"

definition print_header :: "trace \<Rightarrow> string" where
  "print_header t = show_nat (unat (sugg_heapsize t)) @ [newline] @ show_nat (unat (num_ids t)) @ [newline]
     @ show_nat (unat (num_ops t)) @ [newline] @ show_nat (unat (weight t))"

lemma print_trace_header: "print_trace t = print_header t @ newline # concat (map print_op (ops t))"
  by (simp add: print_trace_def print_header_def)

lemma read_trace_header:
  assumes t: "header_ok t" and E: "serves E (dir @ name) (print_header t @ newline # s)"
    and L: "alloc_trace L (num_ops t) (num_ids t) h = Some (Inr (st, h'))"
  shows "read_trace L E dir name h = do {
    r \<leftarrow> read_requests (dir @ name) (newline # s) 0 (fresh_size E) 0 0 (map (fresh_op E) [0..<unat (num_ops t)]);
    (case r of
       Inl e \<Rightarrow> Some (Inl e)
     | Inr (max_index, k, os) \<Rightarrow>
         if max_index \<noteq> num_ids t - 1 then Some (Inl ''max_index == trace->num_ids - 1'')
         else if num_ops t \<noteq> k then Some (Inl ''trace->num_ops == op_index'')
         else Some (Inr (\<lparr>sugg_heapsize = sugg_heapsize t, num_ids = num_ids t, num_ops = num_ops t,
           weight = weight t, ops = os,
           blocks = map (fresh_word E 3) [0..<unat (num_ids t)],
           block_sizes = map (fresh_word E 4) [0..<unat (num_ids t)]\<rparr>, st, h'))) }"
proof -
  have "unat (num_ops t * 12) = unat (num_ops t) * 12" "unat (num_ids t * 4) = unat (num_ids t) * 4"
    using t by (simp_all add: header_ok_def unat_mult_lem [THEN iffD1])
  then have sizes': "unat (num_ops t * 12) div 12 = unat (num_ops t)"
    "unat (num_ids t * 4) div 4 = unat (num_ids t)" by simp_all
  have "unat (num_ids t) < 2147483648" "unat (num_ops t) < 2147483648"
    "unat (sugg_heapsize t) < 2147483648" "unat (weight t) < 2147483648"
    using t by (simp_all add: header_ok_def)
  moreover obtain p h1 where "malloc L 28 h = Some (p, h1)" "p \<noteq> 0"
    "alloc_arrays L (num_ops t) (num_ids t) p h1 = Some (Inr (st, h'))"
    using L by (auto simp: alloc_trace_def split: Option.bind_splits if_splits)
  ultimately show ?thesis using E
    by (simp add: read_trace_def serves_def print_header_def sizes' del: upt_Suc cong: if_cong)
qed

text \<open>The three outcomes on a printed file.\<close>

lemma read_trace_print:
  assumes t: "header_ok t" "length (ops t) = unat (num_ops t)" "highest (ops t) 0 = num_ids t - 1"
    and E: "serves E (dir @ name) (print_trace t)"
    and L: "alloc_trace L (num_ops t) (num_ids t) h = Some (Inr (st, h'))"
  shows "\<exists>u. read_trace L E dir name h = Some (Inr (u, st, h')) \<and> sugg_heapsize u = sugg_heapsize t
    \<and> num_ids u = num_ids t \<and> num_ops u = num_ops t \<and> weight u = weight t
    \<and> list_all2 same_request (ops t) (ops u)
    \<and> length (blocks u) = unat (num_ids t) \<and> length (block_sizes u) = unat (num_ids t)"
proof -
  let ?os = "map (fresh_op E) [0..<unat (num_ops t)]"
  have len: "0 + length (ops t) \<le> length ?os" "length ?os < 4294967296"
    using t(1,2) by (simp_all add: header_ok_def)
  obtain i n os' where os': "read_requests (dir @ name) (newline # concat (map print_op (ops t)) @ [])
        0 (fresh_size E) 0 (w32 0) ?os
      = read_requests (dir @ name) [newline] i n (highest (ops t) 0) (w32 (0 + length (ops t))) os'"
    "length os' = length ?os" "\<forall>i < length (ops t). same_request (ops t ! i) (os' ! (0 + i))"
    using read_requests_print [OF len, of "dir @ name" "[]" 0 "fresh_size E" 0] by auto
  have z: "w32 0 = 0" by (simp add: w32_def)
  have "list_all2 same_request (ops t) os'"
    using os'(2,3) t(2) by (simp add: list_all2_conv_all_nth)
  moreover have "w32 (length (ops t)) = num_ops t" using t(2) by simp
  ultimately show ?thesis
    using read_trace_header [OF t(1) E [unfolded print_trace_header] L] os'(1) t(2,3)
    by (simp add: z)
qed

lemma read_trace_too_many:
  assumes t: "header_ok t" "unat (num_ops t) < length (ops t)"
    and E: "serves E (dir @ name) (print_trace t)"
    and L: "alloc_trace L (num_ops t) (num_ids t) h = Some (Inr (st, h'))"
  shows "read_trace L E dir name h = None"
proof -
  let ?os = "map (fresh_op E) [0..<unat (num_ops t)]" and ?xs = "take (unat (num_ops t)) (ops t)"
  obtain op ys where ys: "ops t = ?xs @ op # ys"
    using t(2) by (metis id_take_nth_drop)
  have n: "length ?xs = length ?os" using t(2) by simp
  have len: "0 + length ?xs \<le> length ?os" "length ?os < 4294967296"
    using t(1) by (simp_all add: header_ok_def)
  let ?s = "print_op op @ concat (map print_op ys)"
  obtain i n' os' where os': "read_requests (dir @ name) (newline # concat (map print_op ?xs) @ ?s)
        0 (fresh_size E) 0 (w32 0) ?os
      = read_requests (dir @ name) (newline # ?s) i n' (highest ?xs 0) (w32 (0 + length ?xs)) os'"
    "length os' = length ?os"
    using read_requests_print [OF len, of "dir @ name" ?s 0 "fresh_size E" 0] by blast
  have full: "read_requests (dir @ name) (newline # ?s) i n' (highest ?xs 0) (w32 (0 + length ?xs)) os' = None"
    using read_requests_full [of os' "dir @ name" op "concat (map print_op ys)"] os'(2) n len(2) by simp
  have reqs: "concat (map print_op (ops t)) = concat (map print_op ?xs) @ ?s"
    by (subst ys) simp
  have z: "w32 0 = 0" by (simp add: w32_def)
  show ?thesis
    using read_trace_header [OF t(1) E [unfolded print_trace_header reqs] L] os'(1) full by (simp add: z)
qed

lemma read_trace_bogus:
  assumes t: "header_ok t" "length (ops t) \<le> unat (num_ops t)"
    and c: "c \<notin> {CHR ''a'', CHR ''r'', CHR ''f''}" "\<not> is_space c"
    and E: "serves E (dir @ name) (print_trace t @ c # newline # s)"
    and L: "alloc_trace L (num_ops t) (num_ids t) h = Some (Inr (st, h'))"
  shows "read_trace L E dir name h
    = Some (Inl (''Bogus type character ('' @ [c] @ '') in tracefile '' @ dir @ name))"
proof -
  let ?os = "map (fresh_op E) [0..<unat (num_ops t)]"
  have len: "0 + length (ops t) \<le> length ?os" "length ?os < 4294967296"
    using t by (simp_all add: header_ok_def)
  have contents: "print_trace t @ c # newline # s
      = print_header t @ newline # concat (map print_op (ops t)) @ c # newline # s"
    by (simp add: print_trace_header)
  have z: "w32 0 = 0" by (simp add: w32_def)
  show ?thesis
    using read_trace_header [OF t(1) E [unfolded contents] L]
      read_requests_print [OF len, of "dir @ name" "c # newline # s" 0 "fresh_size E" 0]
      read_requests_bogus [OF c, of "dir @ name" s]
    by (auto simp: z)
qed

text \<open>A file that was read back is well formed if the trace printed was.\<close>

lemma same_request_ok: "same_request x y \<Longrightarrow> next_sizes y S = next_sizes x S \<and> request_ok N S y = request_ok N S x"
  by (auto simp: same_request_def next_sizes_def request_ok_def split: optype.splits)

lemma same_requests_sizes:
  "list_all2 same_request xs ys \<Longrightarrow> sizes_after (take k ys) = sizes_after (take k xs)"
proof -
  assume same: "list_all2 same_request xs ys"
  have "fold next_sizes (take k ys) S = fold next_sizes (take k xs) S" for S
    using same
  proof (induction xs ys arbitrary: S k rule: list_all2_induct)
    case (Cons x xs y ys)
    then show ?case using same_request_ok [OF Cons.hyps(1)] by (cases k) simp_all
  qed simp
  then show ?thesis by (simp add: sizes_after_def)
qed

lemma trace_ok_same:
  assumes t: "trace_ok N t" and u: "num_ids u = num_ids t" "num_ops u = num_ops t"
    "list_all2 same_request (ops t) (ops u)" "length (blocks u) = unat (num_ids t)"
    "length (block_sizes u) = unat (num_ids t)"
  shows "trace_ok N u"
proof -
  have n: "length (ops u) = length (ops t)" using u(3) by (simp add: list_all2_lengthD)
  have "unat (op_index (ops u ! k)) < unat (num_ids u)
      \<and> request_ok N (sizes_after (take k (ops u))) (ops u ! k)" if k: "k < length (ops u)" for k
  proof -
    have s: "same_request (ops t ! k) (ops u ! k)" using u(3) k n by (simp add: list_all2_nthD2)
    from k n have k: "k < length (ops t)" by simp
    show ?thesis using trace_okD(4,5) [OF t k] same_request_ok [OF s] s u(1)
      by (simp add: same_requests_sizes [OF u(3)] same_request_def)
  qed
  then show ?thesis using t u n by (simp add: trace_ok_def)
qed

end
