(* ===== verification/Clock.thy ===== *)
theory Clock
  imports Alloc_Prelude Complex_Main "HOL-Library.Log_Nat"
begin

text \<open>
  The cycle counters of \<^verbatim>\<open>clock.c\<close>. The time-stamp counter, \<open>times\<close> and \<open>sleep\<close> are the
  machine's and the system's: they are functions on a world that the counters do not look
  into. A \<open>double\<close> is kept as a rational number. On the x86 the count is formed in an 80-bit
  register, whose 64-bit significand holds it exactly; on the Alpha the sum is rounded to the 53 bits of
  a \<open>double\<close> (\<open>to_double\<close>). Products and quotients are not rounded here.
\<close>

section \<open>The code\<close>

record 'w machine =
  access_counter :: "'w \<Rightarrow> (u32 \<times> u32) \<times> 'w"
  alpha_counter :: "'w \<Rightarrow> u32 \<times> 'w"
  tms_utime :: "'w \<Rightarrow> int \<times> 'w"
  sleep :: "int \<Rightarrow> 'w \<Rightarrow> 'w"

record 'w clock =
  world :: 'w
  cyc_hi :: u32
  cyc_lo :: u32
  cyc_per_tick :: rat
  start_tick :: int

text \<open>\<open>start_counter\<close> and \<open>get_counter\<close> for the x86.\<close>

definition start_counter :: "('w, 'm) machine_scheme \<Rightarrow> ('w, 'a) clock_scheme \<Rightarrow> ('w, 'a) clock_scheme" where
  "start_counter M c = (let ((hi', lo'), w) = access_counter M (world c)
     in c\<lparr>world := w, cyc_hi := hi', cyc_lo := lo'\<rparr>)"

text \<open>The two halves of the difference, with the borrow, as one whole number before any rounding.\<close>

definition subtract_counter :: "u32 \<Rightarrow> u32 \<Rightarrow> u32 \<Rightarrow> u32 \<Rightarrow> nat" where
  "subtract_counter ncyc_hi ncyc_lo cyc_hi' cyc_lo' =
     (let lo' = ncyc_lo - cyc_lo';
          borrow = (if lo' > ncyc_lo then 1 else 0);
          hi' = ncyc_hi - cyc_hi' - borrow
      in unat hi' * 1073741824 * 4 + unat lo')"

definition get_counter :: "('w, 'm) machine_scheme \<Rightarrow> ('w, 'a) clock_scheme \<Rightarrow> rat \<times> ('w, 'a) clock_scheme" where
  "get_counter M c = (let ((ncyc_hi, ncyc_lo), w) = access_counter M (world c)
     in (of_nat (subtract_counter ncyc_hi ncyc_lo (cyc_hi c) (cyc_lo c)), c\<lparr>world := w\<rparr>))"

text \<open>
  The versions for the Alpha, whose counter has 32 bits. Both summands of the result are exact in 53
  bits; their sum is rounded to the nearest value, and to the even one of two.
\<close>

definition nearest_even :: "nat \<Rightarrow> nat \<Rightarrow> nat" where
  "nearest_even u n = (let q = n div u; r = n mod u
     in if 2 * r < u \<or> 2 * r = u \<and> even q then q * u else (q + 1) * u)"

definition to_double :: "nat \<Rightarrow> nat" where
  "to_double n = nearest_even (2 ^ (floorlog 2 n - 53)) n"

definition start_counter_alpha :: "('w, 'm) machine_scheme \<Rightarrow> ('w, 'a) clock_scheme \<Rightarrow> ('w, 'a) clock_scheme" where
  "start_counter_alpha M c = (let (lo', w) = alpha_counter M (world c)
     in c\<lparr>world := w, cyc_hi := 0, cyc_lo := lo'\<rparr>)"

definition get_counter_alpha :: "('w, 'm) machine_scheme \<Rightarrow> ('w, 'a) clock_scheme \<Rightarrow> rat \<times> ('w, 'a) clock_scheme" where
  "get_counter_alpha M c = (let (ncyc_lo, w) = alpha_counter M (world c)
     in (of_nat (to_double (subtract_counter 0 ncyc_lo (cyc_hi c) (cyc_lo c))), c\<lparr>world := w\<rparr>))"

text \<open>\<open>ovhd\<close>, the cost of an empty measurement, taken twice.\<close>

definition ovhd :: "('w, 'm) machine_scheme \<Rightarrow> ('w, 'a) clock_scheme \<Rightarrow> rat \<times> ('w, 'a) clock_scheme" where
  "ovhd M c = (let (_, c) = get_counter M (start_counter M c) in get_counter M (start_counter M c))"

definition mhz_full :: "('w, 'm) machine_scheme \<Rightarrow> int \<Rightarrow> ('w, 'a) clock_scheme \<Rightarrow> rat \<times> ('w, 'a) clock_scheme" where
  "mhz_full M sleeptime c =
     (let c = start_counter M c;
          (cycles, c) = get_counter M (c\<lparr>world := sleep M sleeptime (world c)\<rparr>)
      in (cycles / (1000000 * of_int sleeptime), c))"

definition mhz :: "('w, 'm) machine_scheme \<Rightarrow> ('w, 'a) clock_scheme \<Rightarrow> rat \<times> ('w, 'a) clock_scheme" where
  "mhz M c = mhz_full M 2 c"

text \<open>
  \<open>callibrate\<close>: the loop runs until it has seen a hundred timer interrupts, which is up to the
  machine; a run that never ends has no result.
\<close>

definition NEVENT :: nat where "NEVENT = 100"
definition THRESHOLD :: rat where "THRESHOLD = 1000"
definition RECORDTHRESH :: rat where "RECORDTHRESH = 3000"

definition record_tick :: "rat \<Rightarrow> rat \<Rightarrow> rat" where
  "record_tick cpt old = (if (old = 0 \<or> old > cpt) \<and> cpt > RECORDTHRESH then cpt else old)"

definition callibrate_step :: "('w, 'm) machine_scheme \<Rightarrow> nat \<times> rat \<times> int \<times> ('w, 'a) clock_scheme \<Rightarrow>
    nat \<times> rat \<times> int \<times> ('w, 'a) clock_scheme" where
  "callibrate_step M = (\<lambda>(e, oldt, oldc, c).
     (let (newt, c) = get_counter M c in
      if newt - oldt \<ge> THRESHOLD then
        (let (newc, w) = tms_utime M (world c);
             c = c\<lparr>world := w\<rparr>
         in if newc > oldc
            then (Suc e, newt, newc,
              c\<lparr>cyc_per_tick := record_tick ((newt - oldt) / of_int (newc - oldc)) (cyc_per_tick c)\<rparr>)
            else (e, newt, oldc, c))
      else (e, oldt, oldc, c)))"

partial_function (option) callibrate_loop ::
    "('w, 'm) machine_scheme \<Rightarrow> nat \<times> rat \<times> int \<times> ('w, 'a) clock_scheme \<Rightarrow> (nat \<times> rat \<times> int \<times> ('w, 'a) clock_scheme) option" where
  "callibrate_loop M s = (if fst s < NEVENT then callibrate_loop M (callibrate_step M s) else Some s)"

definition callibrate :: "('w, 'm) machine_scheme \<Rightarrow> ('w, 'a) clock_scheme \<Rightarrow> ('w, 'a) clock_scheme option" where
  "callibrate M c =
     (let (oldc, w) = tms_utime M (world c);
          c = start_counter M (c\<lparr>world := w\<rparr>);
          (oldt, c) = get_counter M c
      in map_option (\<lambda>(e, oldt, oldc, c). c) (callibrate_loop M (0, oldt, oldc, c)))"

text \<open>The counters that compensate for timer interrupts.\<close>

definition start_comp_counter :: "('w, 'm) machine_scheme \<Rightarrow> ('w, 'a) clock_scheme \<Rightarrow> ('w, 'a) clock_scheme option" where
  "start_comp_counter M c = do {
     c \<leftarrow> (if cyc_per_tick c = 0 then callibrate M c else Some c);
     let (t, w) = tms_utime M (world c);
     Some (start_counter M (c\<lparr>world := w, start_tick := t\<rparr>)) }"

definition get_comp_counter :: "('w, 'm) machine_scheme \<Rightarrow> ('w, 'a) clock_scheme \<Rightarrow> rat \<times> ('w, 'a) clock_scheme" where
  "get_comp_counter M c =
     (let (time, c) = get_counter M c;
          (t, w) = tms_utime M (world c);
          ticks = t - start_tick c
      in (time - of_int ticks * cyc_per_tick c, c\<lparr>world := w\<rparr>))"

section \<open>The subtraction with borrow\<close>

definition cycle_count :: "u32 \<Rightarrow> u32 \<Rightarrow> nat" where
  "cycle_count hi' lo' = unat hi' * 4294967296 + unat lo'"

lemma cycle_count_less: "cycle_count h l < 18446744073709551616"
  using unat_lt32 [of h] unat_lt32 [of l] by (simp add: cycle_count_def)

lemma borrow: "lo' - l > lo' \<longleftrightarrow> unat lo' < unat (l :: u32)"
  using unat_lt32 [of l] unat_lt32 [of lo']
  by (auto simp: word_less_nat_alt unat_sub_if')

lemma unat_w32_mod: "unat (w32 n) = n mod 4294967296"
  by (simp add: w32_def unsigned_of_nat take_bit_nat_def)

lemma wrap_difference:
  fixes x y z k M :: nat
  assumes "x + y = z + k * M" "k \<le> 1" "x < M" "y < M"
  shows "(z + M - y) mod M = x"
proof (cases "k = 0")
  case True
  with assms(1,4) have "z + M - y = x + M" by simp
  with assms(3) show ?thesis by simp
next
  case False
  with assms(1,2) have "z + M - y = x" by (simp add: le_Suc_eq)
  with assms(3) show ?thesis by simp
qed

lemma subtract_counter_nat:
  "subtract_counter nh nl h l
    = (cycle_count nh nl + 18446744073709551616 - cycle_count h l) mod 18446744073709551616"
proof -
  let ?b = "if unat nl < unat l then 1 else 0 :: nat"
  have lo': "unat (nl - l) + unat l = unat nl + ?b * 4294967296"
    using unat_lt32 [of l] unat_lt32 [of nl] by (simp add: unat_sub_if')
  have b: "(if nl - l > nl then 1 else 0 :: u32) = w32 ?b"
    by (simp add: borrow) (simp add: w32_def)
  let ?hi = "nh - h - w32 ?b"
  have "(unat ?hi + unat h + ?b) mod 4294967296 = unat nh"
  proof -
    have "?hi + h + w32 ?b = nh" by simp
    then have "w32 (unat ?hi + unat h + ?b) = w32 (unat nh)" by (simp add: w32_add [symmetric])
    then have "unat (w32 (unat ?hi + unat h + ?b)) = unat (w32 (unat nh))" by (rule arg_cong)
    then show ?thesis using unat_lt32 [of nh] by (simp only: unat_w32_mod mod_less)
  qed
  then obtain k where k: "unat ?hi + unat h + ?b = unat nh + k * 4294967296" "k \<le> 1"
  proof -
    assume *: "\<And>k. unat ?hi + unat h + ?b = unat nh + k * 4294967296 \<Longrightarrow> k \<le> 1 \<Longrightarrow> thesis"
      and m: "(unat ?hi + unat h + ?b) mod 4294967296 = unat nh"
    let ?k = "(unat ?hi + unat h + ?b) div 4294967296"
    have "unat ?hi + unat h + ?b = unat nh + ?k * 4294967296"
      using m mod_div_mult_eq [of "unat ?hi + unat h + ?b" 4294967296] by linarith
    moreover have "unat ?hi + unat h + ?b < 2 * 4294967296"
    proof -
      have "?b \<le> 1" by simp
      with unat_lt32 [of ?hi] unat_lt32 [of h] show ?thesis by linarith
    qed
    then have "?k < 2" by (rule less_mult_imp_div_less)
    then have "?k \<le> 1" by linarith
    ultimately show thesis by (rule *)
  qed
  have "cycle_count ?hi (nl - l) + cycle_count h l = cycle_count nh nl + k * 18446744073709551616"
    using k(1) lo' by (simp add: cycle_count_def) 
  then have "(cycle_count nh nl + 18446744073709551616 - cycle_count h l) mod 18446744073709551616 = cycle_count ?hi (nl - l)"
    by (rule wrap_difference [OF _ k(2) cycle_count_less cycle_count_less])
  then show ?thesis by (simp add: subtract_counter_def Let_def b cycle_count_def)
qed

text \<open>
  What the two versions of \<open>get_counter\<close> return: on the x86 the cycles that passed, modulo
  \<open>2 ^ 64\<close>; on the Alpha, where the high words are 0, only if the counter did not wrap.
\<close>

lemma get_counter_elapsed:
  assumes "cycle_count (cyc_hi c) (cyc_lo c) = t0" "access_counter M (world c) = ((h, l), w)"
  shows "get_counter M c = (of_nat ((cycle_count h l + 18446744073709551616 - t0) mod 18446744073709551616),
    c\<lparr>world := w\<rparr>)"
  using assms by (simp add: get_counter_def subtract_counter_nat)

text \<open>Rounding: to a multiple of the unit, by at most half a unit; up to \<open>2 ^ 53\<close> nothing is lost.\<close>

lemma nearest_even_close:
  assumes "0 < u"
  shows "u dvd nearest_even u n" "2 * nearest_even u n \<le> 2 * n + u" "2 * n \<le> 2 * nearest_even u n + u"
proof -
  define q r where "q = n div u" and "r = n mod u"
  have n: "n = q * u + r" and r: "r < u" using assms by (simp_all add: q_def r_def)
  have e: "nearest_even u n = (if 2 * r < u \<or> 2 * r = u \<and> even q then q * u else (q + 1) * u)"
    unfolding nearest_even_def q_def r_def Let_def by (rule refl)
  show "u dvd nearest_even u n" by (simp add: e)
  show "2 * nearest_even u n \<le> 2 * n + u" "2 * n \<le> 2 * nearest_even u n + u"
    unfolding e using r n by (auto simp: add_mult_distrib)
qed

lemma to_double_exact: "n < 2 ^ 53 \<Longrightarrow> to_double n = n"
  by (simp add: to_double_def nearest_even_def floorlog_leI)

lemma to_double_64:
  assumes "2 ^ 63 \<le> n" "n < 2 ^ 64"
  shows "to_double n = nearest_even 2048 n"
proof -
  have "floorlog 2 n \<le> 64" using assms(2) by (intro floorlog_leI) simp_all
  moreover have "\<not> floorlog 2 n \<le> 63" using floorlog_leD [of 2 n 63] assms(1) by auto
  ultimately have "floorlog 2 n - 53 = 11" by simp
  then show ?thesis by (simp add: to_double_def)
qed

lemma get_counter_alpha_elapsed:
  assumes c: "cyc_hi c = 0" "alpha_counter M (world c) = (l, w)"
  shows "\<exists>x. get_counter_alpha M c = (of_nat x, c\<lparr>world := w\<rparr>)
    \<and> (if unat (cyc_lo c) \<le> unat l then x = unat l - unat (cyc_lo c)
       else 2048 dvd x \<and> x \<le> 18446744069414584320 + (unat l + 4294967296 - unat (cyc_lo c)) + 1024
         \<and> 18446744069414584320 + (unat l + 4294967296 - unat (cyc_lo c)) \<le> x + 1024)"
proof -
  have b: "unat l < 4294967296" "unat (cyc_lo c) < 4294967296" by (rule unat_lt32)+
  let ?n = "(unat l + 18446744073709551616 - unat (cyc_lo c)) mod 18446744073709551616"
  have x: "get_counter_alpha M c = (of_nat (to_double ?n), c\<lparr>world := w\<rparr>)"
    using c by (simp add: get_counter_alpha_def subtract_counter_nat cycle_count_def)
  show ?thesis
  proof (cases "unat (cyc_lo c) \<le> unat l")
    case True
    then have "unat l + 18446744073709551616 - unat (cyc_lo c)
        = (unat l - unat (cyc_lo c)) + 18446744073709551616" by simp
    then have "?n = (unat l - unat (cyc_lo c)) mod 18446744073709551616" by (simp only: mod_add_self2)
    with True b have "?n = unat l - unat (cyc_lo c)" by simp
    moreover have "to_double (unat l - unat (cyc_lo c)) = unat l - unat (cyc_lo c)"
      using b by (intro to_double_exact) simp
    ultimately show ?thesis using x True by auto
  next
    case False
    let ?e = "18446744069414584320 + (unat l + 4294967296 - unat (cyc_lo c))"
    have n: "?n = ?e" using False b by simp
    have "to_double ?e = nearest_even 2048 ?e" using False b by (intro to_double_64) simp_all
    then show ?thesis using x False nearest_even_close [of 2048 ?e] by (auto simp: n)
  qed
qed

text \<open>
  What the calibration leaves: no rate, or one above the threshold that is no larger than an
  earlier one.
\<close>

definition tick_ok :: "rat \<Rightarrow> rat \<Rightarrow> bool" where
  "tick_ok old new \<longleftrightarrow> new = old \<or> RECORDTHRESH < new \<and> (old = 0 \<or> new < old)"

lemma record_tick_ok: "tick_ok old r \<Longrightarrow> old = 0 \<or> RECORDTHRESH < old \<Longrightarrow> tick_ok old (record_tick cpt r)"
  by (auto simp: tick_ok_def record_tick_def RECORDTHRESH_def)

lemma counter_fields [simp]:
  "cyc_per_tick (start_counter M c) = cyc_per_tick c"
  "cyc_per_tick (snd (get_counter M c)) = cyc_per_tick c"
  by (simp_all add: start_counter_def get_counter_def split: prod.splits)

lemma callibrate_step_ok:
  assumes "callibrate_step M (e, oldt, oldc, c) = (e', oldt', oldc', c')"
    "tick_ok old (cyc_per_tick c)" "old = 0 \<or> RECORDTHRESH < old"
  shows "tick_ok old (cyc_per_tick c')"
proof -
  have "cyc_per_tick d = cyc_per_tick c" if "get_counter M c = (newt, d)" for newt d
    using counter_fields(2) [of M c] that by simp
  with assms record_tick_ok [OF _ assms(3)] show ?thesis
    by (auto simp: callibrate_step_def Let_def split: prod.splits if_splits)
qed

lemma callibrate_loop_ok:
  assumes old: "old = 0 \<or> RECORDTHRESH < old" and run: "callibrate_loop M s = Some r"
  shows "tick_ok old (cyc_per_tick (snd (snd (snd s)))) \<longrightarrow>
    NEVENT \<le> fst r \<and> tick_ok old (cyc_per_tick (snd (snd (snd r))))"
proof (rule callibrate_loop.raw_induct [OF _ run])
  fix f M s r
  assume IH: "\<And>M s r. f M s = Some r \<Longrightarrow> tick_ok old (cyc_per_tick (snd (snd (snd s)))) \<longrightarrow>
      NEVENT \<le> fst r \<and> tick_ok old (cyc_per_tick (snd (snd (snd r))))"
    and body: "(if fst s < NEVENT then f M (callibrate_step M s) else Some s) = Some r"
  show "tick_ok old (cyc_per_tick (snd (snd (snd s)))) \<longrightarrow>
      NEVENT \<le> fst r \<and> tick_ok old (cyc_per_tick (snd (snd (snd r))))"
  proof (cases "fst s < NEVENT")
    case True
    then have "f M (callibrate_step M s) = Some r" using body by simp
    from IH [OF this] show ?thesis
      using callibrate_step_ok [OF _ _ old] by (metis prod.collapse)
  qed (use body in auto)
qed

lemma callibrate_rate:
  assumes "callibrate M c = Some c'" "cyc_per_tick c = 0"
  shows "cyc_per_tick c' = 0 \<or> RECORDTHRESH < cyc_per_tick c'"
proof -
  obtain oldc w oldt c1 s where c1: "tms_utime M (world c) = (oldc, w)"
    "get_counter M (start_counter M (c\<lparr>world := w\<rparr>)) = (oldt, c1)"
    and run: "callibrate_loop M (0, oldt, oldc, c1) = Some s" "c' = snd (snd (snd s))"
    using assms(1) by (auto simp: callibrate_def Let_def split: prod.splits)
  have "cyc_per_tick c1 = cyc_per_tick c"
    using counter_fields(2) [of M "start_counter M (c\<lparr>world := w\<rparr>)"] c1(2) by simp
  then show ?thesis
    using callibrate_loop_ok [of 0, OF _ run(1)] assms(2) run(2) by (auto simp: tick_ok_def)
qed

end
