(* ===== verification/Fcyc.thy ===== *)
theory Fcyc
  imports Clock "HOL-Library.Multiset"
begin

text \<open>
  \<^verbatim>\<open>fcyc.c\<close>: the K-best scheme, which measures a function until the smallest K measurements
  agree, and keeps those in an array sorted by insertion.

  \<open>None\<close> is an access outside an array or through a null pointer, an exit, or a loop that does
  not end.
\<close>

section \<open>The code\<close>

text \<open>
  The address the C library returns for a request of so many bytes, 0 when it fails, and the
  unspecified contents of fresh memory.
\<close>

record 'w host = "'w machine" +
  grant :: "u32 \<Rightarrow> 'w \<Rightarrow> u32 \<times> 'w"
  fresh_words :: "'w \<Rightarrow> nat \<Rightarrow> u32"

record 'w timing = "'w clock" +
  kbest :: int
  maxsamples :: int
  epsilon :: rat
  compensate :: bool
  clear_cache :: bool
  cache_bytes :: int
  cache_block :: int
  cache_buf :: "(u32 \<times> u32 list) option"
  vals :: "rat list option"
  samplecount :: int
  sink :: u32

text \<open>\<open>calloc\<close> also fails when the product of its arguments does not fit.\<close>

definition init_sampler :: "('w, 'm) host_scheme \<Rightarrow> ('w, 'a) timing_scheme \<Rightarrow> ('w, 'a) timing_scheme" where
  "init_sampler H s =
     (let k = unat (word_of_int (kbest s) :: u32);
          (p, w) = grant H (w32 (k * 8)) (world s)
      in s\<lparr>world := w, samplecount := 0,
           vals := (if k * 8 < 4294967296 \<and> p \<noteq> 0 then Some (replicate k 0) else None)\<rparr>)"

text \<open>The insertion sort at the end of \<open>add_sample\<close>, from position \<open>pos\<close> down.\<close>

fun sift :: "rat list \<Rightarrow> nat \<Rightarrow> rat list" where
  "sift vs 0 = vs"
| "sift vs (Suc p) =
     (if vs ! p > vs ! Suc p then sift (vs[p := vs ! Suc p, Suc p := vs ! p]) p else vs)"

definition store_value :: "rat list \<Rightarrow> int \<Rightarrow> rat \<Rightarrow> (nat \<times> rat list) option" where
  "store_value vs pos v =
     (if 0 \<le> pos \<and> nat pos < length vs then Some (nat pos, vs[nat pos := v]) else None)"

definition add_sample :: "rat \<Rightarrow> ('w, 'a) timing_scheme \<Rightarrow> ('w, 'a) timing_scheme option" where
  "add_sample val s = do {
     vs \<leftarrow> vals s;
     (pos, vs) \<leftarrow>
       (if samplecount s < kbest s then store_value vs (samplecount s) val
        else if 0 \<le> kbest s - 1 \<and> nat (kbest s - 1) < length vs
        then (if val < vs ! nat (kbest s - 1) then store_value vs (kbest s - 1) val else Some (0, vs))
        else None);
     Some (s\<lparr>vals := Some (sift vs pos), samplecount := samplecount s + 1\<rparr>) }"

definition has_converged :: "('w, 'a) timing_scheme \<Rightarrow> bool option" where
  "has_converged s =
     (if samplecount s \<ge> kbest s then do {
        vs \<leftarrow> vals s;
        if 1 \<le> kbest s \<and> nat (kbest s) \<le> length vs
        then Some ((1 + epsilon s) * vs ! 0 \<ge> vs ! nat (kbest s - 1)) else None }
      else Some False)"

text \<open>
  \<open>clear\<close>: the sizes are divided as unsigned numbers. The buffer is the address \<open>p\<close> and the
  \<open>int\<close>s of the object there; \<open>cptr\<close> and \<open>cend\<close> are 32-bit addresses, and a step is the
  machine's: it wraps, so that a negative cache block steps back. A read outside the object is
  undefined.
\<close>

definition read_int :: "u32 \<Rightarrow> u32 list \<Rightarrow> u32 \<Rightarrow> u32 option" where
  "read_int p buf a = (let d = unat a - unat p in
     if p \<le> a \<and> d mod 4 = 0 \<and> d div 4 < length buf then Some (buf ! (d div 4)) else None)"

partial_function (option) clear_loop :: "u32 \<Rightarrow> u32 list \<Rightarrow> u32 \<Rightarrow> u32 \<Rightarrow> u32 \<Rightarrow> u32 \<Rightarrow> u32 option" where
  "clear_loop p buf incr cend cptr x =
     (if cptr < cend
      then do { v \<leftarrow> read_int p buf cptr; clear_loop p buf incr cend (cptr + 4 * incr) (x + v) }
      else Some x)"

definition ints :: "int \<Rightarrow> u32" where
  "ints bytes = word_of_int bytes div 4"

definition clear :: "('w, 'm) host_scheme \<Rightarrow> ('w, 'a) timing_scheme \<Rightarrow> ('w, 'a) timing_scheme option" where
  "clear H s = do {
     ((p, buf), s) \<leftarrow> (case cache_buf s of
         Some buf \<Rightarrow> Some (buf, s)
       | None \<Rightarrow>
           (let (p, w) = grant H (word_of_int (cache_bytes s)) (world s);
                buf = (p, map (fresh_words H (world s)) [0..<unat (ints (cache_bytes s))])
            in if p \<noteq> 0 then Some (buf, s\<lparr>world := w, cache_buf := Some buf\<rparr>) else None));
     x \<leftarrow> clear_loop p buf (ints (cache_block s)) (p + 4 * ints (cache_bytes s)) p (sink s);
     Some (s\<lparr>sink := x\<rparr>) }"

text \<open>One round of either loop of \<open>fcyc\<close>; \<open>f\<close> is the function measured, \<open>None\<close> if it does not
  return.\<close>

definition fcyc_round :: "('w, 'm) host_scheme \<Rightarrow> ('w \<Rightarrow> 'w option) \<Rightarrow> bool \<Rightarrow>
    ('w, 'a) timing_scheme \<Rightarrow> (rat \<times> ('w, 'a) timing_scheme) option" where
  "fcyc_round H f adjust s = do {
     s \<leftarrow> (if clear_cache s then clear H s else Some s);
     s \<leftarrow> (if adjust then start_comp_counter H s else Some (start_counter H s));
     w \<leftarrow> f (world s);
     let (cyc, s) = (if adjust then get_comp_counter H (s\<lparr>world := w\<rparr>) else get_counter H (s\<lparr>world := w\<rparr>));
     s \<leftarrow> add_sample cyc s;
     Some (cyc, s) }"

partial_function (option) fcyc_loop :: "('w, 'm) host_scheme \<Rightarrow> ('w \<Rightarrow> 'w option) \<Rightarrow> bool \<Rightarrow>
    ('w, 'a) timing_scheme \<Rightarrow> ('w, 'a) timing_scheme option" where
  "fcyc_loop H f adjust s = do {
     (_, s) \<leftarrow> fcyc_round H f adjust s;
     done \<leftarrow> has_converged s;
     if \<not> done \<and> samplecount s < maxsamples s then fcyc_loop H f adjust s else Some s }"

definition fcyc :: "('w, 'm) host_scheme \<Rightarrow> ('w \<Rightarrow> 'w option) \<Rightarrow> ('w, 'a) timing_scheme \<Rightarrow>
    (rat \<times> ('w, 'a) timing_scheme) option" where
  "fcyc H f s = do {
     let s = init_sampler H s;
     s \<leftarrow> (if compensate s then fcyc_loop H f True s else fcyc_loop H f False s);
     vs \<leftarrow> vals s;
     if vs = [] then None else Some (vs ! 0, s\<lparr>vals := None\<rparr>) }"

definition set_fcyc_clear_cache :: "bool \<Rightarrow> ('w, 'a) timing_scheme \<Rightarrow> ('w, 'a) timing_scheme" where
  "set_fcyc_clear_cache b s = s\<lparr>clear_cache := b\<rparr>"

definition set_fcyc_cache_size :: "int \<Rightarrow> ('w, 'a) timing_scheme \<Rightarrow> ('w, 'a) timing_scheme" where
  "set_fcyc_cache_size bytes s =
     (if bytes \<noteq> cache_bytes s then s\<lparr>cache_bytes := bytes, cache_buf := None\<rparr> else s)"

definition set_fcyc_cache_block :: "int \<Rightarrow> ('w, 'a) timing_scheme \<Rightarrow> ('w, 'a) timing_scheme" where
  "set_fcyc_cache_block bytes s = s\<lparr>cache_block := bytes\<rparr>"

definition set_fcyc_compensate :: "bool \<Rightarrow> ('w, 'a) timing_scheme \<Rightarrow> ('w, 'a) timing_scheme" where
  "set_fcyc_compensate b s = s\<lparr>compensate := b\<rparr>"

definition set_fcyc_k :: "int \<Rightarrow> ('w, 'a) timing_scheme \<Rightarrow> ('w, 'a) timing_scheme" where
  "set_fcyc_k k s = s\<lparr>kbest := k\<rparr>"

definition set_fcyc_maxsamples :: "int \<Rightarrow> ('w, 'a) timing_scheme \<Rightarrow> ('w, 'a) timing_scheme" where
  "set_fcyc_maxsamples n s = s\<lparr>maxsamples := n\<rparr>"

definition set_fcyc_epsilon :: "rat \<Rightarrow> ('w, 'a) timing_scheme \<Rightarrow> ('w, 'a) timing_scheme" where
  "set_fcyc_epsilon e s = s\<lparr>epsilon := e\<rparr>"

section \<open>The insertion\<close>

lemma length_sift [simp]: "length (sift vs p) = length vs"
  by (induction vs p rule: sift.induct) simp_all

lemma drop_sift: "p < n \<Longrightarrow> drop n (sift vs p) = drop n vs"
  by (induction vs p rule: sift.induct) simp_all

lemma mset_sift: "p < length vs \<Longrightarrow> mset (sift vs p) = mset vs"
  by (induction vs p rule: sift.induct) (simp_all add: mset_swap)

text \<open>Sifting the value at \<open>p\<close> down inserts it among the sorted values before it.\<close>

lemma take_sift:
  "p < length vs \<Longrightarrow> sorted (take p vs) \<Longrightarrow> take (Suc p) (sift vs p) = insort (vs ! p) (take p vs)"
proof (induction vs p rule: sift.induct)
  case (1 vs)
  then show ?case by (simp add: take_Suc_conv_app_nth)
next
  case (2 vs p)
  then have p: "p < length vs" "Suc p < length vs" by simp_all
  let ?a = "vs ! p" and ?b = "vs ! Suc p" and ?xs = "take p vs"
  have xs: "take (Suc p) vs = ?xs @ [?a]" using p by (simp add: take_Suc_conv_app_nth)
  have sorted: "sorted ?xs" "\<forall>x \<in> set ?xs. x \<le> ?a" using 2(3) by (simp_all add: xs sorted_append)
  show ?case
  proof (cases "?a > ?b")
    case True
    let ?ws = "vs[p := ?b, Suc p := ?a]"
    have ws: "take p ?ws = ?xs" "?ws ! p = ?b" "?ws ! Suc p = ?a" using p by simp_all
    have step: "take (Suc p) (sift ?ws p) = insort ?b ?xs" using 2(1) [OF True] p sorted(1) ws by simp
    have "sift ?ws p ! Suc p = ?ws ! Suc p"
      using arg_cong [OF drop_sift [of p "Suc p" ?ws], of hd] p by (simp add: hd_drop_conv_nth)
    then have "take (Suc (Suc p)) (sift ?ws p) = insort ?b ?xs @ [?a]"
      using step p ws(3) by (simp add: take_Suc_conv_app_nth [of "Suc p"])
    also have "\<dots> = insort ?b (?xs @ [?a])"
    proof -
      have "sorted (insort ?b ?xs @ [?a])"
        using sorted True by (auto simp: sorted_append sorted_insort set_insort_key)
      moreover have "sorted (insort ?b (?xs @ [?a]))" using 2(3) by (simp add: xs sorted_insort)
      ultimately have "sort (?b # ?xs @ [?a]) = insort ?b ?xs @ [?a]"
        "sort (?b # ?xs @ [?a]) = insort ?b (?xs @ [?a])"
        by (intro properties_for_sort; simp)+
      then show ?thesis by simp
    qed
    finally show ?thesis using True by (simp add: xs)
  next
    case False
    have "sorted ((?xs @ [?a]) @ [?b])" using sorted False by (auto simp: sorted_append)
    moreover have "sorted (insort ?b (?xs @ [?a]))" using 2(3) by (simp add: xs sorted_insort)
    ultimately have "sort (?b # ?xs @ [?a]) = (?xs @ [?a]) @ [?b]"
      "sort (?b # ?xs @ [?a]) = insort ?b (?xs @ [?a])"
      by (intro properties_for_sort; simp)+
    then have "insort ?b (?xs @ [?a]) = (?xs @ [?a]) @ [?b]" by simp
    then show ?thesis using False p by (simp add: xs take_Suc_conv_app_nth [of "Suc p"])
  qed
qed

section \<open>The K best samples\<close>

text \<open>\<open>keeps xs s\<close>: of the samples \<open>xs\<close> so far the array holds the K smallest, in order.\<close>

definition keeps :: "rat list \<Rightarrow> ('w, 'a) timing_scheme \<Rightarrow> bool" where
  "keeps xs s \<longleftrightarrow> 1 \<le> kbest s \<and> samplecount s = int (length xs)
     \<and> (\<exists>vs. vals s = Some vs \<and> length vs = nat (kbest s)
          \<and> take (length xs) vs = take (nat (kbest s)) (sort xs))"

lemma sort_snoc: "sort (xs @ [v]) = insort (v :: 'v :: linorder) (sort xs)"
  by (rule properties_for_sort) (simp_all add: sorted_insort)

lemma take_insort:
  fixes v :: "'v :: linorder"
  assumes "sorted ys" "k < length ys"
  shows "take (Suc k) (insort v ys) = (if v < ys ! k then insort v (take k ys) else take (Suc k) ys)"
  using assms
proof (induction ys arbitrary: k)
  case Nil
  then show ?case by simp
next
  case (Cons y ys)
  show ?case
  proof (cases k)
    case 0
    then show ?thesis by auto
  next
    case (Suc j)
    with Cons.prems have j: "j < length ys" "sorted ys" "y \<le> ys ! j" by auto
    then have "take (Suc j) (insort v ys) = (if v < ys ! j then insort v (take j ys) else take (Suc j) ys)"
      using Cons.IH by blast
    moreover have "v # take j ys = take (Suc j) ys \<and> v = y" if "v \<le> y" "\<not> v < ys ! j"
    proof -
      have "\<forall>x \<in> set ys. v \<le> x" using that(1) Cons.prems(1) by auto
      then have "insort v ys = v # ys" by (intro insort_is_Cons) auto
      with calculation that j(3) show ?thesis by auto
    qed
    ultimately show ?thesis using Suc by (cases "v \<le> y") auto
  qed
qed

text \<open>A sample is entered at the end while there are places, later in the place of the worst one.\<close>

lemma keepsI:
  assumes "keeps xs s" "length ws = nat (kbest s)"
    "take (Suc (length xs)) ws = take (nat (kbest s)) (insort v (sort xs))"
  shows "keeps (xs @ [v]) (s\<lparr>vals := Some ws, samplecount := samplecount s + 1\<rparr>)"
  using assms by (simp add: keeps_def sort_snoc)

lemma add_sample_filling:
  assumes K: "keeps xs s" and vs: "vals s = Some vs" and n: "length xs < nat (kbest s)"
  shows "\<exists>ws. add_sample v s = Some (s\<lparr>vals := Some ws, samplecount := samplecount s + 1\<rparr>)
    \<and> keeps (xs @ [v]) (s\<lparr>vals := Some ws, samplecount := samplecount s + 1\<rparr>)"
proof -
  let ?k = "nat (kbest s)" and ?n = "length xs" and ?ws = "vs[length xs := v]"
  have v: "length vs = ?k" "take ?n vs = take ?k (sort xs)" and k: "1 \<le> kbest s" "samplecount s = int ?n"
    using K vs by (auto simp: keeps_def)
  have xs: "take ?n ?ws = sort xs" using v(2) n by simp
  have "take (Suc ?n) (sift ?ws ?n) = insort (?ws ! ?n) (take ?n ?ws)"
    using n v(1) xs by (intro take_sift) simp_all
  then have "take (Suc ?n) (sift ?ws ?n) = take ?k (insort v (sort xs))" using n v(1) xs by simp
  with keepsI [OF K] v(1) have "keeps (xs @ [v]) (s\<lparr>vals := Some (sift ?ws ?n), samplecount := samplecount s + 1\<rparr>)"
    by simp
  moreover have "add_sample v s = Some (s\<lparr>vals := Some (sift ?ws ?n), samplecount := samplecount s + 1\<rparr>)"
    using n v vs k by (simp add: add_sample_def store_value_def nat_less_iff zless_nat_eq_int_zless)
  ultimately show ?thesis by blast
qed

lemma add_sample_full:
  assumes K: "keeps xs s" and vs: "vals s = Some vs" and n: "\<not> length xs < nat (kbest s)"
  shows "\<exists>ws. add_sample v s = Some (s\<lparr>vals := Some ws, samplecount := samplecount s + 1\<rparr>)
    \<and> keeps (xs @ [v]) (s\<lparr>vals := Some ws, samplecount := samplecount s + 1\<rparr>)"
proof -
  let ?k = "nat (kbest s)" and ?n = "length xs"
  have v: "length vs = ?k" "take ?n vs = take ?k (sort xs)" and k: "1 \<le> kbest s" "samplecount s = int ?n"
    using K vs by (auto simp: keeps_def)
  then obtain j where j: "?k = Suc j" "j < ?n" "nat (kbest s - 1) = j" "j < length vs"
    using n by (cases ?k) auto
  have pos: "\<not> samplecount s < kbest s" using n k by simp
  have full: "vs = take (Suc j) (sort xs)" using v n j(1) by simp
  then have last: "vs ! j = sort xs ! j" by simp
  have best: "take (Suc j) (insort v (sort xs)) = (if v < vs ! j then insort v (take j (sort xs)) else vs)"
    using take_insort [of "sort xs" j v] j(2) full last by simp
  have long: "take (Suc ?n) ws = ws" if "length ws = ?k" for ws :: "rat list" using that n by simp
  let ?w = "if v < vs ! j then sift (vs[j := v]) j else vs"
  have add: "add_sample v s = Some (s\<lparr>vals := Some ?w, samplecount := samplecount s + 1\<rparr>)"
    using pos j(3,4) k(1) vs by (simp add: add_sample_def store_value_def)
  have pre: "take j (vs[j := v]) = take j (sort xs)" using arg_cong [OF full, of "take j"] by simp
  have "take (Suc j) (sift (vs[j := v]) j) = insort (vs[j := v] ! j) (take j (vs[j := v]))"
    using j(4) pre by (intro take_sift) (simp_all add: sorted_wrt_take)
  then have sift: "sift (vs[j := v]) j = insort v (take j (sort xs))" using j(1,4) pre v(1) by simp
  have len: "length ?w = ?k" using v(1) by simp
  have "take (Suc ?n) ?w = take ?k (insort v (sort xs))" using long [OF len] by (simp only: j(1) best sift)
  from keepsI [OF K len this] add show ?thesis by blast
qed

lemma add_sample_keeps:
  assumes K: "keeps xs s"
  shows "\<exists>vs. add_sample v s = Some (s\<lparr>vals := Some vs, samplecount := samplecount s + 1\<rparr>)
    \<and> keeps (xs @ [v]) (s\<lparr>vals := Some vs, samplecount := samplecount s + 1\<rparr>)"
proof -
  obtain vs where "vals s = Some vs" using K by (auto simp: keeps_def)
  then show ?thesis using add_sample_filling [OF K] add_sample_full [OF K] by blast
qed

section \<open>Clearing the cache\<close>

declare clear_loop.simps [code]

text \<open>The \<open>int\<close>s between two reads, and the first multiple of this stride that passes the buffer.\<close>

definition stride :: "('w, 'a) timing_scheme \<Rightarrow> nat" where
  "stride s = unat (ints (cache_block s))"

definition stop_at :: "nat \<Rightarrow> nat \<Rightarrow> nat" where
  "stop_at k n = (n + k - 1) div k * k"

lemma stop_at_props:
  assumes "0 < k"
  shows "n \<le> stop_at k n" "stop_at k n < n + k" "k dvd stop_at k n"
proof -
  have "n + k - 1 = stop_at k n + (n + k - 1) mod k" by (simp add: stop_at_def)
  moreover have "(n + k - 1) mod k < k" using assms by simp
  ultimately show "n \<le> stop_at k n" "stop_at k n < n + k" using assms by linarith+
  show "k dvd stop_at k n" by (simp add: stop_at_def)
qed

lemma stop_at_least:
  assumes "0 < k" "k dvd j" "n \<le> j"
  shows "stop_at k n \<le> j"
proof (rule ccontr)
  obtain a where a: "j = k * a" using assms(2) by (rule dvdE)
  obtain b where b: "stop_at k n = k * b" using stop_at_props(3) [OF assms(1)] by (rule dvdE)
  assume "\<not> stop_at k n \<le> j"
  then have "Suc a \<le> b" using a b assms(1) by simp
  then have "k * Suc a \<le> stop_at k n" unfolding b by (rule mult_le_mono2)
  then show False using stop_at_props(2) [OF assms(1), of n] a assms(3) by simp
qed

lemma ints_less: "4 * unat (ints bytes) < 4294967296"
proof -
  have "unat (ints bytes) = unat (word_of_int bytes :: u32) div 4" by (simp add: ints_def unat_div)
  then show ?thesis using unat_lt32 [of "word_of_int bytes :: u32"] by linarith
qed

text \<open>The addresses of the loop: \<open>4 * j\<close> bytes after the start, for multiples \<open>j\<close> of the stride.\<close>

lemma times_4: "4 * x = w32 (4 * unat x)"
  by (simp add: w32_def)

lemma clear_address:
  assumes "unat p + 4 * j < 4294967296"
  shows "unat (p + w32 (4 * j)) = unat p + 4 * j"
  using assms by (simp add: unat_word_ariths unat_w32)

lemma read_int_at:
  "unat p + 4 * j < 4294967296 \<Longrightarrow> j < length buf \<Longrightarrow> read_int p buf (p + w32 (4 * j)) = Some (buf ! j)"
  by (simp add: read_int_def Let_def clear_address word_le_nat_alt)

lemma clear_step:
  assumes "unat p + 4 * length buf < 4294967296" "j < length buf"
  shows "clear_loop p buf incr (p + w32 (4 * length buf)) (p + w32 (4 * j)) x
    = clear_loop p buf incr (p + w32 (4 * length buf)) (p + w32 (4 * (j + unat incr))) (x + buf ! j)"
proof -
  have next_int: "p + w32 (4 * j) + 4 * incr = p + w32 (4 * (j + unat incr))"
    unfolding times_4 [of incr] by (simp add: w32_add distrib_left add.assoc)
  have "p + w32 (4 * j) < p + w32 (4 * length buf)"
    using assms by (simp add: word_less_nat_alt clear_address)
  then have "clear_loop p buf incr (p + w32 (4 * length buf)) (p + w32 (4 * j)) x
      = clear_loop p buf incr (p + w32 (4 * length buf)) (p + w32 (4 * j) + 4 * incr) (x + buf ! j)"
    using assms by (subst clear_loop.simps) (simp add: read_int_at)
  then show ?thesis unfolding next_int .
qed

text \<open>It ends if the address that passes the buffer does not wrap.\<close>

lemma clear_loop_ends:
  assumes k: "0 < unat incr" and room: "unat p + 4 * stop_at (unat incr) (length buf) < 4294967296"
  shows "unat incr dvd j \<Longrightarrow> j \<le> stop_at (unat incr) (length buf) \<Longrightarrow>
    \<exists>y. clear_loop p buf incr (p + w32 (4 * length buf)) (p + w32 (4 * j)) x = Some y"
proof (induction "stop_at (unat incr) (length buf) - j" arbitrary: j x rule: less_induct)
  case less
  let ?m = "stop_at (unat incr) (length buf)"
  have n: "unat p + 4 * length buf < 4294967296" "unat p + 4 * j < 4294967296"
    using room stop_at_props(1) [OF k, of "length buf"] less.prems(2) by simp_all
  show ?case
  proof (cases "j < length buf")
    case True
    have "k + j \<le> ?m" if "k = unat incr" for k
    proof -
      obtain a where a: "j = unat incr * a" using less.prems(1) by (rule dvdE)
      obtain b where b: "?m = unat incr * b" using stop_at_props(3) [OF k] by (rule dvdE)
      have "j < ?m" using True stop_at_props(1) [OF k, of "length buf"] by simp
      then have "Suc a \<le> b" using a b by simp
      then have "unat incr * Suc a \<le> ?m" unfolding b by (rule mult_le_mono2)
      then show ?thesis using that a by simp
    qed
    then have "j + unat incr \<le> ?m" by (simp add: add.commute)
    with less.hyps [of "j + unat incr" "x + buf ! j"] less.prems k show ?thesis
      by (simp add: clear_step [OF n(1) True])
  next
    case False
    then have "\<not> p + w32 (4 * j) < p + w32 (4 * length buf)"
      using n by (simp add: word_less_nat_alt clear_address)
    then show ?thesis by (simp add: clear_loop.simps)
  qed
qed

text \<open>
  If that address wraps, it is below the buffer, and so is outside it. (A buffer below 2 GB; in
  one that is larger the address may come back inside.)
\<close>

lemma clear_loop_wraps:
  assumes k: "0 < unat incr" "4 * unat incr < 4294967296"
    and n: "length buf < 536870912" "unat p + 4 * length buf < 4294967296"
    and wrap: "4294967296 \<le> unat p + 4 * stop_at (unat incr) (length buf)"
  shows "unat incr dvd j \<Longrightarrow> j < length buf \<Longrightarrow>
    clear_loop p buf incr (p + w32 (4 * length buf)) (p + w32 (4 * j)) x = None"
proof (induction "length buf - j" arbitrary: j x rule: less_induct)
  case less
  let ?j = "j + unat incr"
  note step = clear_step [OF n(2) less.prems(2)]
  show ?case
  proof (cases "?j < length buf")
    case True
    with less.hyps [of ?j "x + buf ! j"] less.prems k show ?thesis by (simp add: step)
  next
    case False
    have "stop_at (unat incr) (length buf) \<le> ?j"
      using False less.prems(1) by (intro stop_at_least [OF k(1)]) simp_all
    then have big: "4294967296 \<le> unat p + 4 * ?j" using wrap by simp
    have j: "4 * ?j < 4294967296"
    proof (cases "j = 0")
      case False
      then have "unat incr \<le> j" using less.prems(1) by (simp add: dvd_imp_le)
      then show ?thesis using less.prems(2) n(1) by simp
    qed (use k in simp)
    have a: "unat (p + w32 (4 * ?j)) = unat p + 4 * ?j - 4294967296"
      using big j unat_lt32 [of p] by (simp add: unat_word_ariths unat_w32 mod_if)
    have "p + w32 (4 * ?j) < p + w32 (4 * length buf)" "\<not> p \<le> p + w32 (4 * ?j)"
      using a big j n(2) by (simp_all add: word_less_nat_alt word_le_nat_alt clear_address)
    then show ?thesis unfolding step by (subst clear_loop.simps) (simp add: read_int_def)
  qed
qed

text \<open>With a step of 0, a cache block below the size of an \<open>int\<close>, the loop never ends.\<close>

lemma clear_loop_stuck: "cptr < cend \<Longrightarrow> clear_loop p buf 0 cend cptr x = None"
proof (rule ccontr)
  assume "cptr < cend" "clear_loop p buf 0 cend cptr x \<noteq> None"
  then obtain y where y: "clear_loop p buf 0 cend cptr x = Some y" by blast
  note induct = clear_loop.raw_induct [where P = "\<lambda>p buf incr cend cptr x y. incr = 0 \<longrightarrow> \<not> cptr < cend"
      and xa = "(((((p, buf), incr), cend), cptr), x)" for incr, unfolded prod.case]
  have "incr = 0 \<longrightarrow> \<not> cptr < cend" if "clear_loop p buf incr cend cptr x = Some y" for incr
  proof (rule induct [OF _ that])
    fix g and p :: u32 and buf :: "u32 list" and incr cend cptr x y
    assume IH: "\<And>p buf incr cend cptr x y. g p buf incr cend cptr x = Some y \<Longrightarrow> incr = 0 \<longrightarrow> \<not> cptr < cend"
      and body: "(if cptr < cend
        then do { v \<leftarrow> read_int p buf cptr; g p buf incr cend (cptr + 4 * incr) (x + v) }
        else Some x) = Some y"
    show "incr = 0 \<longrightarrow> \<not> cptr < cend"
    proof (intro impI notI)
      assume z: "incr = 0" "cptr < cend"
      with body obtain v where "g p buf incr cend (cptr + 4 * incr) (x + v) = Some y"
        by (auto split: Option.bind_splits)
      from IH [OF this] z show False by simp
    qed
  qed
  with y \<open>cptr < cend\<close> show False by blast
qed

text \<open>With its buffer in place \<open>clear\<close> returns exactly if its pointer gets past the buffer.\<close>

lemma clear_returns:
  assumes buf: "cache_buf s = Some (p, buf)" "length buf = unat (ints (cache_bytes s))"
    and n: "length buf < 536870912" "unat p + 4 * length buf < 4294967296"
  shows "(\<exists>t. clear H s = Some t) \<longleftrightarrow>
    buf = [] \<or> 0 < stride s \<and> unat p + 4 * stop_at (stride s) (length buf) < 4294967296"
proof -
  let ?i = "ints (cache_block s)" and ?e = "p + w32 (4 * length buf)"
  have "4 * ints (cache_bytes s) = w32 (4 * length buf)" unfolding buf(2) by (rule times_4)
  then have clear: "(\<exists>t. clear H s = Some t) \<longleftrightarrow> (\<exists>y. clear_loop p buf ?i ?e p (sink s) = Some y)"
    by (auto simp: clear_def buf(1) split: Option.bind_splits)
  have start: "p + w32 (4 * 0) = p" by (simp add: w32_def)
  show ?thesis
  proof (cases "buf = []")
    case True
    then have "clear_loop p buf ?i ?e p (sink s) = Some (sink s)"
      using start by (subst clear_loop.simps) simp
    with True clear show ?thesis by blast
  next
    case ne: False
    show ?thesis
    proof (cases "0 < stride s \<and> unat p + 4 * stop_at (stride s) (length buf) < 4294967296")
      case True
      with clear_loop_ends [of ?i p buf 0 "sink s"] clear start show ?thesis by (simp add: stride_def)
    next
      case False
      have "clear_loop p buf ?i ?e p (sink s) = None"
      proof (cases "stride s = 0")
        case True
        then have "?i = 0" by (simp add: stride_def unsigned_eq_0_iff)
        moreover have "p < ?e" using n(2) ne by (simp add: word_less_nat_alt clear_address)
        ultimately show ?thesis by (simp add: clear_loop_stuck)
      next
        case k: False
        with clear_loop_wraps [of ?i buf p 0 "sink s"] ints_less [of "cache_block s"] n False ne start
        show ?thesis by (simp add: stride_def)
      qed
      with False ne clear show ?thesis by simp
    qed
  qed
qed

text \<open>
  \<open>ready\<close>: memory is granted; if the cache is to be cleared, a block of it holds at least one
  \<open>int\<close>, the buffer has the size the parameters say, and it is a block away from the end of the address
  space.
\<close>

definition block_away :: "('w, 'a) timing_scheme \<Rightarrow> u32 \<Rightarrow> bool" where
  "block_away s p \<longleftrightarrow> int (unat p) + cache_bytes s + cache_block s \<le> 4294967296"

definition ready :: "('w, 'm) host_scheme \<Rightarrow> ('w, 'a) timing_scheme \<Rightarrow> bool" where
  "ready H s \<longleftrightarrow> (\<forall>n w. fst (grant H n w) \<noteq> 0)
     \<and> (clear_cache s \<longrightarrow> 4 \<le> cache_block s \<and> 0 \<le> cache_bytes s
         \<and> (\<forall>w. block_away s (fst (grant H (word_of_int (cache_bytes s)) w)))
         \<and> (\<forall>p buf. cache_buf s = Some (p, buf) \<longrightarrow> block_away s p \<and> length buf = unat (ints (cache_bytes s))))"

lemma ints_small: "0 \<le> b \<Longrightarrow> b < 4294967296 \<Longrightarrow> unat (ints b) = nat b div 4"
proof -
  assume "0 \<le> b" "b < 4294967296"
  then have "uint (word_of_int b :: u32) = b" by (intro word_of_int_inverse) auto
  then have "unat (word_of_int b :: u32) = nat b" by (metis nat_int uint_nat)
  then show ?thesis by (simp add: ints_def unat_div)
qed

lemma clear_loop_ready:
  assumes b: "4 \<le> cache_block s" "0 \<le> cache_bytes s" "block_away s p"
    and n: "length buf = unat (ints (cache_bytes s))"
  shows "\<exists>y. clear_loop p buf (ints (cache_block s)) (p + 4 * ints (cache_bytes s)) p x = Some y"
proof -
  let ?k = "unat (ints (cache_block s))"
  have i: "cache_block s < 4294967296 + 1" "cache_bytes s < 4294967296"
    using b of_nat_0_le_iff [of "unat p"] unfolding block_away_def by linarith+
  show ?thesis
  proof (cases "buf = []")
    case True
    with n have "p + 4 * ints (cache_bytes s) = p" by (simp add: unsigned_eq_0_iff)
    then show ?thesis by (simp add: clear_loop.simps)
  next
    case False
    then have "cache_bytes s \<noteq> 0" using n by (auto simp: ints_def)
    with b i have lt: "cache_block s < 4294967296"
      using of_nat_0_le_iff [of "unat p"] unfolding block_away_def by linarith
    have k: "?k = nat (cache_block s) div 4" "length buf = nat (cache_bytes s) div 4"
      using b i lt n ints_small by simp_all
    then have k0: "0 < ?k" using b(1) by simp
    have "4 * ?k \<le> nat (cache_block s)" "4 * length buf \<le> nat (cache_bytes s)" using k by simp_all
    moreover have "4 * stop_at ?k (length buf) < 4 * length buf + 4 * ?k"
      using stop_at_props(2) [OF k0, of "length buf"] by simp
    ultimately have "unat p + 4 * stop_at ?k (length buf) < 4294967296"
      using b unfolding block_away_def by linarith
    from clear_loop_ends [OF k0 this, of 0 x] have
      "\<exists>y. clear_loop p buf (ints (cache_block s)) (p + w32 (4 * length buf)) (p + w32 (4 * 0)) x = Some y"
      by simp
    moreover have "4 * ints (cache_bytes s) = w32 (4 * length buf)" unfolding n by (rule times_4)
    ultimately show ?thesis by (simp add: w32_def)
  qed
qed

lemma clear_ready:
  assumes R: "ready H s" "clear_cache s"
  shows "\<exists>w p buf x. clear H s = Some (s\<lparr>world := w, cache_buf := Some (p, buf), sink := x\<rparr>)
    \<and> block_away s p \<and> length buf = unat (ints (cache_bytes s))"
proof (cases "cache_buf s")
  case None
  let ?buf = "map (fresh_words H (world s)) [0..<unat (ints (cache_bytes s))]"
  obtain p w where g: "grant H (word_of_int (cache_bytes s)) (world s) = (p, w)" by (metis prod.collapse)
  with R have p: "p \<noteq> 0" "block_away s p" "4 \<le> cache_block s" "0 \<le> cache_bytes s"
    unfolding ready_def by (metis fst_conv)+
  from clear_loop_ready [OF p(3,4,2), of ?buf "sink s"] obtain y where
    "clear_loop p ?buf (ints (cache_block s)) (p + 4 * ints (cache_bytes s)) p (sink s) = Some y" by auto
  with g p(1) None have "clear H s = Some (s\<lparr>world := w, cache_buf := Some (p, ?buf), sink := y\<rparr>)"
    by (simp add: clear_def Let_def)
  moreover have "length ?buf = unat (ints (cache_bytes s))" by simp
  ultimately show ?thesis using p(2) by blast
next
  case (Some b)
  obtain p buf where b: "b = (p, buf)" by (cases b)
  with R Some have p: "block_away s p" "4 \<le> cache_block s" "0 \<le> cache_bytes s"
    "length buf = unat (ints (cache_bytes s))" by (simp_all add: ready_def)
  from clear_loop_ready [OF p(2,3,1,4), of "sink s"] obtain y where
    y: "clear_loop p buf (ints (cache_block s)) (p + 4 * ints (cache_bytes s)) p (sink s) = Some y" by auto
  have "s\<lparr>world := world s, cache_buf := Some (p, buf), sink := y\<rparr> = s\<lparr>sink := y\<rparr>"
    using Some b by (cases s) simp
  with y Some b have "clear H s = Some (s\<lparr>world := world s, cache_buf := Some (p, buf), sink := y\<rparr>)"
    by (simp add: clear_def)
  with p(1,4) show ?thesis by blast
qed

section \<open>The loop\<close>

text \<open>\<open>settings s = settings t\<close>: the parameters of the measurement are the same.\<close>

definition settings :: "('w, 'a) timing_scheme \<Rightarrow> _" where
  "settings s = (kbest s, maxsamples s, epsilon s, compensate s, clear_cache s, cache_bytes s,
     cache_block s, cyc_per_tick s = 0)"

lemma clock_frame:
  "settings (start_counter H s) = settings s" "keeps xs (start_counter H s) = keeps xs s"
  "ready H' (start_counter H s) = ready H' s"
  "settings (snd (get_counter H s)) = settings s" "keeps xs (snd (get_counter H s)) = keeps xs s"
  "ready H' (snd (get_counter H s)) = ready H' s"
  by (simp_all add: settings_def keeps_def ready_def block_away_def start_counter_def get_counter_def split: prod.splits)

lemma world_frame [simp]:
  "settings (s\<lparr>world := w\<rparr>) = settings s" "keeps xs (s\<lparr>world := w\<rparr>) = keeps xs s"
  "ready H (s\<lparr>world := w\<rparr>) = ready H s"
  "settings (s\<lparr>start_tick := i\<rparr>) = settings s" "keeps xs (s\<lparr>start_tick := i\<rparr>) = keeps xs s"
  "ready H (s\<lparr>start_tick := i\<rparr>) = ready H s"
  by (simp_all add: settings_def keeps_def ready_def block_away_def)

text \<open>The three steps of a round: clearing the cache, starting the counter, and reading it.\<close>

lemma clear_step_ok:
  assumes K: "keeps xs s" and R: "ready H s"
  shows "\<exists>t. (if clear_cache s then clear H s else Some s) = Some t \<and> keeps xs t \<and> ready H t
    \<and> settings t = settings s"
proof (cases "clear_cache s")
  case True
  from clear_ready [OF R True] obtain w p buf x where
    "clear H s = Some (s\<lparr>world := w, cache_buf := Some (p, buf), sink := x\<rparr>)"
    "block_away s p" "length buf = unat (ints (cache_bytes s))" by blast
  with True K R show ?thesis
    by (intro exI [of _ "s\<lparr>world := w, cache_buf := Some (p, buf), sink := x\<rparr>"])
      (simp_all add: keeps_def ready_def settings_def block_away_def)
qed (use K R in simp)

lemma start_step_ok:
  assumes s: "keeps xs s" "ready H s" and adj: "adjust \<longrightarrow> cyc_per_tick s \<noteq> 0"
  shows "\<exists>t. (if adjust then start_comp_counter H s else Some (start_counter H s)) = Some t
    \<and> keeps xs t \<and> ready H t \<and> settings t = settings s"
proof (cases adjust)
  case True
  with adj have "start_comp_counter H s = Some (start_counter H
      (s\<lparr>world := snd (tms_utime H (world s)), start_tick := fst (tms_utime H (world s))\<rparr>))"
    by (simp add: start_comp_counter_def split: prod.splits)
  with True s show ?thesis
    by (intro exI [of _ "start_counter H (s\<lparr>world := snd (tms_utime H (world s)),
          start_tick := fst (tms_utime H (world s))\<rparr>)"]) (simp_all add: clock_frame)
qed (use s in \<open>simp add: clock_frame\<close>)

lemma stop_step_ok:
  assumes s: "keeps xs s" "ready H s"
  shows "\<exists>cyc t. (if adjust then get_comp_counter H s else get_counter H s) = (cyc, t)
    \<and> keeps xs t \<and> ready H t \<and> settings t = settings s"
proof -
  obtain c t where c: "get_counter H s = (c, t)" by (cases "get_counter H s")
  then have t: "keeps xs t" "ready H t" "settings t = settings s"
    using clock_frame(4,5) [where H = H and s = s] clock_frame(6) [where H = H and H' = H and s = s] s by simp_all
  show ?thesis
  proof (cases adjust)
    case True
    let ?u = "tms_utime H (world t)"
    have "get_comp_counter H s = (c - of_int (fst ?u - start_tick t) * cyc_per_tick t, t\<lparr>world := snd ?u\<rparr>)"
      by (simp add: get_comp_counter_def c split: prod.splits)
    with True t show ?thesis by simp
  qed (use c t in simp)
qed

lemma fcyc_round_ok:
  assumes K: "keeps xs s" and R: "ready H s" and f: "\<forall>w. \<exists>w'. f w = Some w'"
    and adj: "adjust \<longrightarrow> cyc_per_tick s \<noteq> 0"
  shows "\<exists>cyc t. fcyc_round H f adjust s = Some (cyc, t) \<and> keeps (xs @ [cyc]) t \<and> ready H t
    \<and> settings t = settings s"
proof -
  from clear_step_ok [OF K R] obtain s1 where
    s1: "(if clear_cache s then clear H s else Some s) = Some s1" "keeps xs s1" "ready H s1"
      "settings s1 = settings s" by blast
  have "adjust \<longrightarrow> cyc_per_tick s1 \<noteq> 0" using adj s1(4) by (simp add: settings_def)
  from start_step_ok [OF s1(2,3) this] obtain s2 where
    s2: "(if adjust then start_comp_counter H s1 else Some (start_counter H s1)) = Some s2"
      "keeps xs s2" "ready H s2" "settings s2 = settings s1" by blast
  obtain w where w: "f (world s2) = Some w" using f by blast
  have "keeps xs (s2\<lparr>world := w\<rparr>)" "ready H (s2\<lparr>world := w\<rparr>)" using s2(2,3) by simp_all
  from stop_step_ok [OF this, of adjust] obtain cyc s3 where
    s3: "(if adjust then get_comp_counter H (s2\<lparr>world := w\<rparr>) else get_counter H (s2\<lparr>world := w\<rparr>)) = (cyc, s3)"
      "keeps xs s3" "ready H s3" "settings s3 = settings s2" by auto
  from add_sample_keeps [OF s3(2), of cyc] obtain vs where vs:
    "add_sample cyc s3 = Some (s3\<lparr>vals := Some vs, samplecount := samplecount s3 + 1\<rparr>)"
    "keeps (xs @ [cyc]) (s3\<lparr>vals := Some vs, samplecount := samplecount s3 + 1\<rparr>)" by blast
  show ?thesis
    using s1(1,4) s2(1,4) w s3 vs by (auto simp: fcyc_round_def ready_def block_away_def settings_def)
qed

text \<open>What \<open>n\<close> rounds measure.\<close>

fun measure_rounds :: "('w, 'm) host_scheme \<Rightarrow> ('w \<Rightarrow> 'w option) \<Rightarrow> bool \<Rightarrow> nat \<Rightarrow>
    ('w, 'a) timing_scheme \<Rightarrow> (rat list \<times> ('w, 'a) timing_scheme) option" where
  "measure_rounds H f adjust 0 s = Some ([], s)"
| "measure_rounds H f adjust (Suc n) s = do {
     (cyc, s) \<leftarrow> fcyc_round H f adjust s;
     (cycs, s) \<leftarrow> measure_rounds H f adjust n s;
     Some (cyc # cycs, s) }"

lemma keeps_first:
  assumes "keeps xs s" "xs \<noteq> []"
  shows "\<exists>vs. vals s = Some vs \<and> vs \<noteq> [] \<and> vs ! 0 = Min (set xs)"
proof -
  obtain vs where vs: "vals s = Some vs" "length vs = nat (kbest s)"
    "take (length xs) vs = take (nat (kbest s)) (sort xs)" "1 \<le> kbest s"
    using assms(1) by (auto simp: keeps_def)
  then have k: "0 < nat (kbest s)" "vs \<noteq> []" by auto
  have "vs ! 0 = take (length xs) vs ! 0" using assms(2) by simp
  also have "\<dots> = sort xs ! 0" using vs(3) k(1) by simp
  also have "\<dots> = Min (set xs)"
  proof -
    obtain y ys where y: "sort xs = y # ys" using assms(2) by (metis length_0_conv length_sort neq_Nil_conv)
    then have "sorted (y # ys)" by (metis sorted_sort)
    moreover have "set xs = set (y # ys)" by (metis y set_sort)
    ultimately show ?thesis using y by (auto intro!: Min_eqI [symmetric])
  qed
  finally show ?thesis using vs(1) k(2) by blast
qed

definition converged :: "rat \<Rightarrow> int \<Rightarrow> rat list \<Rightarrow> bool" where
  "converged eps k xs \<longleftrightarrow> nat k \<le> length xs \<and> sort xs ! nat (k - 1) \<le> (1 + eps) * Min (set xs)"

lemma has_converged_keeps:
  assumes K: "keeps xs s" and xs: "xs \<noteq> []"
  shows "has_converged s = Some (converged (epsilon s) (kbest s) xs)"
proof (cases "samplecount s \<ge> kbest s")
  case True
  obtain vs where vs: "vals s = Some vs" "length vs = nat (kbest s)"
    "take (length xs) vs = take (nat (kbest s)) (sort xs)" and k: "1 \<le> kbest s" "samplecount s = int (length xs)"
    using K by (auto simp: keeps_def)
  have n: "nat (kbest s) \<le> length xs" "nat (kbest s - 1) < nat (kbest s)" using True k by auto
  then have "vs ! nat (kbest s - 1) = take (length xs) vs ! nat (kbest s - 1)" by simp
  also have "\<dots> = sort xs ! nat (kbest s - 1)" using vs(3) n by simp
  finally have "vs ! nat (kbest s - 1) = sort xs ! nat (kbest s - 1)" .
  moreover have "vs ! 0 = Min (set xs)" using keeps_first [OF K xs] vs(1) by simp
  ultimately show ?thesis using True vs(1,2) k(1) n(1) by (simp add: has_converged_def converged_def)
next
  case False
  then have "\<not> nat (kbest s) \<le> length xs" using K by (auto simp: keeps_def)
  with False show ?thesis by (simp add: has_converged_def converged_def)
qed

lemma fcyc_loop_ok:
  assumes f: "\<forall>w. \<exists>w'. f w = Some w'"
  shows "keeps xs s \<Longrightarrow> ready H s \<Longrightarrow> adjust \<longrightarrow> cyc_per_tick s \<noteq> 0 \<Longrightarrow>
    \<exists>ys t. fcyc_loop H f adjust s = Some t \<and> measure_rounds H f adjust (length ys) s = Some (ys, t)
      \<and> ys \<noteq> [] \<and> keeps (xs @ ys) t
      \<and> int (length (xs @ ys)) \<le> max (int (length xs) + 1) (maxsamples s)
      \<and> (converged (epsilon s) (kbest s) (xs @ ys) \<or> maxsamples s \<le> int (length (xs @ ys)))"
proof (induction "nat (maxsamples s - int (length xs))" arbitrary: xs s rule: less_induct)
  case less
  from fcyc_round_ok [OF less.prems(1,2) f less.prems(3)] obtain cyc t where
    t: "fcyc_round H f adjust s = Some (cyc, t)" "keeps (xs @ [cyc]) t" "ready H t" "settings t = settings s"
    by blast
  have S: "maxsamples t = maxsamples s" "epsilon t = epsilon s" "kbest t = kbest s"
    "(cyc_per_tick t = 0) = (cyc_per_tick s = 0)" using t(4) by (simp_all add: settings_def)
  have cnt: "samplecount t = int (length xs) + 1" using t(2) by (simp add: keeps_def)
  have conv: "has_converged t = Some (converged (epsilon s) (kbest s) (xs @ [cyc]))"
    using has_converged_keeps [OF t(2)] S by simp
  show ?case
  proof (cases "\<not> converged (epsilon s) (kbest s) (xs @ [cyc]) \<and> samplecount t < maxsamples t")
    case True
    have "nat (maxsamples t - int (length (xs @ [cyc]))) < nat (maxsamples s - int (length xs))"
      using True cnt S(1) by simp
    from less.hyps [OF this t(2,3)] less.prems(3) S(4) obtain ys u where
      u: "fcyc_loop H f adjust t = Some u" "measure_rounds H f adjust (length ys) t = Some (ys, u)"
      "keeps ((xs @ [cyc]) @ ys) u"
      "int (length ((xs @ [cyc]) @ ys)) \<le> max (int (length (xs @ [cyc])) + 1) (maxsamples t)"
      "converged (epsilon t) (kbest t) ((xs @ [cyc]) @ ys) \<or> maxsamples t \<le> int (length ((xs @ [cyc]) @ ys))"
      by blast
    have "fcyc_loop H f adjust s = Some u"
      using t(1) conv True u(1) by (subst fcyc_loop.simps) simp
    moreover have "measure_rounds H f adjust (length (cyc # ys)) s = Some (cyc # ys, u)"
      using t(1) u(2) by simp
    moreover have "int (length (xs @ cyc # ys)) \<le> max (int (length xs) + 1) (maxsamples s)"
      using u(4) True cnt S(1) by auto
    ultimately show ?thesis using u(3,5) S by (intro exI [of _ "cyc # ys"] exI [of _ u]) auto
  next
    case False
    then have "fcyc_loop H f adjust s = Some t"
      using t(1) conv by (subst fcyc_loop.simps) auto
    moreover have "converged (epsilon s) (kbest s) (xs @ [cyc]) \<or> maxsamples s \<le> int (length (xs @ [cyc]))"
      using False cnt S(1) by auto
    ultimately show ?thesis using t(1,2) by (intro exI [of _ "[cyc]"] exI [of _ t]) auto
  qed
qed

text \<open>\<open>fcyc\<close> returns, with the smallest of its samples.\<close>

lemma fcyc_ok:
  assumes f: "\<forall>w. \<exists>w'. f w = Some w'" and R: "ready H s"
    and k: "1 \<le> kbest s" "kbest s < 536870912" and adj: "compensate s \<longrightarrow> cyc_per_tick s \<noteq> 0"
  shows "\<exists>ys t. fcyc H f s = Some (Min (set ys), t\<lparr>vals := None\<rparr>)
    \<and> measure_rounds H f (compensate s) (length ys) (init_sampler H s) = Some (ys, t)
    \<and> ys \<noteq> [] \<and> int (length ys) \<le> max 1 (maxsamples s)
    \<and> (converged (epsilon s) (kbest s) ys \<or> maxsamples s \<le> int (length ys))"
proof -
  let ?s = "init_sampler H s"
  obtain p w where w: "grant H (w32 (nat (kbest s) * 8)) (world s) = (p, w)" "p \<noteq> 0"
    using R unfolding ready_def by (metis prod.collapse)
  have "uint (word_of_int (kbest s) :: u32) = kbest s" using k by (intro word_of_int_inverse) auto
  then have n: "unat (word_of_int (kbest s) :: u32) = nat (kbest s)" by (metis nat_int uint_nat)
  have s: "?s = s\<lparr>world := w, samplecount := 0, vals := Some (replicate (nat (kbest s)) 0)\<rparr>"
    using k by (simp add: init_sampler_def w n Let_def)
  have K: "keeps [] ?s" using k(1) by (simp add: keeps_def s)
  have R': "ready H ?s" using R by (simp add: ready_def block_away_def s)
  have A: "compensate s \<longrightarrow> cyc_per_tick ?s \<noteq> 0" using adj by (simp add: s)
  have same: "maxsamples ?s = maxsamples s" "epsilon ?s = epsilon s" "kbest ?s = kbest s"
    "compensate ?s = compensate s" by (simp_all add: s)
  from fcyc_loop_ok [OF f K R' A] same obtain ys t where
    t: "fcyc_loop H f (compensate s) ?s = Some t"
    "measure_rounds H f (compensate s) (length ys) ?s = Some (ys, t)" "ys \<noteq> []" "keeps ys t"
    "int (length ys) \<le> max 1 (maxsamples s)"
    "converged (epsilon s) (kbest s) ys \<or> maxsamples s \<le> int (length ys)" by auto
  from keeps_first [OF t(4,3)] obtain vs where vs: "vals t = Some vs" "vs \<noteq> []" "vs ! 0 = Min (set ys)"
    by blast
  have "fcyc H f s = Some (Min (set ys), t\<lparr>vals := None\<rparr>)"
    using t(1) vs same(4) by (cases "compensate s") (simp_all add: fcyc_def Let_def)
  with t show ?thesis by blast
qed

end
