(* ===== verification/Fsecs.thy ===== *)
theory Fsecs
  imports Fcyc
begin

text \<open>
  \<^verbatim>\<open>ftimer.c\<close> and \<^verbatim>\<open>fsecs.c\<close>: the interval timers, \<open>gettimeofday\<close>, and the choice between the
  timing packages, which \<^verbatim>\<open>config.h\<close> makes. The system's calls are functions on the world.
\<close>

section \<open>The code\<close>

datatype itimer = ITIMER_REAL | ITIMER_VIRTUAL | ITIMER_PROF

text \<open>A time: seconds and microseconds.\<close>

type_synonym timeval = "int \<times> int"

record 'w os = "'w host" +
  gettimeofday :: "'w \<Rightarrow> timeval \<times> 'w"
  setitimer :: "itimer \<Rightarrow> timeval \<Rightarrow> 'w \<Rightarrow> 'w"
  getitimer :: "itimer \<Rightarrow> 'w \<Rightarrow> timeval \<times> 'w"

record 'w bench = "'w timing" +
  first_u :: timeval
  first_r :: timeval
  first_p :: timeval
  Mhz :: rat

definition MAX_ETIME :: int where
  "MAX_ETIME = 86400"

definition init_etime :: "('w, 'm) os_scheme \<Rightarrow> ('w, 'a) bench_scheme \<Rightarrow> ('w, 'a) bench_scheme" where
  "init_etime H s =
     (let s = s\<lparr>first_u := (MAX_ETIME, 0), world := setitimer H ITIMER_VIRTUAL (MAX_ETIME, 0) (world s)\<rparr>;
          s = s\<lparr>first_r := (MAX_ETIME, 0), world := setitimer H ITIMER_REAL (MAX_ETIME, 0) (world s)\<rparr>
      in s\<lparr>first_p := (MAX_ETIME, 0), world := setitimer H ITIMER_PROF (MAX_ETIME, 0) (world s)\<rparr>)"

definition get_etime :: "('w, 'm) os_scheme \<Rightarrow> ('w, 'a) bench_scheme \<Rightarrow> rat \<times> ('w, 'a) bench_scheme" where
  "get_etime H s =
     (let (v_curr, w) = getitimer H ITIMER_VIRTUAL (world s);
          (r_curr, w) = getitimer H ITIMER_REAL w;
          (p_curr, w) = getitimer H ITIMER_PROF w
      in (of_int (fst (first_p s) - fst r_curr) + of_int (snd (first_p s) - snd r_curr) / 1000000,
          s\<lparr>world := w\<rparr>))"

text \<open>\<^verbatim>\<open>for (i = 0; i < n; i++) f(argp)\<close>\<close>

fun run_times :: "('w \<Rightarrow> 'w option) \<Rightarrow> nat \<Rightarrow> 'w \<Rightarrow> 'w option" where
  "run_times f 0 w = Some w"
| "run_times f (Suc n) w = do { w \<leftarrow> f w; run_times f n w }"

definition ftimer_itimer :: "('w, 'm) os_scheme \<Rightarrow> ('w \<Rightarrow> 'w option) \<Rightarrow> int \<Rightarrow>
    ('w, 'a) bench_scheme \<Rightarrow> (rat \<times> ('w, 'a) bench_scheme) option" where
  "ftimer_itimer H f n s = do {
     let s = init_etime H s;
     let (start, s) = get_etime H s;
     w \<leftarrow> run_times f (nat n) (world s);
     let (stop, s) = get_etime H (s\<lparr>world := w\<rparr>);
     Some ((stop - start) / of_int n, s) }"

definition ftimer_gettod :: "('w, 'm) os_scheme \<Rightarrow> ('w \<Rightarrow> 'w option) \<Rightarrow> int \<Rightarrow>
    ('w, 'a) bench_scheme \<Rightarrow> (rat \<times> ('w, 'a) bench_scheme) option" where
  "ftimer_gettod H f n s = do {
     let (stv, w) = gettimeofday H (world s);
     w \<leftarrow> run_times f (nat n) w;
     let (etv, w) = gettimeofday H w;
     let diff = 1000 * of_int (fst etv - fst stv) + of_int (snd etv - snd stv) / 1000;
     let diff = diff / of_int n;
     Some (diff / 1000, s\<lparr>world := w\<rparr>) }"

text \<open>The three packages; \<^verbatim>\<open>config.h\<close> selects the last one.\<close>

datatype package = USE_FCYC | USE_ITIMER | USE_GETTOD

definition config_timer :: package where
  "config_timer = USE_GETTOD"

definition init_fsecs :: "package \<Rightarrow> ('w, 'm) os_scheme \<Rightarrow> ('w, 'a) bench_scheme \<Rightarrow> ('w, 'a) bench_scheme" where
  "init_fsecs P H s =
     (let s = s\<lparr>Mhz := 0\<rparr>
      in case P of
        USE_FCYC \<Rightarrow>
          (let s = set_fcyc_maxsamples 20 s;
               s = set_fcyc_clear_cache True s;
               s = set_fcyc_compensate True s;
               s = set_fcyc_epsilon (1 / 100) s;
               s = set_fcyc_k 3 s;
               (rate, s) = mhz H s
           in s\<lparr>Mhz := rate\<rparr>)
      | USE_ITIMER \<Rightarrow> s
      | USE_GETTOD \<Rightarrow> s)"

definition fsecs :: "package \<Rightarrow> ('w, 'm) os_scheme \<Rightarrow> ('w \<Rightarrow> 'w option) \<Rightarrow>
    ('w, 'a) bench_scheme \<Rightarrow> (rat \<times> ('w, 'a) bench_scheme) option" where
  "fsecs P H f s = (case P of
       USE_FCYC \<Rightarrow> do { (cycles, s) \<leftarrow> fcyc H f s; Some (cycles / (Mhz s * 1000000), s) }
     | USE_ITIMER \<Rightarrow> ftimer_itimer H f 10 s
     | USE_GETTOD \<Rightarrow> ftimer_gettod H f 10 s)"

section \<open>What the timers return\<close>

definition microseconds :: "timeval \<Rightarrow> int" where
  "microseconds tv = 1000000 * fst tv + snd tv"

text \<open>
  \<open>gettimeofday\<close> before and after the runs: the result is the mean of the elapsed time, in
  seconds.
\<close>

lemma ftimer_gettod_mean:
  assumes "gettimeofday H (world s) = (t0, w0)" "run_times f (nat n) w0 = Some w1"
    "gettimeofday H w1 = (t1, w2)" "0 < n"
  shows "ftimer_gettod H f n s
    = Some (of_int (microseconds t1 - microseconds t0) / (1000000 * of_int n), s\<lparr>world := w2\<rparr>)"
proof -
  have "(1000 * of_int (fst t1 - fst t0) + of_int (snd t1 - snd t0) / 1000) / of_int n / 1000
      = (of_int (microseconds t1 - microseconds t0) / (1000000 * of_int n) :: rat)"
    using assms(4) by (simp add: microseconds_def field_simps)
  then show ?thesis using assms by (simp add: ftimer_gettod_def Let_def)
qed

text \<open>
  The interval timer: the two readings of the real-time timer, whatever it was set to.
\<close>

definition real_time :: "('w, 'm) os_scheme \<Rightarrow> 'w \<Rightarrow> timeval" where
  "real_time H w = fst (getitimer H ITIMER_REAL (snd (getitimer H ITIMER_VIRTUAL w)))"

lemma get_etime_real:
  "fst (get_etime H s) = of_int (microseconds (first_p s) - microseconds (real_time H (world s))) / 1000000"
  "first_p (snd (get_etime H s)) = first_p s"
  by (simp_all add: get_etime_def real_time_def microseconds_def field_simps split: prod.splits)

lemma ftimer_itimer_mean:
  assumes "run_times f (nat n) (world (snd (get_etime H (init_etime H s)))) = Some w1" "0 < n"
  shows "\<exists>s'. ftimer_itimer H f n s = Some (of_int (microseconds (real_time H (world (init_etime H s)))
    - microseconds (real_time H w1)) / (1000000 * of_int n), s')"
proof -
  let ?s = "init_etime H s"
  obtain start s1 where s1: "get_etime H ?s = (start, s1)" by (cases "get_etime H ?s")
  obtain stop s2 where s2: "get_etime H (s1\<lparr>world := w1\<rparr>) = (stop, s2)"
    by (cases "get_etime H (s1\<lparr>world := w1\<rparr>)")
  have "start = of_int (microseconds (first_p ?s) - microseconds (real_time H (world ?s))) / 1000000"
    "first_p s1 = first_p ?s" using get_etime_real [of H ?s] s1 by simp_all
  moreover have "stop = of_int (microseconds (first_p s1) - microseconds (real_time H w1)) / 1000000"
    using get_etime_real(1) [of H "s1\<lparr>world := w1\<rparr>"] s2 by simp
  ultimately have "stop - start = of_int (microseconds (real_time H (world ?s))
      - microseconds (real_time H w1)) / 1000000" by (simp add: field_simps)
  then have "(stop - start) / of_int n = of_int (microseconds (real_time H (world ?s))
      - microseconds (real_time H w1)) / (1000000 * of_int n)"
    by (simp only: divide_divide_eq_left)
  moreover have "run_times f (nat n) (world s1) = Some w1" using assms(1) s1 by simp
  ultimately show ?thesis using s1 s2 by (simp add: ftimer_itimer_def Let_def)
qed

text \<open>
  With the cycle counter as configured, \<open>fsecs\<close> is the smallest of at most 20 samples over the
  clock rate, once the rate of timer interrupts is known.
\<close>

lemma init_fsecs_fcyc:
  "kbest (init_fsecs USE_FCYC H s) = 3" "maxsamples (init_fsecs USE_FCYC H s) = 20"
  "compensate (init_fsecs USE_FCYC H s)" "clear_cache (init_fsecs USE_FCYC H s)"
  "epsilon (init_fsecs USE_FCYC H s) = 1 / 100"
  by (simp_all add: init_fsecs_def Let_def set_fcyc_maxsamples_def set_fcyc_clear_cache_def
      set_fcyc_compensate_def set_fcyc_epsilon_def set_fcyc_k_def mhz_def mhz_full_def get_counter_def
      start_counter_def split: prod.splits)

end
