(* ===== verification/Driver.thy ===== *)
theory Driver
  imports Eval_Valid Eval_Speed Read_Trace Fsecs
begin

text \<open>
  The main routine of \<^verbatim>\<open>mdriver.c\<close>: options, the team check, the evaluation of the package on
  every trace file, and the performance index.

  The world that the timing packages act on is the environment, the trace in memory and the
  state of the driver. What is printed is left out, except for the table of results.
\<close>

section \<open>Options\<close>

record options =
  team_check :: bool
  run_libc :: bool
  autograder :: bool
  verbosity :: nat
  tracedir :: string
  tracefiles :: "string list option"

definition default_options :: options where
  "default_options = \<lparr>team_check = True, run_libc = False, autograder = False, verbosity = 0,
     tracedir = ''traces/'', tracefiles = None\<rparr>"

text \<open>
  One option as \<open>getopt\<close> returns it, with its argument. A path longer than its buffer and the
  last character of an empty one are undefined; the left alternative is an exit code.
\<close>

definition parse_option :: "char \<times> string \<Rightarrow> options \<Rightarrow> (int + options) option" where
  "parse_option = (\<lambda>(c, arg) opt.
     if c = CHR ''g'' then Some (Inr (opt\<lparr>autograder := True\<rparr>))
     else if c = CHR ''f'' then Some (Inr (opt\<lparr>tracedir := ''./'', tracefiles := Some [arg]\<rparr>))
     else if c = CHR ''t'' then
       (if tracefiles opt \<noteq> None then Some (Inr opt)
        else if arg = [] \<or> MAXLINE \<le> length arg then None
        else if last arg \<noteq> CHR ''/'' then
          (if MAXLINE \<le> length arg + 1 then None else Some (Inr (opt\<lparr>tracedir := arg @ ''/''\<rparr>)))
        else Some (Inr (opt\<lparr>tracedir := arg\<rparr>)))
     else if c = CHR ''a'' then Some (Inr (opt\<lparr>team_check := False\<rparr>))
     else if c = CHR ''l'' then Some (Inr (opt\<lparr>run_libc := True\<rparr>))
     else if c = CHR ''v'' then Some (Inr (opt\<lparr>verbosity := 1\<rparr>))
     else if c = CHR ''V'' then Some (Inr (opt\<lparr>verbosity := 2\<rparr>))
     else if c = CHR ''h'' then Some (Inl 0)
     else Some (Inl 1))"

fun parse_options :: "(char \<times> string) list \<Rightarrow> options \<Rightarrow> (int + options) option" where
  "parse_options [] opt = Some (Inr opt)"
| "parse_options (a # as) opt = do {
     r \<leftarrow> parse_option a opt;
     (case r of Inl code \<Rightarrow> Some (Inl code) | Inr opt \<Rightarrow> parse_options as opt) }"

definition default_tracefiles :: "string list" where
  "default_tracefiles = [''amptjp-bal.rep'', ''cccp-bal.rep'', ''cp-decl-bal.rep'', ''expr-bal.rep'',
     ''coalescing-bal.rep'', ''random-bal.rep'', ''random2-bal.rep'', ''binary-bal.rep'',
     ''binary2-bal.rep'', ''realloc-bal.rep'', ''realloc2-bal.rep'']"

definition chosen_tracefiles :: "options \<Rightarrow> string list" where
  "chosen_tracefiles opt = (case tracefiles opt of None \<Rightarrow> default_tracefiles | Some fs \<Rightarrow> fs)"

section \<open>The team\<close>

record team_t =
  teamname :: string
  name1 :: string
  id1 :: string
  name2 :: string
  id2 :: string

definition team :: team_t where
  "team = \<lparr>teamname = ''in'', name1 = ''ivan nikitovic'', id1 = ''in@bu.edu'', name2 = '''', id2 = ''''\<rparr>"

text \<open>The message the check ends the program with, if any.\<close>

definition check_team :: "team_t \<Rightarrow> string option" where
  "check_team T =
     (if teamname T = '''' then Some ''ERROR: Please provide the information about your team in mm.c.''
      else if name1 T = '''' \<or> id1 T = '''' then Some ''ERROR.  You must fill in all team member 1 fields!''
      else if name2 T \<noteq> '''' \<and> id2 T = '''' \<or> name2 T = '''' \<and> id2 T \<noteq> ''''
      then Some ''ERROR.  You must fill in all or none of the team member 2 ID fields!''
      else None)"

section \<open>The evaluation of the package\<close>

record stats =
  stat_ops :: rat
  stat_valid :: bool
  stat_secs :: rat
  stat_util :: rat

type_synonym 'e memory = "'e \<times> trace \<times> driver"

text \<open>\<open>eval_mm_speed\<close> as the function that is timed; an exit inside it has no result.\<close>

definition timed_speed :: "'e memory \<Rightarrow> 'e memory option" where
  "timed_speed = (\<lambda>(e, t, d). case eval_mm_speed t d of
     Some (Inr (t, d)) \<Rightarrow> Some (e, t, d) | _ \<Rightarrow> None)"

definition mm_trace :: "package \<Rightarrow> ('e memory, 'm) os_scheme \<Rightarrow> (nat \<Rightarrow> u32) \<Rightarrow> int \<Rightarrow>
    ('e memory, 'a) bench_scheme \<Rightarrow> (string + stats \<times> ('e memory, 'a) bench_scheme) option" where
  "mm_trace P H nodes i s = do {
     let (e, t, d) = world s;
     let ops' = of_int (sint (num_ops t));
     (v, t, d) \<leftarrow> eval_mm_valid nodes t i d;
     if v = 0
     then Some (Inr (\<lparr>stat_ops = ops', stat_valid = False, stat_secs = 0, stat_util = 0\<rparr>,
            s\<lparr>world := (e, t, d)\<rparr>))
     else do {
       r \<leftarrow> eval_mm_util t d;
       (case r of
          Inl msg \<Rightarrow> Some (Inl msg)
        | Inr (util, t, d) \<Rightarrow> do {
            (secs, s) \<leftarrow> fsecs P H timed_speed (s\<lparr>world := (e, t, d)\<rparr>);
            Some (Inr (\<lparr>stat_ops = ops', stat_valid = True, stat_secs = secs, stat_util = util\<rparr>, s)) }) } }"

text \<open>
  The loop over the trace files; \<open>E i\<close> is what \<open>read_trace\<close> finds for file number \<open>i\<close>. The state
  of the C library, which holds the traces, is the first part of the environment.
\<close>

definition release_trace :: "'h libc \<Rightarrow> trace_store \<Rightarrow> (('h \<times> 'f) memory, 'a) bench_scheme \<Rightarrow>
    (('h \<times> 'f) memory, 'a) bench_scheme option" where
  "release_trace L st s = do {
     let ((h, x), t, d) = world s;
     h \<leftarrow> free_trace L st h;
     Some (s\<lparr>world := ((h, x), t, d)\<rparr>) }"

fun mm_traces :: "'h libc \<Rightarrow> package \<Rightarrow> (('h \<times> 'f) memory, 'm) os_scheme \<Rightarrow> (nat \<Rightarrow> u32) \<Rightarrow>
    (nat \<Rightarrow> surroundings) \<Rightarrow> string \<Rightarrow> nat \<Rightarrow> string list \<Rightarrow> (('h \<times> 'f) memory, 'a) bench_scheme \<Rightarrow>
    (string + stats list \<times> (('h \<times> 'f) memory, 'a) bench_scheme) option" where
  "mm_traces L P H nodes E dir i [] s = Some (Inr ([], s))"
| "mm_traces L P H nodes E dir i (f # fs) s = do {
     let ((h, x), _, d) = world s;
     r \<leftarrow> read_trace L (E i) dir f h;
     (case r of
        Inl msg \<Rightarrow> Some (Inl msg)
      | Inr (t, store, h) \<Rightarrow> do {
          r \<leftarrow> mm_trace P H nodes (int i) (s\<lparr>world := ((h, x), t, d)\<rparr>);
          (case r of
             Inl msg \<Rightarrow> Some (Inl msg)
           | Inr (st, s) \<Rightarrow> do {
               s \<leftarrow> release_trace L store s;
               r \<leftarrow> mm_traces L P H nodes E dir (Suc i) fs s;
               (case r of
                  Inl msg \<Rightarrow> Some (Inl msg)
                | Inr (sts, s) \<Rightarrow> Some (Inr (st # sts, s))) }) }) }"

section \<open>The performance index\<close>

definition UTIL_WEIGHT :: rat where "UTIL_WEIGHT = 60 / 100"
definition AVG_LIBC_THRUPUT :: rat where "AVG_LIBC_THRUPUT = 600000"

definition numcorrect :: "stats list \<Rightarrow> nat" where
  "numcorrect sts = length (filter stat_valid sts)"

text \<open>
  The aggregate and the index. A positive number over zero is infinite, larger than any
  bound; \<open>None\<close> is a quotient of zeros, which is not a number.
\<close>

definition perfindex :: "u32 \<Rightarrow> stats list \<Rightarrow> rat option" where
  "perfindex errors' sts =
     (let secs = sum_list (map stat_secs sts);
          ops' = sum_list (map stat_ops sts);
          util = sum_list (map stat_util sts)
      in if errors' \<noteq> 0 then Some 0
         else if sts = [] \<or> secs = 0 \<and> ops' = 0 then None
         else
           (let avg_mm_util = util / of_nat (length sts);
                p1 = UTIL_WEIGHT * avg_mm_util;
                p2 = (if secs = 0 \<and> ops' > 0 \<or> ops' / secs > AVG_LIBC_THRUPUT then 1 - UTIL_WEIGHT
                      else (1 - UTIL_WEIGHT) * (ops' / secs / AVG_LIBC_THRUPUT))
            in Some ((p1 + p2) * 100)))"

text \<open>The lines of \<open>printresults\<close>; the last column is shown as the pair of its quotient.\<close>

datatype line =
    Valid_line nat rat rat rat "rat \<times> rat"
  | Invalid_line nat
  | Total_line rat rat rat "rat \<times> rat"
  | No_total_line

definition result_line :: "nat \<Rightarrow> stats \<Rightarrow> line" where
  "result_line i st =
     (if stat_valid st
      then Valid_line i (stat_util st * 100) (stat_ops st) (stat_secs st) (stat_ops st / 1000, stat_secs st)
      else Invalid_line i)"

definition printresults :: "u32 \<Rightarrow> stats list \<Rightarrow> line list" where
  "printresults errors' sts =
     (let good = filter stat_valid sts;
          secs = sum_list (map stat_secs good);
          ops' = sum_list (map stat_ops good);
          util = sum_list (map stat_util good)
      in map2 result_line [0..<length sts] sts
         @ [if errors' = 0 then Total_line (util / of_nat (length sts) * 100) ops' secs (ops' / 1000, secs)
            else No_total_line])"

section \<open>What the options select\<close>

lemma check_team_None:
  "check_team T = None \<longleftrightarrow> teamname T \<noteq> '''' \<and> name1 T \<noteq> '''' \<and> id1 T \<noteq> ''''
    \<and> (name2 T = '''' \<longleftrightarrow> id2 T = '''')"
  by (auto simp: check_team_def)

text \<open>The directory always ends with a slash and fits its buffer, whatever the options.\<close>

definition dir_ok :: "options \<Rightarrow> bool" where
  "dir_ok opt \<longleftrightarrow> tracedir opt \<noteq> [] \<and> last (tracedir opt) = CHR ''/'' \<and> length (tracedir opt) < MAXLINE
     \<and> length (chosen_tracefiles opt) > 0"

lemma parse_option_ok:
  assumes "dir_ok opt" "parse_option a opt = Some (Inr opt')"
  shows "dir_ok opt'"
proof -
  obtain c arg where "a = (c, arg)" by (cases a)
  with assms show ?thesis
    by (simp add: parse_option_def dir_ok_def chosen_tracefiles_def MAXLINE_def split: if_splits option.splits)
      auto
qed

lemma parse_options_ok: "dir_ok opt \<Longrightarrow> parse_options as opt = Some (Inr opt') \<Longrightarrow> dir_ok opt'"
proof (induction "as" arbitrary: opt)
  case (Cons a "as")
  then show ?case by (auto split: Option.bind_splits sum.splits dest: parse_option_ok)
qed simp

lemma default_options_ok: "dir_ok default_options"
  by (simp add: dir_ok_def default_options_def chosen_tracefiles_def default_tracefiles_def MAXLINE_def)

section \<open>The range of the index\<close>

lemma sum_list_unit:
  assumes "\<forall>x \<in> set xs. 0 \<le> x \<and> x \<le> (1 :: rat)"
  shows "0 \<le> sum_list xs" "sum_list xs \<le> of_nat (length xs)"
  using assms by (induction xs) auto

lemma perfindex_range:
  assumes u: "\<forall>st \<in> set sts. 0 \<le> stat_util st \<and> stat_util st \<le> 1"
    and o: "\<forall>st \<in> set sts. 0 \<le> stat_ops st \<and> 0 \<le> stat_secs st"
    and x: "perfindex errs sts = Some x"
  shows "0 \<le> x \<and> x \<le> 100"
proof (cases "errs = 0")
  case False
  with x show ?thesis by (simp add: perfindex_def)
next
  case True
  let ?secs = "sum_list (map stat_secs sts)" and ?ops = "sum_list (map stat_ops sts)"
  let ?util = "sum_list (map stat_util sts)" and ?n = "of_nat (length sts) :: rat"
  have util: "0 \<le> ?util" "?util \<le> ?n"
    using sum_list_unit [of "map stat_util sts"] u by auto
  have so: "0 \<le> ?secs" "0 \<le> ?ops" using o by (auto intro!: sum_list_nonneg)
  from x True have ne: "sts \<noteq> []" by (auto simp: perfindex_def Let_def)
  then have "0 < ?n" by simp
  with util have avg: "0 \<le> ?util / ?n" "?util / ?n \<le> 1" by (simp_all add: divide_le_eq)
  let ?t = "?ops / ?secs"
  have t: "0 \<le> ?t" using so by simp
  let ?p2 = "if ?secs = 0 \<and> ?ops > 0 \<or> ?t > AVG_LIBC_THRUPUT then 1 - UTIL_WEIGHT
      else (1 - UTIL_WEIGHT) * (?t / AVG_LIBC_THRUPUT)"
  have p2: "0 \<le> ?p2" "?p2 \<le> 40 / 100"
    using t by (auto simp: UTIL_WEIGHT_def AVG_LIBC_THRUPUT_def)
  have "x = (UTIL_WEIGHT * (?util / ?n) + ?p2) * 100"
    using x True ne by (auto simp: perfindex_def Let_def split: if_splits)
  then show ?thesis using avg p2 by (simp add: UTIL_WEIGHT_def)
qed

section \<open>A whole evaluation\<close>

text \<open>The system's clock calls leave the program and the C library alone.\<close>

definition undisturbed :: "(('h \<times> 'f) memory, 'm) os_scheme \<Rightarrow> bool" where
  "undisturbed H \<longleftrightarrow> (\<forall>w. snd (snd (gettimeofday H w)) = snd w
     \<and> fst (fst (snd (gettimeofday H w))) = fst (fst w))"

text \<open>A run can be repeated any number of times.\<close>

lemma timed_speed_ok:
  assumes "driver_ready N d" "trace_ok N t" "room N t"
  shows "\<exists>t' d'. timed_speed (e, t, d) = Some (e, t', d') \<and> same_trace t t' \<and> driver_ready N d'
    \<and> errors d' = errors d \<and> report d' = report d"
proof -
  obtain q t' u where u: "eval_mm_util t d = Some (Inr (q, t', u))" "same_trace t t'" "driver_ready N u"
      "mm_state.more u = mm_state.more d"
  proof (rule eval_mm_util_room [OF assms])
    fix t' u
    assume "eval_mm_util t d = Some (Inr (of_nat (high_water (unat (num_ids t)) (ops t) (length (ops t)))
        / of_nat (hi u - lo u), t', u))" "same_trace t t'" "driver_ready N u"
      "mm_state.more u = mm_state.more d"
    then show thesis by (rule that)
  qed
  from eval_mm_speed_util [OF u(1)] have
    "timed_speed (e, t, d) = Some (e, t'\<lparr>block_sizes := block_sizes t\<rparr>, u)"
    by (simp add: timed_speed_def)
  moreover have "same_trace t (t'\<lparr>block_sizes := block_sizes t\<rparr>)"
    using u(2) trace_okD(3) [OF assms(2)] by (simp add: same_trace_def)
  ultimately show ?thesis using u(3) driver_fields [OF u(4)] by blast
qed

lemma same_trace_room: "same_trace t u \<Longrightarrow> room N t \<Longrightarrow> room N u"
  by (simp add: same_trace_def room_def)

lemma gettimeofday_undisturbed:
  assumes "undisturbed H" obtains tv x' where "gettimeofday H ((h, x), t, d) = (tv, ((h, x'), t, d))"
proof -
  have "snd (snd (gettimeofday H ((h, x), t, d))) = (t, d)" "fst (fst (snd (gettimeofday H ((h, x), t, d)))) = h"
    using assms by (simp_all add: undisturbed_def)
  then show ?thesis using that by (metis prod.collapse)
qed

lemma same_trace_trans: "same_trace t u \<Longrightarrow> same_trace u v \<Longrightarrow> same_trace t v"
  by (simp add: same_trace_def)

lemma run_times_ok:
  "driver_ready N d \<Longrightarrow> trace_ok N t \<Longrightarrow> room N t \<Longrightarrow>
   \<exists>t' d'. run_times timed_speed n (e, t, d) = Some (e, t', d') \<and> same_trace t t' \<and> driver_ready N d'
     \<and> errors d' = errors d \<and> report d' = report d"
proof (induction n arbitrary: t d)
  case 0
  then show ?case using same_trace_refl by simp
next
  case (Suc n)
  from timed_speed_ok [OF Suc.prems, of e] obtain t1 d1 where 1: "timed_speed (e, t, d) = Some (e, t1, d1)"
    "same_trace t t1" "driver_ready N d1" "errors d1 = errors d" "report d1 = report d" by blast
  from Suc.IH [OF 1(3) same_trace_ok [OF 1(2) Suc.prems(2)] same_trace_room [OF 1(2) Suc.prems(3)]]
  obtain t2 d2 where 2: "run_times timed_speed n (e, t1, d1) = Some (e, t2, d2)" "same_trace t1 t2"
    "driver_ready N d2" "errors d2 = errors d1" "report d2 = report d1" by blast
  have "run_times timed_speed (Suc n) (e, t, d) = Some (e, t2, d2)" using 1(1) 2(1) by simp
  with 1(4,5) 2(3-5) same_trace_trans [OF 1(2) 2(2)] show ?case by auto
qed

lemma ratio_unit: "h \<le> n \<Longrightarrow> 0 < n \<Longrightarrow> 0 \<le> (of_nat h / of_nat n :: rat) \<and> (of_nat h / of_nat n :: rat) \<le> 1"
  by (simp add: divide_le_eq)

text \<open>A clock does not go back, whatever the program does between two readings.\<close>

definition clock_forward :: "('e memory, 'm) os_scheme \<Rightarrow> bool" where
  "clock_forward H \<longleftrightarrow> (\<forall>e t d t' d'. microseconds (fst (gettimeofday H (e, t, d)))
     \<le> microseconds (fst (gettimeofday H (fst (snd (gettimeofday H (e, t, d))), t', d'))))"

lemma clock_forwardD:
  assumes "clock_forward H" "gettimeofday H (e, t, d) = (t0, e0, x)" "gettimeofday H (e0, t', d') = (t1, y)"
  shows "microseconds t0 \<le> microseconds t1"
  using assms unfolding clock_forward_def by (metis fst_conv snd_conv)

lemma fsecs_ok:
  assumes H: "undisturbed H" and s: "world s = ((h, x), t, d)"
    and ok: "driver_ready N d" "trace_ok N t" "room N t"
  shows "\<exists>secs x' t' d'. fsecs config_timer H timed_speed s = Some (secs, s\<lparr>world := ((h, x'), t', d')\<rparr>)
    \<and> driver_ready N d' \<and> errors d' = errors d \<and> (clock_forward H \<longrightarrow> 0 \<le> secs)"
proof -
  obtain t0 x0 where g: "gettimeofday H ((h, x), t, d) = (t0, ((h, x0), t, d))"
    by (rule gettimeofday_undisturbed [OF H])
  from run_times_ok [OF ok, of "nat 10" "(h, x0)"] obtain t1 d1 where
    1: "run_times timed_speed (nat 10) ((h, x0), t, d) = Some ((h, x0), t1, d1)" "driver_ready N d1"
      "errors d1 = errors d" by blast
  obtain t2 x2 where g': "gettimeofday H ((h, x0), t1, d1) = (t2, ((h, x2), t1, d1))"
    by (rule gettimeofday_undisturbed [OF H])
  let ?s = "of_int (microseconds t2 - microseconds t0) / (1000000 * of_int 10) :: rat"
  have "fsecs config_timer H timed_speed s = Some (?s, s\<lparr>world := ((h, x2), t1, d1)\<rparr>)"
    using ftimer_gettod_mean [OF g [folded s] 1(1) g'] by (simp add: fsecs_def config_timer_def)
  moreover have "0 \<le> ?s" if "clock_forward H" using clock_forwardD [OF that g g'] by simp
  ultimately show ?thesis using 1(2,3) by blast
qed

text \<open>
  One trace, timed with \<open>gettimeofday\<close> as configured: the evaluation succeeds. The trace is found
  valid unless the data check misjudges one of its identifiers, with a utilization between 0 and 1;
  otherwise one error is counted.
\<close>

definition misjudges :: "trace \<Rightarrow> bool" where
  "misjudges t \<longleftrightarrow> (\<exists>op \<in> set (ops t). misjudged op)"

definition stats_of :: "('e memory, 'm) os_scheme \<Rightarrow> trace \<Rightarrow> stats \<Rightarrow> bool" where
  "stats_of H t st \<longleftrightarrow> stat_valid st = (\<not> misjudges t) \<and> stat_ops st = of_nat (length (ops t))
     \<and> 0 \<le> stat_util st \<and> stat_util st \<le> 1 \<and> (clock_forward H \<longrightarrow> 0 \<le> stat_secs st)"

lemma mm_trace_judged:
  assumes s: "world s = ((h, x), t, d)" and d: "driver_ready N d"
    and t: "trace_ok N t" "room N t" "\<not> misjudges t" and H: "undisturbed H" and nodes: "\<forall>i. nodes i \<noteq> 0"
  shows "\<exists>st s'. mm_trace config_timer H nodes i s = Some (Inr (st, s')) \<and> stats_of H t st
    \<and> fst (fst (world s')) = h \<and> driver_ready N (snd (snd (world s'))) \<and> errors (snd (snd (world s'))) = errors d"
proof -
  from eval_mm_valid_room [where tn = i, OF d t(1) nodes t(2)] t(3)
  obtain t1 d1 where
    1: "eval_mm_valid nodes t i d = Some (1, t1, d1)" "errors d1 = errors d" "same_trace t t1"
      "driver_ready N d1" by (auto simp: misjudges_def)
  note t1 = same_trace_ok [OF 1(3) t(1)] same_trace_room [OF 1(3) t(2)]
  let ?h = "high_water (unat (num_ids t1)) (ops t1) (length (ops t1))"
  obtain t2 d2 where
    2: "eval_mm_util t1 d1 = Some (Inr (of_nat ?h / of_nat (hi d2 - lo d2), t2, d2))"
      "?h \<le> hi d2 - lo d2" "lo d2 + 4240 \<le> hi d2" "same_trace t1 t2" "driver_ready N d2"
      "mm_state.more d2 = mm_state.more d1"
    using eval_mm_util_room [OF 1(4) t1] that by metis
  note t2 = same_trace_ok [OF 2(4) t1(1)] same_trace_room [OF 2(4) t1(2)]
  have w: "world (s\<lparr>world := ((h, x), t2, d2)\<rparr>) = ((h, x), t2, d2)" by simp
  from fsecs_ok [OF H w 2(5) t2] obtain secs x3 t3 d3 where
    3: "fsecs config_timer H timed_speed (s\<lparr>world := ((h, x), t2, d2)\<rparr>)
        = Some (secs, s\<lparr>world := ((h, x3), t3, d3)\<rparr>)"
      "driver_ready N d3" "errors d3 = errors d2" "clock_forward H \<longrightarrow> 0 \<le> secs"
    by auto
  let ?u = "of_nat ?h / of_nat (hi d2 - lo d2) :: rat"
  let ?st = "\<lparr>stat_ops = of_int (sint (num_ops t)), stat_valid = True, stat_secs = secs, stat_util = ?u\<rparr>"
  have "mm_trace config_timer H nodes i s = Some (Inr (?st, s\<lparr>world := ((h, x3), t3, d3)\<rparr>))"
    using s 1(1) 2(1) 3(1) by (simp add: mm_trace_def Let_def)
  moreover have "stat_ops ?st = of_nat (length (ops t))" using t(1) by (simp add: trace_ok_def)
  moreover have "0 \<le> ?u" "?u \<le> 1" using ratio_unit [OF 2(2)] 2(3) by simp_all
  moreover have "errors d3 = errors d" using 3(3) driver_fields(1) [OF 2(6)] 1(2) by simp
  ultimately show ?thesis using 3(2,4) t(3)
    by (intro exI [of _ ?st] exI [of _ "s\<lparr>world := ((h, x3), t3, d3)\<rparr>"]) (simp add: stats_of_def)
qed

lemma mm_trace_misjudged:
  assumes s: "world s = ((h, x), t, d)" and d: "driver_ready N d"
    and t: "trace_ok N t" "room N t" "misjudges t" and nodes: "\<forall>i. nodes i \<noteq> 0"
  shows "\<exists>st s'. mm_trace P H nodes i s = Some (Inr (st, s')) \<and> stats_of H' t st
    \<and> fst (fst (world s')) = h \<and> driver_ready N (snd (snd (world s'))) \<and> errors (snd (snd (world s'))) = errors d + 1"
proof -
  from eval_mm_valid_room [where tn = i, OF d t(1) nodes t(2)] t(3)
  obtain t1 d1 where 1: "eval_mm_valid nodes t i d = Some (0, t1, d1)" "errors d1 = errors d + 1"
      "driver_ready N d1" by (auto simp: misjudges_def split: if_splits)
  let ?st = "\<lparr>stat_ops = of_int (sint (num_ops t)), stat_valid = False, stat_secs = 0, stat_util = 0\<rparr>"
  have "mm_trace P H nodes i s = Some (Inr (?st, s\<lparr>world := ((h, x), t1, d1)\<rparr>))"
    using s 1(1) by (simp add: mm_trace_def Let_def)
  moreover have "stats_of H' t ?st" using t(1,3) by (simp add: stats_of_def trace_ok_def)
  ultimately show ?thesis using 1(2,3)
    by (intro exI [of _ ?st] exI [of _ "s\<lparr>world := ((h, x), t1, d1)\<rparr>"]) simp
qed

lemma mm_trace_ok:
  assumes "undisturbed H" "world s = ((h, x), t, d)" "driver_ready N d" "trace_ok N t" "room N t"
    "\<forall>i. nodes i \<noteq> 0"
  shows "\<exists>st s'. mm_trace config_timer H nodes i s = Some (Inr (st, s')) \<and> stats_of H t st
    \<and> fst (fst (world s')) = h \<and> driver_ready N (snd (snd (world s')))
    \<and> errors (snd (snd (world s'))) = errors d + (if misjudges t then 1 else 0)"
proof (cases "misjudges t")
  case True
  from mm_trace_misjudged [where nodes = nodes, OF assms(2-5) True assms(6), of config_timer H i H] True
  show ?thesis by simp
next
  case False
  from mm_trace_judged [where nodes = nodes, OF assms(2-5) False assms(1,6), of i] False
  show ?thesis by simp
qed

text \<open>
  Files that hold well-formed traces with room in the storage; good ones have no identifier that
  the data check misjudges.
\<close>

definition fit_trace :: "nat \<Rightarrow> trace \<Rightarrow> bool" where
  "fit_trace N t \<longleftrightarrow> header_ok t \<and> trace_ok N t \<and> highest (ops t) 0 = num_ids t - 1 \<and> room N t"

fun fit_files :: "nat \<Rightarrow> (nat \<Rightarrow> surroundings) \<Rightarrow> string \<Rightarrow> nat \<Rightarrow> string list \<Rightarrow> trace list \<Rightarrow> bool" where
  "fit_files N E dir i (f # fs) (t # ts) \<longleftrightarrow>
     fit_trace N t \<and> serves (E i) (dir @ f) (print_trace t) \<and> fit_files N E dir (Suc i) fs ts"
| "fit_files N E dir i fs ts \<longleftrightarrow> fs = [] \<and> ts = []"

definition good_files :: "nat \<Rightarrow> (nat \<Rightarrow> surroundings) \<Rightarrow> string \<Rightarrow> nat \<Rightarrow> string list \<Rightarrow> trace list \<Rightarrow> bool" where
  "good_files N E dir i fs ts \<longleftrightarrow> fit_files N E dir i fs ts \<and> (\<forall>t \<in> set ts. \<not> misjudges t)"

lemma misjudges_same:
  assumes "list_all2 same_request xs (ops u)" "xs = ops t"
  shows "misjudges u \<longleftrightarrow> misjudges t"
proof -
  have "list_all2 (\<lambda>x y. misjudged x = misjudged y) (ops t) (ops u)"
    using assms by (auto elim!: list_all2_mono simp: same_request_def misjudged_def)
  then show ?thesis unfolding misjudges_def by (induction rule: list_all2_induct) auto
qed

text \<open>
  A library that has the memory for the requests and for the storage of the traces. Each trace
  takes four calls of \<open>malloc\<close> and four of \<open>free\<close>.
\<close>

definition library_ready :: "nat \<Rightarrow> nat \<Rightarrow> 'h libc \<Rightarrow> (nat \<Rightarrow> 'h \<Rightarrow> (nat \<rightharpoonup> nat) \<Rightarrow> bool) \<Rightarrow> trace list \<Rightarrow> bool" where
  "library_ready N M L rep ts \<longleftrightarrow> libc_serves M L rep \<and> N \<le> M \<and> (\<forall>t \<in> set ts. storable M (num_ops t) (num_ids t))"

lemma read_fit_trace:
  assumes t: "fit_trace N t" and E: "serves E (dir @ f) (print_trace t)"
    and L: "library_ready N M L rep (t # ts)" "rep (K + 4) h m"
  shows "\<exists>u st h' m'. read_trace L E dir f h = Some (Inr (u, st, h')) \<and> rep K h' m' \<and> held st m'
    \<and> trace_ok N u \<and> room N u \<and> misjudges u = misjudges t \<and> length (ops u) = length (ops t)"
proof -
  have g: "header_ok t" "trace_ok N t" "highest (ops t) 0 = num_ids t - 1" "room N t"
    using t by (simp_all add: fit_trace_def)
  have "unat (num_ops t) < 2147483648" using g(1) by (simp add: header_ok_def)
  then have "sint (num_ops t) = int (unat (num_ops t))" using sint_w32 [of "unat (num_ops t)"] by simp
  then have n: "length (ops t) = unat (num_ops t)" using g(2) unfolding trace_ok_def by linarith
  have "libc_serves M L rep" "storable M (num_ops t) (num_ids t)" using L(1) by (simp_all add: library_ready_def)
  from alloc_trace_served [where rep = rep, OF this(1) L(2) this(2)] obtain st h' m' where
    a: "alloc_trace L (num_ops t) (num_ids t) h = Some (Inr (st, h'))" "rep K h' m'" "held st m'" by blast
  from read_trace_print [OF g(1) n g(3) E a(1)] obtain u where u: "read_trace L E dir f h = Some (Inr (u, st, h'))"
    "num_ids u = num_ids t" "num_ops u = num_ops t" "list_all2 same_request (ops t) (ops u)"
    "length (blocks u) = unat (num_ids t)" "length (block_sizes u) = unat (num_ids t)" by blast
  have len: "length (ops u) = length (ops t)" using u(4) by (simp add: list_all2_lengthD)
  have "room N u" using g(4) len by (simp add: room_def)
  then show ?thesis
    using u(1) a(2,3) trace_ok_same [OF g(2) u(2-6)] misjudges_same [OF u(4) refl] len by blast
qed

lemma release_trace_served:
  assumes "library_ready N M L rep ts" "rep (K + 4) (fst (fst (world s))) m" "held st m"
  shows "\<exists>s' m'. release_trace L st s = Some s' \<and> rep K (fst (fst (world s'))) m'
    \<and> snd (snd (world s')) = snd (snd (world s))"
proof -
  obtain h x t d where w: "world s = ((h, x), t, d)" by (metis prod.collapse)
  have "libc_serves M L rep" "rep (K + 4) h m" using assms(1,2) w by (simp_all add: library_ready_def)
  from free_trace_served [where rep = rep, OF this assms(3)] show ?thesis
    by (fastforce simp: release_trace_def w)
qed

lemma stats_of_same:
  "stats_of H u st \<Longrightarrow> misjudges u = misjudges t \<Longrightarrow> length (ops u) = length (ops t) \<Longrightarrow> stats_of H t st"
  by (simp add: stats_of_def)

lemma mm_traces_stats:
  assumes H: "undisturbed H" and nodes: "\<forall>i. nodes i \<noteq> 0"
  shows "fit_files N E dir i fs ts \<Longrightarrow> driver_ready N (snd (snd (world s))) \<Longrightarrow>
    library_ready N M L rep ts \<Longrightarrow> rep (K + 8 * length ts) (fst (fst (world s))) m \<Longrightarrow>
    \<exists>sts s' m'. mm_traces L config_timer H nodes E dir i fs s = Some (Inr (sts, s'))
      \<and> length sts = length fs \<and> list_all2 (stats_of H) ts sts
      \<and> errors (snd (snd (world s'))) = errors (snd (snd (world s))) + of_nat (length (filter misjudges ts))
      \<and> rep K (fst (fst (world s'))) m'"
proof (induction N E dir i fs ts arbitrary: s m rule: fit_files.induct)
  case (1 N E dir i f fs t ts)
  obtain h x t0 d where w: "world s = ((h, x), t0, d)" by (metis prod.collapse)
  with "1.prems"(2) have d: "driver_ready N d" by simp
  from "1.prems"(1) have g: "fit_trace N t" "serves (E i) (dir @ f) (print_trace t)" "fit_files N E dir (Suc i) fs ts"
    by simp_all
  have L: "library_ready N M L rep ts" using "1.prems"(3) by (simp add: library_ready_def)
  let ?K = "K + 8 * length ts"
  have "rep ((?K + 4) + 4) h m" using "1.prems"(4) w by (simp add: ac_simps)
  from read_fit_trace [where rep = rep, OF g(1,2) "1.prems"(3) this] obtain u store h1 m1 where
    u: "read_trace L (E i) dir f h = Some (Inr (u, store, h1))" "rep (?K + 4) h1 m1" "held store m1"
      "trace_ok N u" "room N u" "misjudges u = misjudges t" "length (ops u) = length (ops t)" by blast
  have "world (s\<lparr>world := ((h1, x), u, d)\<rparr>) = ((h1, x), u, d)" by simp
  from mm_trace_ok [OF H this d u(4,5) nodes, of "int i"] obtain st s1 where
    1: "mm_trace config_timer H nodes (int i) (s\<lparr>world := ((h1, x), u, d)\<rparr>) = Some (Inr (st, s1))"
      "stats_of H u st" "fst (fst (world s1)) = h1" "driver_ready N (snd (snd (world s1)))"
      "errors (snd (snd (world s1))) = errors d + (if misjudges t then 1 else 0)"
    by (auto simp: u(6))
  from release_trace_served [where rep = rep, OF L u(2) [folded 1(3)] u(3)] obtain s2 m2 where
    2: "release_trace L store s1 = Some s2" "rep ?K (fst (fst (world s2))) m2"
      "snd (snd (world s2)) = snd (snd (world s1))" by blast
  from "1.IH" [OF g(3) 1(4) [folded 2(3)] L 2(2)] obtain sts s' m' where
    3: "mm_traces L config_timer H nodes E dir (Suc i) fs s2 = Some (Inr (sts, s'))"
      "length sts = length fs" "list_all2 (stats_of H) ts sts"
      "errors (snd (snd (world s'))) = errors (snd (snd (world s2))) + of_nat (length (filter misjudges ts))"
      "rep K (fst (fst (world s'))) m'" by blast
  have "mm_traces L config_timer H nodes E dir i (f # fs) s = Some (Inr (st # sts, s'))"
    using u(1) w 1(1) 2(1) 3(1) by simp
  moreover have "errors (snd (snd (world s')))
      = errors (snd (snd (world s))) + of_nat (length (filter misjudges (t # ts)))"
    using 3(4) 2(3) 1(5) w by simp
  ultimately show ?case using 3(2,3,5) stats_of_same [OF 1(2) u(6,7)]
    by (intro exI [of _ "st # sts"] exI [of _ s'] exI [of _ m']) simp
qed auto

definition good_stats :: "stats \<Rightarrow> bool" where
  "good_stats st \<longleftrightarrow> stat_valid st \<and> 0 \<le> stat_ops st \<and> 0 \<le> stat_util st \<and> stat_util st \<le> 1"

lemma stats_of_good:
  "list_all2 (stats_of H) ts sts \<Longrightarrow> \<forall>t \<in> set ts. \<not> misjudges t \<Longrightarrow> \<forall>st \<in> set sts. good_stats st"
  by (induction rule: list_all2_induct) (simp_all add: stats_of_def good_stats_def)

lemma mm_traces_ok:
  assumes "undisturbed H" "\<forall>i. nodes i \<noteq> 0" "good_files N E dir i fs ts"
    "driver_ready N (snd (snd (world s)))" "library_ready N M L rep ts"
    "rep (K + 8 * length ts) (fst (fst (world s))) m"
  shows "\<exists>sts s' m'. mm_traces L config_timer H nodes E dir i fs s = Some (Inr (sts, s'))
      \<and> length sts = length fs \<and> (\<forall>st \<in> set sts. good_stats st)
      \<and> errors (snd (snd (world s'))) = errors (snd (snd (world s))) \<and> rep K (fst (fst (world s'))) m'"
proof -
  have f: "fit_files N E dir i fs ts" "\<forall>t \<in> set ts. \<not> misjudges t" using assms(3) by (simp_all add: good_files_def)
  then have "filter misjudges ts = []" by (simp add: filter_empty_conv)
  with mm_traces_stats [where rep = rep, OF assms(1,2) f(1) assms(4-6)] stats_of_good [OF _ f(2)] show ?thesis by fastforce
qed

end
