(* ===== verification/Eval_Libc.thy ===== *)
theory Eval_Libc
  imports Eval_Speed Read_Trace
begin

text \<open>
  The evaluation of the C library's allocator in \<^verbatim>\<open>mdriver.c\<close>: \<open>eval_libc_valid\<close> and
  \<open>eval_libc_speed\<close>. The library is not part of the program: its calls are a parameter, with a
  state of their own, and what the driver relies on is stated of them.
\<close>

section \<open>The code\<close>

definition libc_valid_op :: "'h libc \<Rightarrow> int \<Rightarrow> nat \<Rightarrow> trace \<times> 'h \<times> 'a driver_scheme \<Rightarrow>
    (string option \<times> trace \<times> 'h \<times> 'a driver_scheme) option" where
  "libc_valid_op L tracenum i = (\<lambda>(t, h, s). do {
     op \<leftarrow> op_at t i;
     (case op_type op of
        ALLOC \<Rightarrow> do {
          (p, h) \<leftarrow> malloc L (op_size op) h;
          if p = 0
          then Some (Some ''System message'', t, h,
                 malloc_error tracenum (int i) (Message ''libc malloc failed'') s)
          else do { t \<leftarrow> set_block (op_index op) p t; Some (None, t, h, s) } }
      | REALLOC \<Rightarrow> do {
          oldp \<leftarrow> read_at (blocks t) (op_index op);
          (newp, h) \<leftarrow> realloc L oldp (op_size op) h;
          if newp = 0
          then Some (Some ''System message'', t, h,
                 malloc_error tracenum (int i) (Message ''libc realloc failed'') s)
          else do { t \<leftarrow> set_block (op_index op) newp t; Some (None, t, h, s) } }
      | FREE \<Rightarrow> do {
          p \<leftarrow> read_at (blocks t) (op_index op);
          h \<leftarrow> free' L p h;
          Some (None, t, h, s) }) })"

definition eval_libc_valid :: "'h libc \<Rightarrow> trace \<Rightarrow> int \<Rightarrow> 'h \<Rightarrow> 'a driver_scheme \<Rightarrow>
    (string \<times> 'a driver_scheme + int \<times> trace \<times> 'h \<times> 'a driver_scheme) option" where
  "eval_libc_valid L t tracenum h s = do {
     (v, t, h, s) \<leftarrow> for_each (libc_valid_op L tracenum) (op_numbers t) (t, h, s);
     (case v of Some msg \<Rightarrow> Some (Inl (msg, s)) | None \<Rightarrow> Some (Inr (1, t, h, s))) }"

definition libc_speed_op :: "'h libc \<Rightarrow> nat \<Rightarrow> trace \<times> 'h \<Rightarrow> (string option \<times> trace \<times> 'h) option" where
  "libc_speed_op L i = (\<lambda>(t, h). do {
     op \<leftarrow> op_at t i;
     (case op_type op of
        ALLOC \<Rightarrow> do {
          (p, h) \<leftarrow> malloc L (op_size op) h;
          if p = 0 then Some (Some ''malloc failed in eval_libc_speed'', t, h)
          else do { t \<leftarrow> set_block (op_index op) p t; Some (None, t, h) } }
      | REALLOC \<Rightarrow> do {
          oldp \<leftarrow> read_at (blocks t) (op_index op);
          (newp, h) \<leftarrow> realloc L oldp (op_size op) h;
          if newp = 0 then Some (Some (''realloc failed in eval_libc_speed'' @ [CHR 0x0A]), t, h)
          else do { t \<leftarrow> set_block (op_index op) newp t; Some (None, t, h) } }
      | FREE \<Rightarrow> do {
          block \<leftarrow> read_at (blocks t) (op_index op);
          h \<leftarrow> free' L block h;
          Some (None, t, h) }) })"

definition eval_libc_speed :: "'h libc \<Rightarrow> trace \<Rightarrow> 'h \<Rightarrow> (string + trace \<times> 'h) option" where
  "eval_libc_speed L t h = do {
     (v, th) \<leftarrow> for_each (libc_speed_op L) (op_numbers t) (t, h);
     (case v of Some msg \<Rightarrow> Some (Inl msg) | None \<Rightarrow> Some (Inr th)) }"

section \<open>The pointers the driver keeps\<close>

text \<open>
  The pointers the driver keeps are live blocks of the library, apart from the set \<open>F\<close> of blocks
  that were live before: earlier runs do not release all they allocate.
\<close>

definition addresses :: "(nat \<rightharpoonup> nat \<times> nat) \<Rightarrow> nat set" where
  "addresses A = fst ` ran A"

lemma in_addresses: "a \<in> addresses A \<longleftrightarrow> (\<exists>ix n. A ix = Some (a, n))"
  by (force simp: addresses_def ran_def)

lemma addresses_add: "B ix = None \<Longrightarrow> addresses (B(ix \<mapsto> (b, n))) = insert b (addresses B)"
  by (simp add: addresses_def)

lemma addresses_remove:
  assumes "tracked Q A bs C" "A ix = Some (a, n)"
  shows "addresses (A(ix := None)) = addresses A - {a}"
proof (rule set_eqI)
  fix b
  have one: "A ix' = Some (a, n') \<longleftrightarrow> ix' = ix \<and> n' = n" for ix' n'
    using assms unfolding tracked_def by (metis option.inject prod.inject)
  show "b \<in> addresses (A(ix := None)) \<longleftrightarrow> b \<in> addresses A - {a}"
  proof (cases "b = a")
    case True
    then show ?thesis using one by (simp add: in_addresses)
  next
    case False
    then have "(\<exists>n. (A(ix := None)) ix' = Some (b, n)) \<longleftrightarrow> (\<exists>n. A ix' = Some (b, n))" for ix'
      using assms(2) by simp
    then show ?thesis using False by (simp only: in_addresses Diff_iff singleton_iff) blast
  qed
qed

definition libc_inv :: "('h \<Rightarrow> (nat \<rightharpoonup> nat) \<Rightarrow> bool) \<Rightarrow> nat set \<Rightarrow> trace \<Rightarrow> nat \<Rightarrow> trace \<Rightarrow> 'h \<Rightarrow> bool" where
  "libc_inv rep F t k t' h \<longleftrightarrow> (\<exists>A C m. rep h m \<and> dom m = F \<union> dom C \<and> F \<inter> dom C = {}
     \<and> tracked (\<lambda>_ _. True) A (blocks t') C \<and> sizes_of A = sizes_after (take k (ops t))
     \<and> dom C = addresses A \<and> same_trace t t')"

lemma libc_invE:
  assumes "libc_inv rep F t k t' h"
  obtains A C m where "rep h m" "dom m = F \<union> dom C" "F \<inter> dom C = {}"
    "tracked (\<lambda>_ _. True) A (blocks t') C" "sizes_of A = sizes_after (take k (ops t))"
    "same_trace t t'" "dom C = addresses A"
  using assms unfolding libc_inv_def by blast

text \<open>A pointer the library returned is entered under its identifier.\<close>

lemma libc_inv_new:
  assumes ok: "trace_ok N t" and k: "k < length (ops t)" and op: "op = ops t ! k" and t': "same_trace t t'"
    and B: "tracked (\<lambda>_ _. True) B (blocks t') D" "B (unat (op_index op)) = None"
      "sizes_of (B(unat (op_index op) \<mapsto> (b, unat (op_size op)))) = next_sizes op (sizes_after (take k (ops t)))"
    and m: "rep h m" "dom m = insert b (F \<union> dom D)" "F \<inter> dom D = {}" "b \<notin> F" "D b = None" "dom D = addresses B"
  shows "\<exists>u. set_block (op_index op) (w32 b) t' = Some u \<and> libc_inv rep F t (Suc k) u h"
proof -
  let ?ix = "unat (op_index op)" and ?n = "unat (op_size op)"
  have ix: "?ix < length (blocks t')" using trace_okD(4) [OF ok k] t' by (simp add: op same_trace_def)
  let ?u = "t'\<lparr>blocks := (blocks t')[?ix := w32 b]\<rparr>" and ?D = "D(b \<mapsto> replicate ?n 0)"
  have "tracked (\<lambda>_ _. True) (B(?ix \<mapsto> (b, ?n))) (blocks ?u) ?D"
    using tracked_add [OF B(1) m(5) ix B(2), of "replicate ?n 0" ?n] by simp
  moreover have "sizes_of (B(?ix \<mapsto> (b, ?n))) = sizes_after (take (Suc k) (ops t))"
    using B(3) sizes_after_step [OF k] by (simp add: op)
  moreover have "dom m = F \<union> dom ?D" "F \<inter> dom ?D = {}" using m(2-4) by auto
  moreover have "dom ?D = addresses (B(?ix \<mapsto> (b, ?n)))" using m(6) B(2) addresses_add by simp
  moreover have "same_trace t ?u" using t' by (simp add: same_trace_def)
  ultimately have "libc_inv rep F t (Suc k) ?u h" unfolding libc_inv_def using m(1) by blast
  then show ?thesis using ix by (simp add: set_block_def write_at_def)
qed

text \<open>An identifier in use names a live block.\<close>

lemma libc_live:
  assumes "dom m = F \<union> dom C" "tracked Q A bs C" "sizes_of A = S" "ix \<in> dom S"
  obtains a n c where "A ix = Some (a, n)" "m a = Some c" "a \<in> dom C"
proof -
  from assms(3,4) obtain n a where a: "A ix = Some (a, n)" using sizes_ofE by (metis domD)
  with assms(2) have "a \<in> dom C" by (metis trackedD domI)
  with assms(1) a show ?thesis using that by blast
qed

section \<open>One request\<close>

lemma libc_op_at: "libc_inv rep F t k t' h \<Longrightarrow> k < length (ops t) \<Longrightarrow> op_at t' k = Some (ops t ! k)"
  by (auto simp: libc_inv_def op_at_def same_trace_def)

lemma libc_alloc_step:
  assumes L: "libc_call may N L R R'" and ok: "trace_ok N t" and k: "k < length (ops t)"
    and I: "libc_inv R F t k t' h" and op: "op = ops t ! k" "op_type op = ALLOC"
  shows "\<exists>r h'. malloc L (op_size op) h = Some (r, h') \<and> (r = 0 \<longrightarrow> may)
      \<and> (r \<noteq> 0 \<longrightarrow> (\<exists>u. set_block (op_index op) r t' = Some u \<and> libc_inv R' F t (Suc k) u h'))"
proof -
  from I obtain A C m where A: "R h m" "dom m = F \<union> dom C" "F \<inter> dom C = {}"
    "tracked (\<lambda>_ _. True) A (blocks t') C" "sizes_of A = sizes_after (take k (ops t))"
    "same_trace t t'" "dom C = addresses A" by (rule libc_invE)
  have n: "0 < unat (op_size op)" "unat (op_size op) \<le> N" "unat (op_index op) \<notin> dom (sizes_of A)"
    using trace_okD(5) [OF ok k] op A(5) by (auto simp: request_ok_def)
  have A0: "A (unat (op_index op)) = None" using n(3) by (metis dom_sizes_of domIff)
  obtain r h' where r: "malloc L (op_size op) h = Some (r, h')" "r = 0 \<longrightarrow> may"
    "r \<noteq> 0 \<longrightarrow> (\<exists>a c. r = w32 a \<and> m a = None \<and> R' h' (m(a \<mapsto> c)))"
    by (rule libc_mallocE [OF L A(1) n(1,2)])
  have "\<exists>u. set_block (op_index op) r t' = Some u \<and> libc_inv R' F t (Suc k) u h'" if "r \<noteq> 0"
  proof -
    from r(3) that obtain a c where a: "r = w32 a" "m a = None" "R' h' (m(a \<mapsto> c))" by blast
    then have "a \<notin> F \<union> dom C" using A(2) by (metis domIff)
    then show ?thesis unfolding a(1) using A0 A(2,5) op(2)
      by (intro libc_inv_new [where rep = R' and h = h' and m = "m(a \<mapsto> c)",
        OF ok k op(1) A(6,4) _ _ a(3) _ A(3) _ _ A(7)]) (auto simp: next_sizes_def)
  qed
  with r(1,2) show ?thesis by blast
qed

lemma libc_realloc_step:
  assumes L: "libc_call may N L R R'" and ok: "trace_ok N t" and k: "k < length (ops t)"
    and I: "libc_inv R F t k t' h" and op: "op = ops t ! k" "op_type op = REALLOC"
  shows "\<exists>p r h'. read_at (blocks t') (op_index op) = Some p \<and> realloc L p (op_size op) h = Some (r, h')
      \<and> (r = 0 \<longrightarrow> may)
      \<and> (r \<noteq> 0 \<longrightarrow> (\<exists>u. set_block (op_index op) r t' = Some u \<and> libc_inv R' F t (Suc k) u h'))"
proof -
  from I obtain A C m where A: "R h m" "dom m = F \<union> dom C" "F \<inter> dom C = {}"
    "tracked (\<lambda>_ _. True) A (blocks t') C" "sizes_of A = sizes_after (take k (ops t))"
    "same_trace t t'" "dom C = addresses A" by (rule libc_invE)
  have n: "0 < unat (op_size op)" "unat (op_size op) \<le> N" "unat (op_index op) \<in> dom (sizes_after (take k (ops t)))"
    using trace_okD(5) [OF ok k] op by (auto simp: request_ok_def)
  from libc_live [OF A(2,4,5) n(3)] obtain a n0 c where
    a: "A (unat (op_index op)) = Some (a, n0)" "m a = Some c" "a \<in> dom C" by blast
  obtain r h' where r: "realloc L (w32 a) (op_size op) h = Some (r, h')" "r = 0 \<longrightarrow> may"
    "r \<noteq> 0 \<longrightarrow> (\<exists>b d. r = w32 b \<and> (m(a := None)) b = None \<and> R' h' ((m(a := None))(b \<mapsto> d)))"
    by (rule libc_reallocE [OF L A(1) a(2) n(1,2)])
  have "\<exists>u. set_block (op_index op) r t' = Some u \<and> libc_inv R' F t (Suc k) u h'" if "r \<noteq> 0"
  proof -
    from r(3) that obtain b d where b: "r = w32 b" "(m(a := None)) b = None"
      "R' h' ((m(a := None))(b \<mapsto> d))" by blast
    have F: "F \<union> dom (C(a := None)) = dom (m(a := None))" using A(2,3) a(3) by auto
    then have "b \<notin> F \<union> dom (C(a := None))" using b(2) by (metis domIff)
    moreover have "dom ((m(a := None))(b \<mapsto> d)) = insert b (F \<union> dom (C(a := None)))"
      unfolding F by simp
    moreover have "F \<inter> dom (C(a := None)) = {}" using A(3) by auto
    moreover have "dom (C(a := None)) = addresses (A(unat (op_index op) := None))"
      using addresses_remove [OF A(4) a(1)] A(7) by auto
    ultimately show ?thesis unfolding b(1) using op(2) A(5)
      by (intro libc_inv_new [where rep = R' and h = h' and m = "(m(a := None))(b \<mapsto> d)",
        OF ok k op(1) A(6) tracked_remove [OF A(4) a(1)] _ _ b(3)])
        (auto simp: next_sizes_def simp del: dom_fun_upd)
  qed
  with r(1,2) tracked_read [OF A(4) a(1)] show ?thesis by blast
qed

lemma libc_free_step:
  assumes L: "libc_call may N L R R'" and ok: "trace_ok N t" and k: "k < length (ops t)"
    and I: "libc_inv R F t k t' h" and op: "op = ops t ! k" "op_type op = FREE"
  shows "\<exists>p h'. read_at (blocks t') (op_index op) = Some p \<and> free' L p h = Some h'
      \<and> libc_inv R' F t (Suc k) t' h'"
proof -
  from I obtain A C m where A: "R h m" "dom m = F \<union> dom C" "F \<inter> dom C = {}"
    "tracked (\<lambda>_ _. True) A (blocks t') C" "sizes_of A = sizes_after (take k (ops t))"
    "same_trace t t'" "dom C = addresses A" by (rule libc_invE)
  let ?ix = "unat (op_index op)"
  have "?ix \<in> dom (sizes_after (take k (ops t)))"
    using trace_okD(5) [OF ok k] op by (auto simp: request_ok_def)
  from libc_live [OF A(2,4,5) this] obtain a n0 c where
    a: "A ?ix = Some (a, n0)" "m a = Some c" "a \<in> dom C" by blast
  obtain h' where h': "free' L (w32 a) h = Some h'" "R' h' (m(a := None))"
    by (rule libc_freeE [OF L A(1) domI, OF a(2)])
  have "sizes_of (A(?ix := None)) = sizes_after (take (Suc k) (ops t))"
    using sizes_after_step [OF k] A(5) op by (simp add: next_sizes_def)
  moreover have "dom (m(a := None)) = F \<union> dom (C(a := None))" "F \<inter> dom (C(a := None)) = {}"
    using A(2,3) a(3) by auto
  moreover have "dom (C(a := None)) = addresses (A(?ix := None))"
    using addresses_remove [OF A(4) a(1)] A(7) by auto
  ultimately have "libc_inv R' F t (Suc k) t' h'"
    unfolding libc_inv_def using h'(2) tracked_remove [OF A(4) a(1)] A(6) by blast
  with h'(1) tracked_read [OF A(4) a(1)] show ?thesis by blast
qed

definition libc_failed :: "int \<Rightarrow> nat \<Rightarrow> 'a driver_scheme \<Rightarrow> 'a driver_scheme \<Rightarrow> bool" where
  "libc_failed tn n s s' \<longleftrightarrow> (\<exists>i < n. \<exists>text \<in> {''libc malloc failed'', ''libc realloc failed''}.
     s' = malloc_error tn (int i) (Message text) s)"

lemma libc_failedI:
  "i < n \<Longrightarrow> libc_failed tn n s (malloc_error tn (int i) (Message ''libc malloc failed'') s)"
  "i < n \<Longrightarrow> libc_failed tn n s (malloc_error tn (int i) (Message ''libc realloc failed'') s)"
  by (auto simp: libc_failed_def)

lemma libc_valid_op_step:
  assumes L: "libc_call may N L R R'" and ok: "trace_ok N t" and k: "k < length (ops t)"
    and I: "libc_inv R F t k t' h"
  shows "(\<exists>u h'. libc_valid_op L tn k (t', h, s) = Some (None, u, h', s) \<and> libc_inv R' F t (Suc k) u h')
    \<or> may \<and> (\<exists>u h' s'. libc_valid_op L tn k (t', h, s) = Some (Some ''System message'', u, h', s')
        \<and> libc_failed tn (length (ops t)) s s')"
proof (cases "op_type (ops t ! k)")
  case ALLOC
  with libc_alloc_step [OF L ok k I refl] obtain r h' where r: "malloc L (op_size (ops t ! k)) h = Some (r, h')"
    "r = 0 \<longrightarrow> may"
    "r \<noteq> 0 \<longrightarrow> (\<exists>u. set_block (op_index (ops t ! k)) r t' = Some u \<and> libc_inv R' F t (Suc k) u h')"
    by blast
  then show ?thesis using ALLOC libc_op_at [OF I k]
    by (cases "r = 0") (auto simp: libc_valid_op_def libc_failedI [OF k])
next
  case REALLOC
  with libc_realloc_step [OF L ok k I refl] obtain p r h' where r: "read_at (blocks t') (op_index (ops t ! k)) = Some p"
    "realloc L p (op_size (ops t ! k)) h = Some (r, h')" "r = 0 \<longrightarrow> may"
    "r \<noteq> 0 \<longrightarrow> (\<exists>u. set_block (op_index (ops t ! k)) r t' = Some u \<and> libc_inv R' F t (Suc k) u h')"
    by blast
  then show ?thesis using REALLOC libc_op_at [OF I k]
    by (cases "r = 0") (auto simp: libc_valid_op_def libc_failedI [OF k])
next
  case FREE
  with libc_free_step [OF L ok k I refl] libc_op_at [OF I k] show ?thesis
    by (auto simp: libc_valid_op_def)
qed

section \<open>The whole trace\<close>

text \<open>
  On a well-formed trace the library is never asked to release or resize a pointer that is not
  live, so the run is defined; it ends at a failed call, reported, or returns 1.
\<close>

lemma libc_run:
  assumes L: "\<And>k. k < length (ops t) \<Longrightarrow> libc_call may N L (R k) (R (Suc k))" and ok: "trace_ok N t"
    and h: "R 0 h m"
  shows "(\<exists>t' h'. eval_libc_valid L t tn h s = Some (Inr (1, t', h', s))
        \<and> libc_inv (R (length (ops t))) (dom m) t (length (ops t)) t' h')
    \<or> may \<and> (\<exists>s'. eval_libc_valid L t tn h s = Some (Inl (''System message'', s'))
        \<and> libc_failed tn (length (ops t)) s s')"
proof -
  let ?n = "length (ops t)" and ?f = "libc_valid_op L tn"
  let ?I = "\<lambda>k ts. case ts of (t', h', s') \<Rightarrow> libc_inv (R k) (dom m) t k t' h' \<and> s' = s"
  let ?E = "\<lambda>v ts. case ts of (t', h', s') \<Rightarrow> may \<and> v = ''System message'' \<and> libc_failed tn ?n s s'"
  have start: "libc_inv (R 0) (dom m) t 0 t h"
    using h same_trace_refl [OF ok]
    by (auto simp: libc_inv_def addresses_def intro!: exI [of _ Map.empty] exI [of _ m])
  have "for_each ?f [0..<?n] (t, h, s) = None \<and> False
    \<or> (\<exists>ts. for_each ?f [0..<?n] (t, h, s) = Some (None, ts) \<and> ?I ?n ts)
    \<or> (\<exists>v ts. for_each ?f [0..<?n] (t, h, s) = Some (Some v, ts) \<and> ?E v ts)"
  proof (rule for_each_rule [where I = ?I])
    fix k ts assume k: "k < ?n" and I: "?I k ts"
    then obtain t' h' where ts: "ts = (t', h', s)" "libc_inv (R k) (dom m) t k t' h'" by (cases ts) auto
    from libc_valid_op_step [OF L [OF k] ok k ts(2), of tn s] k
    show "?f ([0..<?n] ! k) ts = None \<and> False
      \<or> (\<exists>ts'. ?f ([0..<?n] ! k) ts = Some (None, ts') \<and> ?I (Suc k) ts')
      \<or> (\<exists>v ts'. ?f ([0..<?n] ! k) ts = Some (Some v, ts') \<and> ?E v ts')"
      by (auto simp: ts(1))
  qed (simp_all add: start)
  then show ?thesis
    by (auto simp: eval_libc_valid_def trace_okD(1) [OF ok] split: prod.splits)
qed

lemma eval_libc_valid_run:
  assumes "libc_behaves L rep" "trace_ok N t" "rep h m"
  shows "(\<exists>t' h'. eval_libc_valid L t tn h s = Some (Inr (1, t', h', s)) \<and> libc_inv rep (dom m) t (length (ops t)) t' h')
    \<or> (\<exists>s'. eval_libc_valid L t tn h s = Some (Inl (''System message'', s'))
        \<and> libc_failed tn (length (ops t)) s s')"
  using libc_run [where R = "\<lambda>_. rep", OF libc_behavesD [OF assms(1)] assms(2,3)] by blast

text \<open>With enough memory no call fails.\<close>

lemma eval_libc_valid_served:
  assumes L: "libc_serves N L rep" and ok: "trace_ok N t" and h: "rep (K + length (ops t)) h m"
  shows "\<exists>t' h' m'. eval_libc_valid L t tn h s = Some (Inr (1, t', h', s)) \<and> same_trace t t'
    \<and> rep K h' m' \<and> dom m \<subseteq> dom m'"
proof -
  let ?R = "\<lambda>k. rep (K + length (ops t) - k)"
  from libc_run [where R = ?R, OF libc_serves_calls [OF L] ok] h obtain t' h' where
    1: "eval_libc_valid L t tn h s = Some (Inr (1, t', h', s))"
      "libc_inv (?R (length (ops t))) (dom m) t (length (ops t)) t' h'" by fastforce
  from 1(2) obtain A C m' where "?R (length (ops t)) h' m'" "dom m' = dom m \<union> dom C" "dom m \<inter> dom C = {}"
    "tracked (\<lambda>_ _. True) A (blocks t') C" "sizes_of A = sizes_after (take (length (ops t)) (ops t))"
    "same_trace t t'" "dom C = addresses A" by (rule libc_invE)
  with 1(1) show ?thesis by auto
qed

text \<open>What is timed is what was checked.\<close>

lemma eval_libc_speed_valid:
  assumes "eval_libc_valid L t tn h s = Some (Inr (v, t', h', s'))"
  shows "eval_libc_speed L t h = Some (Inr (t', h'))"
proof -
  have step: "libc_speed_op L i (x, h) = Some (None, x', h')"
    if run: "libc_valid_op L tn i (x, h, s) = Some (None, x', h', s')" for i x h s x' h' s'
  proof -
    obtain op where op: "op_at x i = Some op"
      using run by (cases "op_at x i") (simp_all add: libc_valid_op_def)
    show ?thesis
      using run by (cases "op_type op") (auto simp: libc_valid_op_def libc_speed_op_def op
        split: Option.bind_splits if_splits)
  qed
  from assms have run: "for_each (libc_valid_op L tn) (op_numbers t) (t, h, s) = Some (None, t', h', s')"
    by (auto simp: eval_libc_valid_def split: Option.bind_splits option.splits prod.splits)
  have "\<exists>y. for_each (libc_speed_op L) (op_numbers t) (t, h) = Some (None, y)
      \<and> (\<lambda>(x, h, s) y. y = (x, h)) (t', h', s') y"
    by (rule for_each_simulates [OF _ _ run]) (use step in auto)
  then show ?thesis by (simp add: eval_libc_speed_def)
qed

lemma eval_libc_speed_served:
  assumes "libc_serves N L rep" "trace_ok N t" "rep (K + length (ops t)) h m"
  shows "\<exists>t' h' m'. eval_libc_speed L t h = Some (Inr (t', h')) \<and> same_trace t t' \<and> rep K h' m'
    \<and> dom m \<subseteq> dom m'"
proof -
  from eval_libc_valid_served [OF assms, of 0 "undefined :: driver"] obtain t' h' m' where
    "eval_libc_valid L t 0 h (undefined :: driver) = Some (Inr (1, t', h', undefined))" "same_trace t t'"
    "rep K h' m'" "dom m \<subseteq> dom m'" by blast
  with eval_libc_speed_valid [OF this(1)] show ?thesis by blast
qed

text \<open>
  A trace is read, replayed on the library, and freed: the blocks that were live before still
  are, and no others if the trace releases all it allocates.
\<close>

lemma trace_storage:
  assumes L: "libc_behaves L rep" and h: "rep h m"
    and r: "read_trace L E dir name h = Some (Inr (t, st, h1))" and ok: "trace_ok N t"
    and n: "0 < unat (num_ops t * 12)" "0 < unat (num_ids t * 4)"
    and v: "eval_libc_valid L t tn h1 s = Some (Inr (v, t', h2, s'))"
  shows "\<exists>h3 m'. free_trace L st h2 = Some h3 \<and> rep h3 m' \<and> dom m \<subseteq> dom m'
    \<and> (sizes_after (ops t) = Map.empty \<longrightarrow> dom m' = dom m)"
proof -
  have N: "28 \<le> (4294967296 :: nat)" "unat (num_ops t * 12) \<le> 4294967296" "unat (num_ids t * 4) \<le> 4294967296"
    by (simp_all add: less_imp_le [OF unat_lt32])
  have calls: "libc_call True 4294967296 L rep rep" by (rule libc_behavesD [OF L])
  from alloc_trace_ok [where R = "\<lambda>_. rep", OF calls h N(1) n(1) N(2) n(2) N(3)] read_trace_storage [OF r]
  obtain S K where K: "owns st S" "rep h1 K" "S \<inter> dom m = {}" "dom K = S \<union> dom m" by auto
  from eval_libc_valid_run [OF L ok K(2), of tn s] v have "libc_inv rep (dom K) t (length (ops t)) t' h2"
    by auto
  then obtain A C m2 where
    2: "rep h2 m2" "dom m2 = dom K \<union> dom C" "dom K \<inter> dom C = {}" "tracked (\<lambda>_ _. True) A (blocks t') C"
      "sizes_of A = sizes_after (take (length (ops t)) (ops t))" "same_trace t t'"
      "dom C = addresses A" by (rule libc_invE)
  have "S \<subseteq> dom m2" using 2(2) K(4) by blast
  from free_trace_ok [where R = "\<lambda>_. rep", OF calls K(1) this 2(1)] obtain h3 where
    3: "free_trace L st h2 = Some h3" "rep h3 (m2 |` (- S))" by blast
  have "dom (m2 |` (- S)) = dom m \<union> dom C" using 2(2,3) K(3,4) by auto
  moreover have "dom C = {}" if "sizes_after (ops t) = Map.empty"
  proof -
    have "dom A = {}" using 2(5) that dom_sizes_of [of A] by simp
    then have "A = Map.empty" by simp
    then show ?thesis using 2(7) by (simp add: addresses_def)
  qed
  ultimately show ?thesis using 3 by (intro exI [of _ h3] exI [of _ "m2 |` (- S)"]) auto
qed

end
