(* ===== verification/Main_Routine.thy ===== *)
theory Main_Routine
  imports Driver Eval_Libc
begin

text \<open>
  \<open>main\<close> of \<^verbatim>\<open>mdriver.c\<close> as a whole: the loop over the trace files for the C library's allocator,
  and the parts of Driver in the order the program runs them. The result is the exit code and
  what was printed; the messages that only show progress, and those of \<open>malloc_error\<close>, which are
  in the \<open>report\<close> of the driver, are left out. The state of the library is part of the environment.
\<close>

section \<open>The loop for the C library\<close>

definition timed_libc_speed :: "'h libc \<Rightarrow> ('h \<times> 'f) memory \<Rightarrow> ('h \<times> 'f) memory option" where
  "timed_libc_speed L = (\<lambda>((h, x), t, d). case eval_libc_speed L t h of
     Some (Inr (t, h)) \<Rightarrow> Some ((h, x), t, d) | _ \<Rightarrow> None)"

definition libc_trace :: "'h libc \<Rightarrow> package \<Rightarrow> (('h \<times> 'f) memory, 'm) os_scheme \<Rightarrow> int \<Rightarrow>
    (('h \<times> 'f) memory, 'a) bench_scheme \<Rightarrow>
    (string + stats \<times> (('h \<times> 'f) memory, 'a) bench_scheme) option" where
  "libc_trace L P H i s = do {
     let ((h, x), t, d) = world s;
     let ops' = of_int (sint (num_ops t));
     r \<leftarrow> eval_libc_valid L t i h d;
     (case r of
        Inl (msg, d) \<Rightarrow> Some (Inl msg)
      | Inr (v, t, h, d) \<Rightarrow>
          if v = 0
          then Some (Inr (\<lparr>stat_ops = ops', stat_valid = False, stat_secs = 0, stat_util = 0\<rparr>,
                 s\<lparr>world := ((h, x), t, d)\<rparr>))
          else do {
            (secs, s) \<leftarrow> fsecs P H (timed_libc_speed L) (s\<lparr>world := ((h, x), t, d)\<rparr>);
            Some (Inr (\<lparr>stat_ops = ops', stat_valid = True, stat_secs = secs, stat_util = 0\<rparr>, s)) }) }"

fun libc_traces :: "'h libc \<Rightarrow> package \<Rightarrow> (('h \<times> 'f) memory, 'm) os_scheme \<Rightarrow> (nat \<Rightarrow> surroundings) \<Rightarrow>
    string \<Rightarrow> nat \<Rightarrow> string list \<Rightarrow> (('h \<times> 'f) memory, 'a) bench_scheme \<Rightarrow>
    (string + stats list \<times> (('h \<times> 'f) memory, 'a) bench_scheme) option" where
  "libc_traces L P H E dir i [] s = Some (Inr ([], s))"
| "libc_traces L P H E dir i (f # fs) s = do {
     let ((h, x), _, d) = world s;
     r \<leftarrow> read_trace L (E i) dir f h;
     (case r of
        Inl msg \<Rightarrow> Some (Inl msg)
      | Inr (t, store, h) \<Rightarrow> do {
          r \<leftarrow> libc_trace L P H (int i) (s\<lparr>world := ((h, x), t, d)\<rparr>);
          (case r of
             Inl msg \<Rightarrow> Some (Inl msg)
           | Inr (st, s) \<Rightarrow> do {
               s \<leftarrow> release_trace L store s;
               r \<leftarrow> libc_traces L P H E dir (Suc i) fs s;
               (case r of
                  Inl msg \<Rightarrow> Some (Inl msg)
                | Inr (sts, s) \<Rightarrow> Some (Inr (st # sts, s))) }) }) }"

section \<open>What the program prints\<close>

datatype printed =
    Usage
  | Failure string
  | Team_name string
  | Member nat string string
  | Default_tracefiles string
  | Libc_results "line list"
  | Mm_results "line list"
  | Perf_index "rat option"
  | Terminated_with u32
  | Correct nat
  | Perfidx "rat option"

text \<open>The lines before the team check ends, with or without an error.\<close>

definition team_lines :: "team_t \<Rightarrow> printed list" where
  "team_lines T =
     (if teamname T = '''' then []
      else Team_name (teamname T) #
        (if name1 T = '''' \<or> id1 T = '''' then []
         else Member 1 (name1 T) (id1 T) #
           (if name2 T \<noteq> '''' \<and> id2 T \<noteq> '''' then [Member 2 (name2 T) (id2 T)] else [])))"

definition error_count :: "('e memory, 'a) bench_scheme \<Rightarrow> u32" where
  "error_count s = errors (snd (snd (world s)))"

definition summary :: "options \<Rightarrow> u32 \<Rightarrow> stats list \<Rightarrow> printed list" where
  "summary opt errs sts =
     (if 0 < verbosity opt then [Mm_results (printresults errs sts)] else [])
     @ [if errs = 0 then Perf_index (perfindex errs sts) else Terminated_with errs]
     @ (if autograder opt then [Correct (numcorrect sts), Perfidx (perfindex errs sts)] else [])"

section \<open>The main routine\<close>

text \<open>
  The two calls of \<open>calloc\<close> for the tables of statistics, for the library and for the package,
  may fail: the two components of \<open>G\<close> say whether they are granted.
\<close>

definition libc_phase :: "bool \<times> bool \<Rightarrow> 'h libc \<Rightarrow> package \<Rightarrow> (('h \<times> 'f) memory, 'm) os_scheme \<Rightarrow>
    (nat \<Rightarrow> surroundings) \<Rightarrow> options \<Rightarrow> (('h \<times> 'f) memory, 'a) bench_scheme \<Rightarrow>
    (string + printed list \<times> (('h \<times> 'f) memory, 'a) bench_scheme) option" where
  "libc_phase G L P H E opt s =
     (if run_libc opt \<and> \<not> fst G then Some (Inl ''libc_stats calloc in main failed'')
      else if run_libc opt then do {
        r \<leftarrow> libc_traces L P H E (tracedir opt) 0 (chosen_tracefiles opt) s;
        (case r of
           Inl msg \<Rightarrow> Some (Inl msg)
         | Inr (sts, s) \<Rightarrow> Some (Inr (
             if 0 < verbosity opt then [Libc_results (printresults (error_count s) sts)] else [], s))) }
      else Some (Inr ([], s)))"

definition mm_phase :: "bool \<times> bool \<Rightarrow> 'h libc \<Rightarrow> package \<Rightarrow> (('h \<times> 'f) memory, 'm) os_scheme \<Rightarrow> (nat \<Rightarrow> u32) \<Rightarrow>
    u32 \<Rightarrow> (nat \<Rightarrow> u32) \<Rightarrow> (nat \<Rightarrow> surroundings) \<Rightarrow> options \<Rightarrow> (('h \<times> 'f) memory, 'a) bench_scheme \<Rightarrow>
    (string + stats list \<times> (('h \<times> 'f) memory, 'a) bench_scheme) option" where
  "mm_phase G L P H nodes storage contents E opt s = do {
     let (e, t, d) = world s;
     if \<not> snd G then Some (Inl ''mm_stats calloc in main failed'')
     else (case mem_init storage contents d of
        None \<Rightarrow> Some (Inl ''mem_init_vm: malloc error'')
      | Some d \<Rightarrow>
          mm_traces L P H nodes E (tracedir opt) 0 (chosen_tracefiles opt) (s\<lparr>world := (e, t, d)\<rparr>)) }"

definition evaluate :: "bool \<times> bool \<Rightarrow> 'h libc \<Rightarrow> package \<Rightarrow> (('h \<times> 'f) memory, 'm) os_scheme \<Rightarrow> (nat \<Rightarrow> u32) \<Rightarrow>
    u32 \<Rightarrow> (nat \<Rightarrow> u32) \<Rightarrow> (nat \<Rightarrow> surroundings) \<Rightarrow> (nat \<Rightarrow> surroundings) \<Rightarrow> options \<Rightarrow>
    (('h \<times> 'f) memory, 'a) bench_scheme \<Rightarrow> (int \<times> printed list) option" where
  "evaluate G L P H nodes storage contents E' E opt s = do {
     r \<leftarrow> libc_phase G L P H E' opt (init_fsecs P H s);
     (case r of
        Inl msg \<Rightarrow> Some (1, [Failure msg])
      | Inr (out, s) \<Rightarrow> do {
          r \<leftarrow> mm_phase G L P H nodes storage contents E opt s;
          (case r of
             Inl msg \<Rightarrow> Some (1, out @ [Failure msg])
           | Inr (sts, s) \<Rightarrow> Some (0, out @ summary opt (error_count s) sts)) }) }"

definition preamble :: "options \<Rightarrow> printed list" where
  "preamble opt = (if team_check opt then team_lines team else [])
     @ (if tracefiles opt = None then [Default_tracefiles (tracedir opt)] else [])"

definition driver_main :: "bool \<times> bool \<Rightarrow> 'h libc \<Rightarrow> package \<Rightarrow> (('h \<times> 'f) memory, 'm) os_scheme \<Rightarrow> (nat \<Rightarrow> u32) \<Rightarrow>
    u32 \<Rightarrow> (nat \<Rightarrow> u32) \<Rightarrow> (nat \<Rightarrow> surroundings) \<Rightarrow> (nat \<Rightarrow> surroundings) \<Rightarrow> (char \<times> string) list \<Rightarrow>
    (('h \<times> 'f) memory, 'a) bench_scheme \<Rightarrow> (int \<times> printed list) option" where
  "driver_main G L P H nodes storage contents E' E args s = do {
     r \<leftarrow> parse_options args default_options;
     (case r of
        Inl code \<Rightarrow> Some (code, [Usage])
      | Inr opt \<Rightarrow>
          (case (if team_check opt then check_team team else None) of
             Some msg \<Rightarrow> Some (1, team_lines team @ [Failure msg])
           | None \<Rightarrow> do {
               (code, out) \<leftarrow> evaluate G L P H nodes storage contents E' E opt s;
               Some (code, preamble opt @ out) })) }"

section \<open>The library's loop leaves the package alone\<close>

lemma eval_libc_valid_keeps:
  assumes "eval_libc_valid L t tn h d = Some (Inr (v, t', h', d'))"
  shows "d' = d"
proof -
  have step: "snd (snd x') = snd (snd x)" if run: "libc_valid_op L tn i x = Some (None, x')" for i x x'
  proof -
    obtain u k e where x: "x = (u, k, e)" by (cases x) auto
    obtain op where op: "op_at u i = Some op"
      using run by (cases "op_at u i") (simp_all add: libc_valid_op_def x)
    then show ?thesis
      using run by (cases "op_type op") (auto simp: libc_valid_op_def x op split: Option.bind_splits if_splits)
  qed
  from assms have run: "for_each (libc_valid_op L tn) (op_numbers t) (t, h, d) = Some (None, t', h', d')"
    by (auto simp: eval_libc_valid_def split: Option.bind_splits option.splits prod.splits)
  let ?f = "\<lambda>i y. Some (None, y)"
  have "\<exists>y. for_each ?f (op_numbers t) d = Some (None, y) \<and> snd (snd (t', h', d')) = d \<and> y = d"
    by (rule for_each_simulates [where R = "\<lambda>x y. snd (snd x) = d \<and> y = d", OF _ _ run])
      (use step in auto)
  then show ?thesis by auto
qed

text \<open>A function that leaves the driver alone still does when it is timed.\<close>

lemma run_times_keeps:
  assumes "\<And>w w'. f w = Some w' \<Longrightarrow> g w' = g w"
  shows "run_times f n w = Some w' \<Longrightarrow> g w' = g w"
  by (induction n arbitrary: w) (auto split: Option.bind_splits dest: assms)

lemma timed_libc_keeps: "timed_libc_speed L w = Some w' \<Longrightarrow> snd (snd w') = snd (snd w)"
  by (auto simp: timed_libc_speed_def split: prod.splits option.splits sum.splits)

lemma fsecs_keeps:
  assumes H: "undisturbed H" and f: "\<And>w w'. f w = Some w' \<Longrightarrow> snd (snd w') = snd (snd w)"
    and r: "fsecs config_timer H f s = Some (x, s')"
  shows "snd (snd (world s')) = snd (snd (world s))"
proof -
  have g: "snd (snd (snd (gettimeofday H w))) = snd (snd w)" for w
    using H unfolding undisturbed_def by (metis (no_types))
  from r obtain w' where w': "run_times f (nat 10) (snd (gettimeofday H (world s))) = Some w'"
    "world s' = snd (gettimeofday H w')"
    by (auto simp: fsecs_def config_timer_def ftimer_gettod_def Let_def
        split: Option.bind_splits prod.splits)
  from run_times_keeps [where g = "\<lambda>w. snd (snd w)", OF f w'(1)] show ?thesis
    by (simp add: w'(2) g)
qed

lemma libc_trace_keeps:
  assumes "undisturbed H" "libc_trace L config_timer H i s = Some (Inr (st, s'))"
  shows "snd (snd (world s')) = snd (snd (world s)) \<and> stat_util st = 0"
proof -
  obtain h x t d where w: "world s = ((h, x), t, d)" by (cases "world s") auto
  have secs: "snd (snd (world s')) = snd (snd w)"
    if "fsecs config_timer H (timed_libc_speed L) (s\<lparr>world := w\<rparr>) = Some (y, s')" for w y
    using fsecs_keeps [OF assms(1) timed_libc_keeps that] by simp
  from w assms(2) show ?thesis
    by (auto simp: libc_trace_def Let_def split: Option.bind_splits sum.splits prod.splits if_splits
        dest!: eval_libc_valid_keeps secs)
qed

lemma release_trace_keeps: "release_trace L st s = Some s' \<Longrightarrow> snd (snd (world s')) = snd (snd (world s))"
  by (auto simp: release_trace_def split: Option.bind_splits prod.splits)

lemma libc_traces_keeps:
  assumes H: "undisturbed H"
  shows "libc_traces L config_timer H E dir i fs s = Some (Inr (sts, s')) \<Longrightarrow>
    snd (snd (world s')) = snd (snd (world s)) \<and> length sts = length fs"
proof (induction fs arbitrary: i s sts)
  case (Cons f fs)
  obtain h x t0 d where w: "world s = ((h, x), t0, d)" by (metis prod.collapse)
  from Cons.prems obtain t store h1 st s1 s2 sts1 where
    1: "libc_trace L config_timer H (int i) (s\<lparr>world := ((h1, x), t, d)\<rparr>) = Some (Inr (st, s1))"
      "release_trace L store s1 = Some s2"
      "libc_traces L config_timer H E dir (Suc i) fs s2 = Some (Inr (sts1, s'))" "sts = st # sts1"
    by (auto simp: w split: Option.bind_splits sum.splits)
  from libc_trace_keeps [OF H 1(1)] release_trace_keeps [OF 1(2)] Cons.IH [OF 1(3)] 1(4) show ?case by (simp add: w)
qed simp

lemma libc_phase_keeps:
  assumes "undisturbed H" "libc_phase G L config_timer H E opt s = Some (Inr (out, s'))"
  shows "snd (snd (world s')) = snd (snd (world s))"
  using assms(2)
  by (auto simp: libc_phase_def split: Option.bind_splits sum.splits if_splits prod.splits
      dest!: libc_traces_keeps [OF assms(1)])

section \<open>The library's loop comes to its end\<close>

lemma timed_libc_ok:
  assumes "libc_serves N L rep" "trace_ok N t" "rep (K + length (ops t)) h m"
  shows "\<exists>h' t' m'. timed_libc_speed L ((h, x), t, d) = Some ((h', x), t', d) \<and> same_trace t t'
    \<and> rep K h' m' \<and> dom m \<subseteq> dom m'"
  using eval_libc_speed_served [OF assms] by (auto simp: timed_libc_speed_def)

lemma run_timed_libc:
  assumes L: "libc_serves N L rep"
  shows "trace_ok N t \<Longrightarrow> rep (K + n * length (ops t)) h m \<Longrightarrow>
    \<exists>h' t' m'. run_times (timed_libc_speed L) n ((h, x), t, d) = Some ((h', x), t', d) \<and> rep K h' m'
      \<and> dom m \<subseteq> dom m'"
proof (induction n arbitrary: t h m)
  case (Suc n)
  have "rep ((K + n * length (ops t)) + length (ops t)) h m" using Suc.prems(2) by (simp add: ac_simps)
  from timed_libc_ok [OF L Suc.prems(1) this, of x d] obtain h1 t1 m1 where
    1: "timed_libc_speed L ((h, x), t, d) = Some ((h1, x), t1, d)" "same_trace t t1"
      "rep (K + n * length (ops t)) h1 m1" "dom m \<subseteq> dom m1" by blast
  have "ops t1 = ops t" using 1(2) by (simp add: same_trace_def)
  with Suc.IH [OF same_trace_ok [OF 1(2) Suc.prems(1)]] 1(3) obtain h2 t2 m2 where
    "run_times (timed_libc_speed L) n ((h1, x), t1, d) = Some ((h2, x), t2, d)" "rep K h2 m2" "dom m1 \<subseteq> dom m2"
    by metis
  with 1(1,4) show ?case by (intro exI [of _ h2] exI [of _ t2] exI [of _ m2]) auto
qed auto

lemma fsecs_libc:
  assumes L: "libc_serves N L rep" and H: "undisturbed H" and s: "world s = ((h, x), t, d)"
    and ok: "trace_ok N t" "rep (K + 10 * length (ops t)) h m"
  shows "\<exists>secs h' x' t' m'. fsecs config_timer H (timed_libc_speed L) s
      = Some (secs, s\<lparr>world := ((h', x'), t', d)\<rparr>) \<and> rep K h' m' \<and> dom m \<subseteq> dom m'"
proof -
  obtain t0 x0 where g: "gettimeofday H (world s) = (t0, ((h, x0), t, d))"
    unfolding s by (rule gettimeofday_undisturbed [OF H])
  have "rep (K + nat 10 * length (ops t)) h m" using ok(2) by simp
  from run_timed_libc [OF L ok(1) this, of x0 d] obtain h1 t1 m1 where
    1: "run_times (timed_libc_speed L) (nat 10) ((h, x0), t, d) = Some ((h1, x0), t1, d)" "rep K h1 m1"
      "dom m \<subseteq> dom m1" by blast
  obtain t2 x2 where g': "gettimeofday H ((h1, x0), t1, d) = (t2, ((h1, x2), t1, d))"
    by (rule gettimeofday_undisturbed [OF H])
  have "fsecs config_timer H (timed_libc_speed L) s
      = Some (of_int (microseconds t2 - microseconds t0) / (1000000 * of_int 10), s\<lparr>world := ((h1, x2), t1, d)\<rparr>)"
    using ftimer_gettod_mean [OF g 1(1) g'] by (simp add: fsecs_def config_timer_def)
  with 1(2,3) show ?thesis by blast
qed

text \<open>
  A trace costs the library eleven runs of its requests: the check and the ten runs that are
  timed. The blocks that were live, the storage of the trace among them, stay live.
\<close>

definition libc_stats_of :: "trace \<Rightarrow> stats \<Rightarrow> bool" where
  "libc_stats_of t st \<longleftrightarrow> stat_valid st \<and> stat_ops st = of_nat (length (ops t)) \<and> stat_util st = 0"

lemma libc_trace_served:
  assumes L: "libc_serves N L rep" and H: "undisturbed H" and s: "world s = ((h, x), t, d)"
    and ok: "trace_ok N t" "rep (K + 11 * length (ops t)) h m"
  shows "\<exists>st h' x' t' m'. libc_trace L config_timer H i s = Some (Inr (st, s\<lparr>world := ((h', x'), t', d)\<rparr>))
    \<and> libc_stats_of t st \<and> rep K h' m' \<and> dom m \<subseteq> dom m'"
proof -
  have "rep ((K + 10 * length (ops t)) + length (ops t)) h m" using ok(2) by (simp add: ac_simps)
  from eval_libc_valid_served [OF L ok(1) this, of i d] obtain t1 h1 m1 where
    1: "eval_libc_valid L t i h d = Some (Inr (1, t1, h1, d))" "same_trace t t1"
      "rep (K + 10 * length (ops t)) h1 m1" "dom m \<subseteq> dom m1" by blast
  have u: "ops t1 = ops t" using 1(2) by (simp add: same_trace_def)
  have w: "world (s\<lparr>world := ((h1, x), t1, d)\<rparr>) = ((h1, x), t1, d)" by simp
  from fsecs_libc [OF L H w same_trace_ok [OF 1(2) ok(1)] 1(3) [folded u]] obtain secs h2 x2 t2 m2 where
    2: "fsecs config_timer H (timed_libc_speed L) (s\<lparr>world := ((h1, x), t1, d)\<rparr>)
      = Some (secs, s\<lparr>world := ((h2, x2), t2, d)\<rparr>)" "rep K h2 m2" "dom m1 \<subseteq> dom m2" by auto
  let ?st = "\<lparr>stat_ops = of_int (sint (num_ops t)), stat_valid = True, stat_secs = secs, stat_util = 0\<rparr>"
  have "libc_trace L config_timer H i s = Some (Inr (?st, s\<lparr>world := ((h2, x2), t2, d)\<rparr>))"
    using s 1(1) 2(1) by (simp add: libc_trace_def Let_def)
  moreover have "libc_stats_of t ?st" using ok(1) by (simp add: libc_stats_of_def trace_ok_def)
  ultimately show ?thesis using 2(2) order_trans [OF 1(4) 2(3)] by blast
qed

definition libc_calls :: "trace list \<Rightarrow> nat" where
  "libc_calls ts = sum_list (map (\<lambda>t. 8 + 11 * length (ops t)) ts)"

lemma libc_calls_simps [simp]:
  "libc_calls [] = 0" "libc_calls (t # ts) = 8 + 11 * length (ops t) + libc_calls ts"
  by (simp_all add: libc_calls_def)

lemma libc_traces_served:
  assumes H: "undisturbed H"
  shows "fit_files N E dir i fs ts \<Longrightarrow> library_ready N M L rep ts \<Longrightarrow>
    rep (K + libc_calls ts) (fst (fst (world s))) m \<Longrightarrow>
    \<exists>sts s' m'. libc_traces L config_timer H E dir i fs s = Some (Inr (sts, s')) \<and> list_all2 libc_stats_of ts sts
      \<and> rep K (fst (fst (world s'))) m'"
proof (induction N E dir i fs ts arbitrary: s m rule: fit_files.induct)
  case (1 N E dir i f fs t ts)
  obtain h x t0 d where w: "world s = ((h, x), t0, d)" by (metis prod.collapse)
  from "1.prems"(1) have g: "fit_trace N t" "serves (E i) (dir @ f) (print_trace t)" "fit_files N E dir (Suc i) fs ts"
    by simp_all
  have L: "library_ready N M L rep ts" "libc_serves N L rep"
    using "1.prems"(2) libc_serves_mono by (auto simp: library_ready_def)
  let ?K = "K + libc_calls ts"
  have "rep ((?K + 4 + 11 * length (ops t)) + 4) h m" using "1.prems"(3) w by (simp add: ac_simps)
  from read_fit_trace [where rep = rep, OF g(1,2) "1.prems"(2) this] obtain u store h1 m1 where
    u: "read_trace L (E i) dir f h = Some (Inr (u, store, h1))" "rep (?K + 4 + 11 * length (ops u)) h1 m1"
      "held store m1" "trace_ok N u" "length (ops u) = length (ops t)" by metis
  have "world (s\<lparr>world := ((h1, x), u, d)\<rparr>) = ((h1, x), u, d)" by simp
  from libc_trace_served [where rep = rep, OF L(2) H this u(4,2), of "int i"] obtain st s1 m2 where
    1: "libc_trace L config_timer H (int i) (s\<lparr>world := ((h1, x), u, d)\<rparr>) = Some (Inr (st, s1))"
      "libc_stats_of u st" "rep (?K + 4) (fst (fst (world s1))) m2" "dom m1 \<subseteq> dom m2" by fastforce
  from release_trace_served [where rep = rep, OF L(1) 1(3) held_mono [OF u(3) 1(4)]] obtain s2 m3 where
    2: "release_trace L store s1 = Some s2" "rep ?K (fst (fst (world s2))) m3" by blast
  from "1.IH" [OF g(3) L(1) 2(2)] obtain sts s' m' where
    3: "libc_traces L config_timer H E dir (Suc i) fs s2 = Some (Inr (sts, s'))" "list_all2 libc_stats_of ts sts"
      "rep K (fst (fst (world s'))) m'" by blast
  have "libc_traces L config_timer H E dir i (f # fs) s = Some (Inr (st # sts, s'))"
    using u(1) w 1(1) 2(1) 3(1) by simp
  moreover have "libc_stats_of t st" using 1(2) u(5) by (simp add: libc_stats_of_def)
  ultimately show ?case using 3(2,3) by (intro exI [of _ "st # sts"] exI [of _ s'] exI [of _ m']) simp
qed auto

definition libc_printed :: "options \<Rightarrow> stats list \<Rightarrow> printed list" where
  "libc_printed opt sts =
     (if run_libc opt \<and> 0 < verbosity opt then [Libc_results (printresults 0 sts)] else [])"

lemma libc_phase_served:
  assumes H: "undisturbed H" and e: "error_count s = 0" and L: "library_ready N M L rep ts"
    and m: "rep (K + (if run_libc opt then libc_calls ts else 0)) (fst (fst (world s))) m"
    and libc: "run_libc opt \<Longrightarrow> fst G"
      "run_libc opt \<Longrightarrow> fit_files N E (tracedir opt) 0 (chosen_tracefiles opt) ts"
  shows "\<exists>sts s' m'. libc_phase G L config_timer H E opt s = Some (Inr (libc_printed opt sts, s'))
    \<and> (run_libc opt \<longrightarrow> list_all2 libc_stats_of ts sts) \<and> rep K (fst (fst (world s'))) m'"
proof (cases "run_libc opt")
  case True
  then have "rep (K + libc_calls ts) (fst (fst (world s))) m" using m by simp
  from libc_traces_served [where rep = rep, OF H libc(2) [OF True] L this] obtain sts s' m' where
    r: "libc_traces L config_timer H E (tracedir opt) 0 (chosen_tracefiles opt) s = Some (Inr (sts, s'))"
      "list_all2 libc_stats_of ts sts" "rep K (fst (fst (world s'))) m'" by blast
  have "error_count s' = 0" using libc_traces_keeps [OF H r(1)] e by (simp add: error_count_def)
  with r True libc(1) show ?thesis by (auto simp: libc_phase_def libc_printed_def)
qed (use m in \<open>auto simp: libc_phase_def libc_printed_def\<close>)

section \<open>The package's part\<close>

text \<open>A storage that \<open>malloc\<close> may return: aligned, and not too near the end of the address space.\<close>

definition storage_ok :: "nat \<Rightarrow> u32 \<Rightarrow> bool" where
  "storage_ok N storage \<longleftrightarrow> storage \<noteq> 0 \<and> 8 dvd unat storage \<and> N + 39 < 2147483648
     \<and> unat storage + MAX_HEAP + max (N + 39) 4096 < 4294967296"

lemma mem_init_ready:
  assumes "storage_ok N storage"
  shows "\<exists>d'. mem_init storage contents d = Some d' \<and> driver_ready N d' \<and> errors d' = errors d"
  using assms
  by (simp add: storage_ok_def mem_init_def driver_ready_def mem_reset_brk_def fresh_heap_def
      small_requests_def unat_gt_0 unat_word_ariths MAX_HEAP_num unat_w32)

lemma stats_valid: "list_all2 (stats_of H) ts sts \<Longrightarrow> numcorrect sts = length (filter (\<lambda>t. \<not> misjudges t) ts)"
  by (induction rule: list_all2_induct) (auto simp: numcorrect_def stats_of_def)

lemma perfindex_of_stats:
  assumes "clock_forward H" "list_all2 (stats_of H) ts sts" "\<exists>t \<in> set ts. ops t \<noteq> []"
  shows "\<exists>x. perfindex errs sts = Some x \<and> 0 \<le> x \<and> x \<le> 100 \<and> (errs \<noteq> 0 \<longrightarrow> x = 0)"
proof -
  have all: "\<forall>st \<in> set sts. 0 \<le> stat_util st \<and> stat_util st \<le> 1" "\<forall>st \<in> set sts. 0 \<le> stat_ops st \<and> 0 \<le> stat_secs st"
    and sum: "sum_list (map stat_ops sts) = of_nat (sum_list (map (length \<circ> ops) ts))"
    using assms(2) by (induction rule: list_all2_induct) (auto simp: stats_of_def assms(1))
  from assms(3) obtain t where "t \<in> set ts" "0 < length (ops t)" by auto
  then have "0 < sum_list (map (length \<circ> ops) ts)"
    by (metis comp_apply elem_le_sum_list in_set_conv_nth length_map nth_map less_le_trans)
  then have "sum_list (map stat_ops sts) \<noteq> 0" unfolding sum of_nat_eq_0_iff by (rule gr_implies_not0)
  moreover have "sts \<noteq> []" using assms(2,3) by auto
  ultimately obtain x where x: "perfindex errs sts = Some x"
    by (cases "errs = 0") (auto simp: perfindex_def Let_def)
  have "errs \<noteq> 0 \<longrightarrow> x = 0" using x by (auto simp: perfindex_def)
  with x show ?thesis using perfindex_range [OF all x] by blast
qed

lemma mm_phase_ok:
  assumes "undisturbed H" "\<forall>i. nodes i \<noteq> 0" "storage_ok N storage" "snd G"
    "fit_files N E (tracedir opt) 0 (chosen_tracefiles opt) ts"
    "library_ready N M L rep ts" "rep (8 * length ts) (fst (fst (world s))) m"
  shows "\<exists>sts s'. mm_phase G L config_timer H nodes storage contents E opt s = Some (Inr (sts, s'))
    \<and> list_all2 (stats_of H) ts sts \<and> error_count s' = error_count s + of_nat (length (filter misjudges ts))"
proof -
  obtain e t d where w: "world s = (e, t, d)" by (cases "world s")
  from mem_init_ready [OF assms(3)] obtain d' where
    d': "mem_init storage contents d = Some d'" "driver_ready N d'" "errors d' = errors d" by blast
  let ?s = "s\<lparr>world := (e, t, d')\<rparr>"
  have "driver_ready N (snd (snd (world ?s)))" "rep (0 + 8 * length ts) (fst (fst (world ?s))) m"
    using d'(2) assms(7) w by simp_all
  from mm_traces_stats [where rep = rep, OF assms(1,2,5) this(1) assms(6) this(2)] obtain sts s' where
    1: "mm_traces L config_timer H nodes E (tracedir opt) 0 (chosen_tracefiles opt) ?s = Some (Inr (sts, s'))"
      "list_all2 (stats_of H) ts sts"
      "errors (snd (snd (world s'))) = errors (snd (snd (world ?s))) + of_nat (length (filter misjudges ts))" by blast
  have "mm_phase G L config_timer H nodes storage contents E opt s = Some (Inr (sts, s'))"
    using 1(1) assms(4) d'(1) by (simp add: mm_phase_def w)
  with 1(2,3) show ?thesis by (auto simp: error_count_def w d'(3))
qed

text \<open>Whatever timer \<^verbatim>\<open>config.h\<close> selects now, its initialization does nothing to the world.\<close>

lemma init_fsecs_world: "world (init_fsecs config_timer H s) = world s"
  by (simp add: init_fsecs_def config_timer_def)

lemma team_ok: "check_team team = None"
  by (simp add: check_team_None team_def)

text \<open>The calls of the library that a whole run of the program makes.\<close>

definition calls :: "options \<Rightarrow> trace list \<Rightarrow> nat" where
  "calls opt ts = 8 * length ts + (if run_libc opt then libc_calls ts else 0)"

lemma evaluate_ok:
  assumes H: "undisturbed H" and nodes: "\<forall>i. nodes i \<noteq> 0" and st: "storage_ok N storage" "snd G"
    and fs: "fit_files N E (tracedir opt) 0 (chosen_tracefiles opt) ts"
    and L: "library_ready N M L rep ts" "rep (calls opt ts) (fst (fst (world s))) m"
    and libc: "run_libc opt \<Longrightarrow> fst G"
      "run_libc opt \<Longrightarrow> fit_files N E' (tracedir opt) 0 (chosen_tracefiles opt) ts"
    and e: "error_count s = 0"
  shows "\<exists>lsts sts. evaluate G L config_timer H nodes storage contents E' E opt s
      = Some (0, libc_printed opt lsts @ summary opt (of_nat (length (filter misjudges ts))) sts)
    \<and> (run_libc opt \<longrightarrow> list_all2 libc_stats_of ts lsts) \<and> list_all2 (stats_of H) ts sts"
proof -
  let ?s = "init_fsecs config_timer H s"
  have s: "error_count ?s = 0" "rep (8 * length ts + (if run_libc opt then libc_calls ts else 0)) (fst (fst (world ?s))) m"
    using e L(2) by (simp_all add: error_count_def init_fsecs_world calls_def)
  from libc_phase_served [where rep = rep, OF H s(1) L(1) s(2) libc] obtain lsts s1 m1 where
    1: "libc_phase G L config_timer H E' opt ?s = Some (Inr (libc_printed opt lsts, s1))"
      "run_libc opt \<longrightarrow> list_all2 libc_stats_of ts lsts" "rep (8 * length ts) (fst (fst (world s1))) m1" by blast
  have "error_count s1 = 0" using libc_phase_keeps [OF H 1(1)] s(1) by (simp add: error_count_def)
  with mm_phase_ok [where rep = rep, OF H nodes st fs L(1) 1(3), of contents] obtain sts s' where
    "mm_phase G L config_timer H nodes storage contents E opt s1 = Some (Inr (sts, s'))"
    "list_all2 (stats_of H) ts sts" "error_count s' = of_nat (length (filter misjudges ts))" by auto
  with 1(1,2) show ?thesis by (intro exI [of _ lsts] exI [of _ sts]) (simp add: evaluate_def)
qed

text \<open>The options choose at least one file, and a trace whose storage has a size has a request.\<close>

lemma some_request:
  assumes opt: "parse_options args default_options = Some (Inr opt)"
    and fs: "fit_files N E (tracedir opt) 0 (chosen_tracefiles opt) ts" and L: "library_ready N M L rep ts"
  shows "\<exists>t \<in> set ts. ops t \<noteq> []"
proof -
  have "chosen_tracefiles opt \<noteq> []" using parse_options_ok [OF default_options_ok opt] by (simp add: dir_ok_def)
  then obtain f fs' where f: "chosen_tracefiles opt = f # fs'" by (cases "chosen_tracefiles opt") auto
  with fs obtain t ts' where t: "ts = t # ts'" "fit_trace N t" by (cases ts) auto
  have "0 < unat (num_ops t * 12)" using L t(1) by (simp add: library_ready_def storable_def)
  then have "num_ops t \<noteq> 0" by (cases "num_ops t = 0") simp_all
  moreover have "sint (num_ops t) = int (length (ops t))" using t(2) by (simp add: fit_trace_def trace_ok_def)
  ultimately have "int (length (ops t)) \<noteq> 0" by (metis signed_eq_0_iff)
  then have "ops t \<noteq> []" by simp
  with t(1) show ?thesis by simp
qed

lemma driver_main_ok:
  assumes H: "undisturbed H" "clock_forward H" and nodes: "\<forall>i. nodes i \<noteq> 0" and st: "storage_ok N storage" "snd G"
    and opt: "parse_options args default_options = Some (Inr opt)"
    and fs: "fit_files N E (tracedir opt) 0 (chosen_tracefiles opt) ts"
    and L: "library_ready N M L rep ts" "rep (calls opt ts) (fst (fst (world s))) m"
    and libc: "run_libc opt \<Longrightarrow> fst G"
      "run_libc opt \<Longrightarrow> fit_files N E' (tracedir opt) 0 (chosen_tracefiles opt) ts"
    and e: "error_count s = 0"
  defines "errs \<equiv> of_nat (length (filter misjudges ts))"
  shows "\<exists>lsts sts x. driver_main G L config_timer H nodes storage contents E' E args s
      = Some (0, preamble opt @ libc_printed opt lsts @ summary opt errs sts)
    \<and> (run_libc opt \<longrightarrow> list_all2 libc_stats_of ts lsts)
    \<and> list_all2 (stats_of H) ts sts \<and> numcorrect sts = length (filter (\<lambda>t. \<not> misjudges t) ts)
    \<and> perfindex errs sts = Some x \<and> 0 \<le> x \<and> x \<le> 100 \<and> (errs \<noteq> 0 \<longrightarrow> x = 0)"
proof -
  from evaluate_ok [where rep = rep, OF H(1) nodes st fs L libc e] obtain lsts sts where
    1: "evaluate G L config_timer H nodes storage contents E' E opt s
        = Some (0, libc_printed opt lsts @ summary opt errs sts)"
      "run_libc opt \<longrightarrow> list_all2 libc_stats_of ts lsts" "list_all2 (stats_of H) ts sts"
    unfolding errs_def by blast
  have "driver_main G L config_timer H nodes storage contents E' E args s
      = Some (0, preamble opt @ libc_printed opt lsts @ summary opt errs sts)"
    using 1(1) opt by (simp add: driver_main_def team_ok)
  with perfindex_of_stats [OF H(2) 1(3) some_request [OF opt fs L(1)], of errs] stats_valid [OF 1(3)] 1(2,3)
  show ?thesis by blast
qed

end
