(* ===== verification/Bump_Library.thy ===== *)
theory Bump_Library
  imports Libc
begin

text \<open>
  An example of the C library's allocator: one that never reuses an address, up to a limit. It
  shows that what is assumed of the library can hold.
\<close>

definition bump_alloc :: "u32 \<Rightarrow> nat \<times> (nat \<rightharpoonup> nat) \<Rightarrow> u32 \<times> nat \<times> (nat \<rightharpoonup> nat)" where
  "bump_alloc n = (\<lambda>(next', m). if next' + unat n < 1000000
     then (w32 next', next' + unat n, m(next' \<mapsto> unat n)) else (0, next', m))"

definition bump_libc :: "(nat \<times> (nat \<rightharpoonup> nat)) libc" where
  "bump_libc = \<lparr>malloc = (\<lambda>n h. Some (bump_alloc n h)),
     realloc = (\<lambda>p n h. let (r, k, m) = bump_alloc n h in Some (r, k, if r = 0 then m else m(unat p := None))),
     free' = (\<lambda>p (k, m). if m (unat p) = None then None else Some (k, m(unat p := None)))\<rparr>"

definition bump_rep :: "nat \<times> (nat \<rightharpoonup> nat) \<Rightarrow> (nat \<rightharpoonup> nat) \<Rightarrow> bool" where
  "bump_rep h m \<longleftrightarrow> snd h = m \<and> 0 < fst h \<and> fst h < 1000000 \<and> (\<forall>a \<in> dom m. a < fst h)"

lemma bump_live: "bump_rep (k, m) m' \<Longrightarrow> m' a = Some c \<Longrightarrow> a < k \<and> unat (w32 a) = a"
proof -
  assume "bump_rep (k, m) m'" "m' a = Some c"
  then have "a < k" "k < 1000000" by (auto simp: bump_rep_def)
  then show ?thesis by (simp add: unat_w32)
qed

text \<open>A new block, where there is room for it.\<close>

lemma bump_alloc_new:
  assumes "bump_rep (k, m) m'" "0 < unat n" "k + unat n < 1000000"
  shows "bump_alloc n (k, m) = (w32 k, k + unat n, m(k \<mapsto> unat n))" "w32 k \<noteq> 0" "m k = None"
    "bump_rep (k + unat n, m(k \<mapsto> unat n)) (m(k \<mapsto> unat n))"
proof -
  have k: "m' = m" "0 < k" "k < 1000000" "\<And>a c. m a = Some c \<Longrightarrow> a < k"
    using assms(1) by (auto simp: bump_rep_def)
  show "m k = None" using k(4) [of k] by (cases "m k") auto
  show "w32 k \<noteq> 0" using k(2,3) by (simp add: w32_eq_0)
  show "bump_rep (k + unat n, m(k \<mapsto> unat n)) (m(k \<mapsto> unat n))"
    using assms(2,3) k by (auto simp: bump_rep_def intro: less_trans) (metis k(4) trans_less_add1)
  show "bump_alloc n (k, m) = (w32 k, k + unat n, m(k \<mapsto> unat n))" using assms(3) by (simp add: bump_alloc_def)
qed

text \<open>
  A call in the states whose next address satisfies \<open>P\<close>, after which it satisfies \<open>P'\<close>.
\<close>

definition bump_in :: "(nat \<Rightarrow> bool) \<Rightarrow> nat \<times> (nat \<rightharpoonup> nat) \<Rightarrow> (nat \<rightharpoonup> nat) \<Rightarrow> bool" where
  "bump_in P h m \<longleftrightarrow> bump_rep h m \<and> P (fst h)"

lemma bump_inE:
  assumes "bump_in P h m" obtains k where "h = (k, m)" "bump_rep (k, m) m" "P k"
  using assms by (cases h) (auto simp: bump_in_def bump_rep_def)

lemma bump_call:
  assumes same: "\<And>k. P k \<Longrightarrow> P' k" and used: "\<And>k n. P k \<Longrightarrow> n \<le> N \<Longrightarrow> k + n < 1000000 \<Longrightarrow> P' (k + n)"
    and room: "\<And>k n. P k \<Longrightarrow> n \<le> N \<Longrightarrow> \<not> may \<Longrightarrow> k + n < 1000000"
  shows "libc_call may N bump_libc (bump_in P) (bump_in P')"
  unfolding libc_call_def
proof (intro conjI allI impI)
  fix h m and n :: u32
  assume "bump_in P h m" and n: "0 < unat n" "unat n \<le> N"
  then obtain k where k: "h = (k, m)" "bump_rep (k, m) m" "P k" by (elim bump_inE)
  show "\<exists>r h'. malloc bump_libc n h = Some (r, h')
      \<and> (may \<and> r = 0 \<and> bump_in P' h' m \<or> (\<exists>a c. r = w32 a \<and> r \<noteq> 0 \<and> m a = None \<and> bump_in P' h' (m(a \<mapsto> c))))"
  proof (cases "k + unat n < 1000000")
    case True
    note new = bump_alloc_new [OF k(2) n(1) True]
    have "bump_in P' (k + unat n, m(k \<mapsto> unat n)) (m(k \<mapsto> unat n))"
      using new(4) used [OF k(3) n(2) True] by (simp add: bump_in_def)
    with new(1-3) show ?thesis unfolding k(1) bump_libc_def libc.simps by blast
  next
    case False
    then show ?thesis using room [OF k(3) n(2)] same [OF k(3)] k(2)
      by (auto simp: k(1) bump_libc_def bump_alloc_def bump_in_def)
  qed
next
  fix h m a c and n :: u32
  assume "bump_in P h m" and a: "m a = Some c" and n: "0 < unat n" "unat n \<le> N"
  then obtain k where k: "h = (k, m)" "bump_rep (k, m) m" "P k" by (elim bump_inE)
  have a': "unat (w32 a) = a" "a < k" using bump_live [OF k(2) a] by blast+
  show "\<exists>r h'. realloc bump_libc (w32 a) n h = Some (r, h')
      \<and> (may \<and> r = 0 \<and> bump_in P' h' m \<or> (\<exists>b d. r = w32 b \<and> r \<noteq> 0 \<and> (m(a := None)) b = None
           \<and> bump_in P' h' ((m(a := None))(b \<mapsto> d))))"
  proof (cases "k + unat n < 1000000")
    case True
    note new = bump_alloc_new [OF k(2) n(1) True]
    let ?m = "(m(a := None))(k \<mapsto> unat n)"
    have "bump_in P' (k + unat n, ?m) ?m"
      using new(4) used [OF k(3) n(2) True] by (auto simp: bump_in_def bump_rep_def)
    moreover have "(m(k \<mapsto> unat n))(a := None) = ?m" using a'(2) by (simp add: fun_upd_twist)
    then have "realloc bump_libc (w32 a) n h = Some (w32 k, k + unat n, ?m)"
      using new(1,2) a'(1) by (simp add: k(1) bump_libc_def)
    ultimately show ?thesis using new(2,3) by fastforce
  next
    case False
    then show ?thesis using room [OF k(3) n(2)] same [OF k(3)] k(2)
      by (auto simp: k(1) bump_libc_def bump_alloc_def bump_in_def)
  qed
next
  fix h m a c
  assume "bump_in P h m" and a: "m a = Some c"
  then obtain k where k: "h = (k, m)" "bump_rep (k, m) m" "P k" by (elim bump_inE)
  have "unat (w32 a) = a" using bump_live [OF k(2) a] by blast
  then show "\<exists>h'. free' bump_libc (w32 a) h = Some h' \<and> bump_in P' h' (m(a := None))"
    using a k(2) same [OF k(3)] by (auto simp: k(1) bump_libc_def bump_rep_def bump_in_def)
qed

lemma bump_behaves: "libc_behaves bump_libc bump_rep"
proof -
  have "bump_in (\<lambda>_. True) = bump_rep" by (simp add: bump_in_def fun_eq_iff)
  moreover have "libc_call True N bump_libc (bump_in (\<lambda>_. True)) (bump_in (\<lambda>_. True))" for N
    by (rule bump_call) simp_all
  ultimately show ?thesis by (simp add: libc_behaves_def)
qed

text \<open>The memory for \<open>j\<close> calls of up to \<open>N\<close> bytes.\<close>

definition bump_room :: "nat \<Rightarrow> nat \<Rightarrow> nat \<times> (nat \<rightharpoonup> nat) \<Rightarrow> (nat \<rightharpoonup> nat) \<Rightarrow> bool" where
  "bump_room N j = bump_in (\<lambda>k. k + j * N < 1000000)"

lemma bump_serves: "libc_serves N bump_libc (bump_room N)"
  unfolding libc_serves_def bump_room_def
proof
  fix j
  show "libc_call False N bump_libc (bump_in (\<lambda>k. k + Suc j * N < 1000000)) (bump_in (\<lambda>k. k + j * N < 1000000))"
    by (rule bump_call) auto
qed

lemma bump_room_start: "8 + j * N < 1000000 \<Longrightarrow> bump_room N j (8, Map.empty) Map.empty"
  by (simp add: bump_room_def bump_in_def bump_rep_def)

end
