(* ===== verification/Driver_Claims.thy ===== *)
theory Driver_Claims
  imports Main_Routine Trace_Memory Bump_Library
begin

text \<open>
  The properties of the trace driver and of the timing packages, with examples on which their
  hypotheses hold.
\<close>

section \<open>Examples\<close>

text \<open>A driver about to run, a short trace, and one whose identifier has a low byte of 128.\<close>

definition boot_driver :: driver where
  "boot_driver = mm_state.extend boot (driver.fields 0 [] [])"

definition ex_trace :: trace where
  "ex_trace = \<lparr>sugg_heapsize = 0, num_ids = 1, num_ops = 4, weight = 1,
     ops = [\<lparr>op_type = ALLOC, op_index = 0, op_size = 100\<rparr>, \<lparr>op_type = REALLOC, op_index = 0, op_size = 200\<rparr>,
       \<lparr>op_type = FREE, op_index = 0, op_size = 0\<rparr>, \<lparr>op_type = ALLOC, op_index = 0, op_size = 16\<rparr>],
     blocks = [0], block_sizes = [0]\<rparr>"

definition ex_trace_128 :: trace where
  "ex_trace_128 = \<lparr>sugg_heapsize = 0, num_ids = 129, num_ops = 2, weight = 1,
     ops = [\<lparr>op_type = ALLOC, op_index = 128, op_size = 100\<rparr>, \<lparr>op_type = REALLOC, op_index = 128, op_size = 200\<rparr>],
     blocks = replicate 129 0, block_sizes = replicate 129 0\<rparr>"

lemma boot_driver_ready: "N \<le> 100000000 \<Longrightarrow> driver_ready N boot_driver"
  by (simp add: driver_ready_def boot_driver_def boot_def mm_state.defs driver.defs mem_reset_brk_def
      fresh_heap_def small_requests_def MAX_HEAP_num unat_w32 max_def)

lemma boot_driver_errors [simp]: "errors boot_driver = 0" "report boot_driver = []" "ranges boot_driver = []"
  by (simp_all add: boot_driver_def mm_state.defs driver.defs)

lemmas check_trace = trace_ok_check request_ok_def next_sizes_def domIff room_def MAX_HEAP_num
  misjudged_def low_byte_ok_def

lemma ex_trace_ok: "trace_ok 200 ex_trace" "room 200 ex_trace" "\<forall>op \<in> set (ops ex_trace). \<not> misjudged op"
  by (simp_all add: ex_trace_def check_trace)

lemma ex_trace_128_ok: "trace_ok 200 ex_trace_128" "room 200 ex_trace_128"
    "misjudged (ops ex_trace_128 ! 1)" "length (ops ex_trace_128) = 2"
  by (simp_all add: ex_trace_128_def check_trace)

section \<open>The evaluation of the package\<close>

text \<open>
  C22. \<open>eval_mm_valid\<close> on any well-formed trace, whatever the space: it returns 1 with no error
  counted, or 0 with one error, which is a failed \<open>mm_malloc\<close> or the data check of
  \<open>mm_realloc\<close> on an identifier whose low byte is above 127. No payload is ever rejected as
  unaligned, outside the heap or overlapping another. It faults only in \<open>mm_realloc\<close> and only if
  the storage may not have room for the trace.
\<close>

theorem eval_mm_valid_outcomes:
  assumes "driver_ready N s" "trace_ok N t" "\<forall>i. nodes i \<noteq> 0"
  shows "eval_mm_valid nodes t tn s = None \<and> \<not> room N t
    \<or> (\<exists>t' u. eval_mm_valid nodes t tn s = Some (1, t', u) \<and> errors u = errors s \<and> report u = report s
        \<and> (\<forall>op \<in> set (ops t). \<not> misjudged op) \<and> same_trace t t' \<and> driver_ready N u)
    \<or> (\<exists>t' u. eval_mm_valid nodes t tn s = Some (0, t', u) \<and> complaint N t tn s 0 (t', u))"
  by (rule eval_mm_valid_run [OF assms])

theorem eval_mm_valid_outcomes_witness:
  "\<exists>t' u. eval_mm_valid (\<lambda>_. 8) ex_trace 0 boot_driver = Some (1, t', u) \<and> errors u = 0"
proof -
  have "driver_ready 200 boot_driver" "\<forall>i :: nat. (8 :: u32) \<noteq> 0" by (simp_all add: boot_driver_ready)
  from eval_mm_valid_outcomes [OF this(1) ex_trace_ok(1) this(2), of 0]
  show ?thesis using ex_trace_ok(2,3) by (auto simp: complaint_def)
qed

text \<open>
  C23. When the storage has room, the verdict of \<open>eval_mm_valid\<close> depends on the identifiers only:
  the trace is accepted exactly when no \<^verbatim>\<open>realloc\<close> request has an identifier whose low byte is
  above 127; otherwise the contents of a payload that was kept are reported as lost, since a
  signed \<^verbatim>\<open>char\<close> is compared with a number above 127.
\<close>

theorem eval_mm_valid_verdict:
  assumes "driver_ready N s" "trace_ok N t" "\<forall>i. nodes i \<noteq> 0" "room N t"
  shows "\<exists>t' u. if \<forall>op \<in> set (ops t). \<not> misjudged op
    then eval_mm_valid nodes t tn s = Some (1, t', u) \<and> errors u = errors s \<and> report u = report s
      \<and> same_trace t t' \<and> driver_ready N u
    else eval_mm_valid nodes t tn s = Some (0, t', u) \<and> errors u = errors s + 1 \<and> driver_ready N u \<and> (\<exists>i < length (ops t).
      misjudged (ops t ! i) \<and> report u = report s @ [(tn, LINENUM (int i),
         Message ''mm_realloc did not preserve the data from old block'')])"
  by (rule eval_mm_valid_room [OF assms])

theorem eval_mm_valid_verdict_witness:
  "\<exists>t' u. eval_mm_valid (\<lambda>_. 8) ex_trace_128 0 boot_driver = Some (0, t', u) \<and> errors u = 1"
proof -
  have "driver_ready 200 boot_driver" "\<forall>i :: nat. (8 :: u32) \<noteq> 0" by (simp_all add: boot_driver_ready)
  note verdict = eval_mm_valid_verdict [OF this(1) ex_trace_128_ok(1) this(2) ex_trace_128_ok(2), of 0]
  have "ops ex_trace_128 ! 1 \<in> set (ops ex_trace_128)" by (rule nth_mem) (simp add: ex_trace_128_ok)
  then have "\<not> (\<forall>op \<in> set (ops ex_trace_128). \<not> misjudged op)" using ex_trace_128_ok(3) by blast
  with verdict show ?thesis by (simp only: if_False) auto
qed

text \<open>
  C24. \<open>add_range\<close>: a payload of positive size below the end of memory is entered in the range
  list exactly when it is aligned, inside the heap, and neither of its two ends lies in a range
  of the list; otherwise one error is reported and the list is unchanged.
\<close>

theorem add_range_correct:
  assumes "0 < n" "n < 2147483648" "a + n \<le> 4294967296" "node \<noteq> 0"
    "ranges s = map range_of rs" "ranges_ok rs" "0 < hi s"
  shows "if acceptable s rs a n
    then add_range node (w32 a) (w32 n) tn i s = Some (True, s\<lparr>ranges := map range_of ((a, n) # rs)\<rparr>)
    else \<exists>msg. add_range node (w32 a) (w32 n) tn i s = Some (False, malloc_error tn i msg s)"
  by (rule add_range_verdict [OF assms])

theorem add_range_correct_witness:
  "\<exists>msg. add_range 8 (w32 4096) (w32 16) 0 0 boot_driver = Some (False, malloc_error 0 0 msg boot_driver)"
proof -
  have hi: "hi boot_driver = 4096" "lo boot_driver = 4096"
    by (simp_all add: boot_driver_def boot_def mm_state.defs)
  then have "\<not> acceptable boot_driver [] 4096 16" by (simp add: acceptable_def)
  with add_range_correct [of 16 4096 8 boot_driver "[]" 0 0] hi show ?thesis by (simp add: ranges_ok_def)
qed

text \<open>
  C25. What the overlap check of \<open>add_range\<close> does not see: a payload that contains an older one
  in its inside is entered, although they overlap.
\<close>

theorem add_range_misses_containment:
  assumes "ranges s = [range_of (b, m)]" "0 < m" "a < b" "b + m < a + n"
    "n < 2147483648" "8 dvd a" "lo s \<le> a" "a + n \<le> hi s" "node \<noteq> 0"
  shows "add_range node (w32 a) (w32 n) tn i s = Some (True, s\<lparr>ranges := [range_of (a, n), range_of (b, m)]\<rparr>)"
proof -
  have top: "a + n \<le> 4294967296" "b + m \<le> 4294967296" "0 < hi s" "0 < n"
    using assms(3,4,8) unat_lt32 [of "mem_brk s"] by linarith+
  have "acceptable s [(b, m)] a n" using assms by (auto simp: acceptable_def ends_outside_def)
  with add_range_verdict [OF top(4) assms(5) top(1) assms(9), of s "[(b, m)]" tn i] top assms(1,2)
  show ?thesis by (simp add: ranges_ok_def)
qed

theorem add_range_misses_containment_witness:
  "\<exists>s :: driver. \<exists>s'. ranges s = [range_of (4136, 8)] \<and> add_range 8 (w32 4128) (w32 100) 0 0 s = Some (True, s')"
proof -
  let ?s = "boot_driver\<lparr>mem_brk := w32 8192, ranges := [range_of (4136, 8)]\<rparr>"
  have "lo ?s = 4096" "hi ?s = 8192" "ranges ?s = [range_of (4136, 8)]"
    by (simp_all add: boot_driver_def boot_def mm_state.defs unat_w32)
  with add_range_misses_containment [of ?s 4136 8 4128 100 8 0 0]
  have "add_range 8 (w32 4128) (w32 100) 0 0 ?s
      = Some (True, ?s\<lparr>ranges := [range_of (4128, 100), range_of (4136, 8)]\<rparr>)" by simp
  with \<open>ranges ?s = [range_of (4136, 8)]\<close> show ?thesis by blast
qed

text \<open>
  C26. \<open>eval_mm_util\<close> on a well-formed trace with room: the quotient of the largest number of
  payload bytes the requests ever hold and the size of the heap afterwards, which is at least
  that number, so that the utilization is at most 1. The \<open>int\<close> counters do not overflow.
\<close>

theorem eval_mm_util_correct:
  assumes "driver_ready N s" "trace_ok N t" "room N t"
  shows "\<exists>t' u. eval_mm_util t s
      = Some (Inr (of_nat (high_water (unat (num_ids t)) (ops t) (length (ops t))) / of_nat (hi u - lo u), t', u))
    \<and> high_water (unat (num_ids t)) (ops t) (length (ops t)) \<le> hi u - lo u
    \<and> lo u + 4240 \<le> hi u \<and> hi u \<le> lo u + 4240 + length (ops t) * max (N + 39) 4096
    \<and> same_trace t t' \<and> driver_ready N u"
  by (rule eval_mm_util_room [OF assms]) blast

lemma ex_trace_high_water: "high_water 1 (ops ex_trace) (length (ops ex_trace)) = 200"
proof -
  have "length (ops ex_trace) = Suc (Suc (Suc (Suc 0)))" by (simp add: ex_trace_def)
  then show ?thesis
    by (simp add: high_water_Suc) (simp add: ex_trace_def sizes_after_def next_sizes_def total_def)
qed

theorem eval_mm_util_correct_witness:
  "\<exists>t' u. eval_mm_util ex_trace boot_driver = Some (Inr (200 / of_nat (hi u - lo u), t', u))
    \<and> 4240 \<le> hi u - lo u"
proof -
  have "unat (num_ids ex_trace) = 1" by (simp add: ex_trace_def)
  note w = eval_mm_util_correct [OF _ ex_trace_ok(1,2), unfolded this ex_trace_high_water]
  have "driver_ready 200 boot_driver" by (simp add: boot_driver_ready)
  from w [OF this] obtain t' u where "eval_mm_util ex_trace boot_driver
      = Some (Inr (of_nat 200 / of_nat (hi u - lo u), t', u))" "lo u + 4240 \<le> hi u" by blast
  moreover from this(2) have "4240 \<le> hi u - lo u" by simp
  ultimately show ?thesis by (intro exI [of _ t'] exI [of _ u]) (simp only: of_nat_numeral simp_thms)
qed

text \<open>
  C27. The run that is timed is the run that was measured: whenever \<open>eval_mm_util\<close> completes,
  \<open>eval_mm_speed\<close> from the same state completes, in the same state of the allocator and with the
  same \<open>blocks\<close> array; it only leaves \<open>block_sizes\<close> as it was.
\<close>

theorem eval_mm_speed_same_run:
  assumes "eval_mm_util t s = Some (Inr (q, t', u))"
  shows "eval_mm_speed t s = Some (Inr (t'\<lparr>block_sizes := block_sizes t\<rparr>, u))"
  by (rule eval_mm_speed_util [OF assms])

theorem eval_mm_speed_same_run_witness:
  "\<exists>t' u. eval_mm_speed ex_trace boot_driver = Some (Inr (t', u))"
proof -
  have "driver_ready 200 boot_driver" by (simp add: boot_driver_ready)
  from eval_mm_util_room [OF this ex_trace_ok(1,2)] eval_mm_speed_same_run show ?thesis by metis
qed

section \<open>The library's allocator\<close>

text \<open>
  C28. \<open>eval_libc_valid\<close>, given a library that behaves as the C standard says: on a well-formed
  trace the library is never asked to resize or release a pointer that is not live; the run
  ends with 1, the driver unchanged and the pointers of the trace live, or at a failed call,
  which is reported first.
\<close>

theorem eval_libc_valid_correct:
  assumes "libc_behaves L rep" "trace_ok N t" "rep h m"
  shows "(\<exists>t' h'. eval_libc_valid L t tn h s = Some (Inr (1, t', h', s)) \<and> libc_inv rep (dom m) t (length (ops t)) t' h')
    \<or> (\<exists>s'. eval_libc_valid L t tn h s = Some (Inl (''System message'', s'))
        \<and> libc_failed tn (length (ops t)) s s')"
  by (rule eval_libc_valid_run [OF assms])

theorem eval_libc_valid_correct_witness:
  "eval_libc_valid bump_libc ex_trace 0 (8, Map.empty) boot_driver \<noteq> None"
proof -
  have "bump_rep (8, Map.empty) Map.empty" by (simp add: bump_rep_def)
  from eval_libc_valid_correct [OF bump_behaves ex_trace_ok(1) this, of 0 boot_driver] show ?thesis by auto
qed

section \<open>Trace files\<close>

text \<open>
  C29. Reading a trace file gives back what was printed: for a header that fits its types, as
  many requests as announced, a highest identifier one below the number announced, and a C library
  that grants the storage, \<open>read_trace\<close> of the printed trace returns the same header and the same
  requests (the size of a \<^verbatim>\<open>free\<close> request is not stored), with arrays of the length announced, in
  the storage the library returned.
\<close>

theorem read_trace_roundtrip:
  assumes "header_ok t" "length (ops t) = unat (num_ops t)" "highest (ops t) 0 = num_ids t - 1"
    "serves E (dir @ name) (print_trace t)" "alloc_trace L (num_ops t) (num_ids t) h = Some (Inr (st, h'))"
  shows "\<exists>u. read_trace L E dir name h = Some (Inr (u, st, h')) \<and> sugg_heapsize u = sugg_heapsize t
    \<and> num_ids u = num_ids t \<and> num_ops u = num_ops t \<and> weight u = weight t
    \<and> list_all2 same_request (ops t) (ops u)
    \<and> length (blocks u) = unat (num_ids t) \<and> length (block_sizes u) = unat (num_ids t)"
  by (rule read_trace_print [OF assms])

definition one_file :: "string \<Rightarrow> surroundings" where
  "one_file s = \<lparr>files = (\<lambda>path. if path = ''./t'' then Some s else None),
     fresh_trace = ex_trace, fresh_op = (\<lambda>_. \<lparr>op_type = FREE, op_index = 7, op_size = 7\<rparr>),
     fresh_word = (\<lambda>_ _. 7), fresh_size = 7\<rparr>"

lemma one_file_serves: "serves (one_file s) (''./'' @ ''t'') s"
  by (simp add: serves_def one_file_def MAXLINE_def)

lemma ex_trace_header: "header_ok ex_trace" "length (ops ex_trace) = unat (num_ops ex_trace)"
    "highest (ops ex_trace) 0 = num_ids ex_trace - 1"
  by (simp_all add: header_ok_def ex_trace_def highest_def)

text \<open>The example of a library has the memory for small traces.\<close>

lemma bump_storage:
  assumes "storable 200 nops nids"
  obtains st h' where "alloc_trace bump_libc nops nids (8, Map.empty) = Some (Inr (st, h'))"
proof -
  have "bump_room 200 (0 + 4) (8, Map.empty) Map.empty" by (rule bump_room_start) simp
  from alloc_trace_served [where rep = "bump_room 200", OF bump_serves this assms] that show ?thesis by blast
qed

lemma ex_trace_storable: "storable 200 (num_ops ex_trace) (num_ids ex_trace)"
    "storable 200 3 (num_ids ex_trace)"
  by (simp_all add: storable_def ex_trace_def)

theorem read_trace_roundtrip_witness:
  "\<exists>u st h. read_trace bump_libc (one_file (print_trace ex_trace)) ''./'' ''t'' (8, Map.empty) = Some (Inr (u, st, h))
    \<and> list_all2 same_request (ops ex_trace) (ops u)"
proof -
  obtain st h where "alloc_trace bump_libc (num_ops ex_trace) (num_ids ex_trace) (8, Map.empty) = Some (Inr (st, h))"
    by (rule bump_storage [OF ex_trace_storable(1)])
  from read_trace_roundtrip [OF ex_trace_header one_file_serves this] show ?thesis by blast
qed

text \<open>
  C30. A file with more requests than its header announces is not caught by the assertion at the
  end of \<open>read_trace\<close>: the request past the announced number is written past the end of the
  array.
\<close>

theorem read_trace_overruns:
  assumes "header_ok t" "unat (num_ops t) < length (ops t)" "serves E (dir @ name) (print_trace t)"
    "alloc_trace L (num_ops t) (num_ids t) h = Some (Inr (st, h'))"
  shows "read_trace L E dir name h = None"
  by (rule read_trace_too_many [OF assms])

theorem read_trace_overruns_witness:
  "read_trace bump_libc (one_file (print_trace (ex_trace\<lparr>num_ops := 3\<rparr>))) ''./'' ''t'' (8, Map.empty) = None"
proof -
  let ?t = "ex_trace\<lparr>num_ops := 3\<rparr>"
  have "num_ops ?t = 3" "num_ids ?t = num_ids ex_trace" by simp_all
  then obtain st h where a: "alloc_trace bump_libc (num_ops ?t) (num_ids ?t) (8, Map.empty) = Some (Inr (st, h))"
    using bump_storage [OF ex_trace_storable(2)] by metis
  have "header_ok (ex_trace\<lparr>num_ops := 3\<rparr>)"
    "unat (num_ops (ex_trace\<lparr>num_ops := 3\<rparr>)) < length (ops (ex_trace\<lparr>num_ops := 3\<rparr>))"
    by (simp_all add: header_ok_def ex_trace_def)
  from read_trace_overruns [OF this one_file_serves a] show ?thesis .
qed

text \<open>
  C31. A request line of an unknown type ends the program with a message that names the
  character and the file, whatever follows it.
\<close>

theorem read_trace_bogus_type:
  assumes "header_ok t" "length (ops t) \<le> unat (num_ops t)"
    "c \<notin> {CHR ''a'', CHR ''r'', CHR ''f''}" "\<not> is_space c"
    "serves E (dir @ name) (print_trace t @ c # newline # s)"
    "alloc_trace L (num_ops t) (num_ids t) h = Some (Inr (st, h'))"
  shows "read_trace L E dir name h
    = Some (Inl (''Bogus type character ('' @ [c] @ '') in tracefile '' @ dir @ name))"
  by (rule read_trace_bogus [OF assms])

theorem read_trace_bogus_type_witness:
  "read_trace bump_libc (one_file (print_trace ex_trace @ CHR ''x'' # newline # ''1'')) ''./'' ''t'' (8, Map.empty)
    = Some (Inl ''Bogus type character (x) in tracefile ./t'')"
proof -
  obtain st h where "alloc_trace bump_libc (num_ops ex_trace) (num_ids ex_trace) (8, Map.empty) = Some (Inr (st, h))"
    by (rule bump_storage [OF ex_trace_storable(1)])
  from read_trace_bogus_type [OF ex_trace_header(1) _ _ _ one_file_serves this, of "CHR ''x''" "''1''"] ex_trace_header(2)
  show ?thesis by (simp add: is_space_def)
qed

section \<open>Timing\<close>

text \<open>
  C32. \<open>get_counter\<close> returns the cycles since \<open>start_counter\<close>: the difference of the two 64-bit
  counts modulo \<open>2 ^ 64\<close>, computed in two halves with a borrow. (The result is the value of the 80-bit
  register in which the x86 forms and returns it, which is exact.)
\<close>

theorem get_counter_correct:
  assumes "cycle_count (cyc_hi c) (cyc_lo c) = t0" "access_counter M (world c) = ((h, l), w)"
  shows "get_counter M c = (of_nat ((cycle_count h l + 18446744073709551616 - t0) mod 18446744073709551616),
    c\<lparr>world := w\<rparr>)"
  by (rule get_counter_elapsed [OF assms])

text \<open>A machine whose world is its cycle counter, and which grants all memory.\<close>

definition ex_os :: "nat os" where
  "ex_os = \<lparr>access_counter = (\<lambda>w. ((w32 (w div 4294967296), w32 w), w + 100)),
     alpha_counter = (\<lambda>w. (w32 w, w + 100)), tms_utime = (\<lambda>w. (0, w)), sleep = (\<lambda>_ w. w),
     grant = (\<lambda>_ w. (4096, w)), fresh_words = (\<lambda>_ _. 0), gettimeofday = (\<lambda>w. ((int w, 0), w + 100)),
     setitimer = (\<lambda>_ _ w. w), getitimer = (\<lambda>_ w. ((0, 0), w))\<rparr>"

definition ex_bench :: "'w \<Rightarrow> 'w bench" where
  "ex_bench w = \<lparr>world = w, cyc_hi = 0, cyc_lo = 0, cyc_per_tick = 0, start_tick = 0, kbest = 3,
     maxsamples = 20, epsilon = 1 / 100, compensate = False, clear_cache = False, cache_bytes = 524288,
     cache_block = 32, cache_buf = None, vals = None, samplecount = 0, sink = 0,
     first_u = (0, 0), first_r = (0, 0), first_p = (0, 0), Mhz = 0\<rparr>"

theorem get_counter_correct_witness:
  "fst (get_counter ex_os ((ex_bench 4294967300)\<lparr>cyc_lo := 4294967295\<rparr>)) = 5"
proof -
  have "access_counter ex_os (world ((ex_bench 4294967300)\<lparr>cyc_lo := 4294967295\<rparr>)) = ((1, 4), 4294967400)"
    by (simp add: ex_os_def ex_bench_def w32_def)
  from get_counter_correct [OF _ this, of 4294967295] show ?thesis
    by (simp add: ex_bench_def cycle_count_def)
qed

text \<open>
  C33. The version for the Alpha, whose counter has 32 bits: if the counter did not wrap between
  the two readings the result is exactly the cycles that passed. If it did, the borrow goes into the
  high word, and the result is a \<open>double\<close> near \<open>2 ^ 64\<close>: the \<open>2 ^ 32 + l - cyc_lo\<close> cycles that passed
  plus \<open>2 ^ 64 - 2 ^ 32\<close>, rounded to a multiple of 2048, which moves it by at most 1024.
\<close>

theorem get_counter_alpha_wraps:
  assumes "cyc_hi c = 0" "alpha_counter M (world c) = (l, w)"
  shows "\<exists>x. get_counter_alpha M c = (of_nat x, c\<lparr>world := w\<rparr>)
    \<and> (if unat (cyc_lo c) \<le> unat l then x = unat l - unat (cyc_lo c)
       else 2048 dvd x \<and> x \<le> 18446744069414584320 + (unat l + 4294967296 - unat (cyc_lo c)) + 1024
         \<and> 18446744069414584320 + (unat l + 4294967296 - unat (cyc_lo c)) \<le> x + 1024)"
  by (rule get_counter_alpha_elapsed [OF assms])

theorem get_counter_alpha_wraps_witness:
  "fst (get_counter_alpha ex_os ((ex_bench 4294967300)\<lparr>cyc_lo := 4294967295\<rparr>)) = 18446744069414584320
    \<and> fst (get_counter_alpha ex_os ((ex_bench 4294967300)\<lparr>cyc_lo := 1\<rparr>)) = 3"
proof -
  have c: "alpha_counter ex_os (world ((ex_bench 4294967300)\<lparr>cyc_lo := l\<rparr>)) = (4, 4294967400)"
    "cyc_hi ((ex_bench 4294967300)\<lparr>cyc_lo := l\<rparr>) = 0" for l
    by (simp_all add: ex_os_def ex_bench_def w32_def)
  have l: "unat (cyc_lo ((ex_bench 4294967300)\<lparr>cyc_lo := l\<rparr>)) = unat l" for l
    by (simp add: ex_bench_def)
  from get_counter_alpha_wraps [OF c(2,1), of 4294967295, unfolded l] obtain x where
    x: "fst (get_counter_alpha ex_os ((ex_bench 4294967300)\<lparr>cyc_lo := 4294967295\<rparr>)) = of_nat x" "2048 dvd x"
    "x \<le> 18446744069414584320 + 5 + 1024" "18446744069414584320 + 5 \<le> x + 1024"
    by auto
  from x(2) obtain k where "x = 2048 * k" by (rule dvdE)
  with x(3,4) have "x = 18446744069414584320" by simp
  with x(1) get_counter_alpha_wraps [OF c(2,1), of 1, unfolded l] show ?thesis by auto
qed

text \<open>
  C34. The sampler: \<open>add_sample\<close> keeps in its array the K smallest of all samples so far, in
  increasing order.
\<close>

theorem add_sample_k_best:
  assumes "keeps xs s"
  shows "\<exists>vs. add_sample v s = Some (s\<lparr>vals := Some vs, samplecount := samplecount s + 1\<rparr>)
    \<and> length vs = nat (kbest s) \<and> take (Suc (length xs)) vs = take (nat (kbest s)) (sort (xs @ [v]))
    \<and> keeps (xs @ [v]) (s\<lparr>vals := Some vs, samplecount := samplecount s + 1\<rparr>)"
  using add_sample_keeps [OF assms, of v] by (auto simp: keeps_def)

theorem add_sample_k_best_witness:
  "\<exists>s :: nat bench. \<exists>vs. keeps [5, 2, 9] s \<and> vals s = Some [2, 5, 9]
    \<and> vals (the (add_sample 3 s)) = Some vs \<and> vs = [2, 3, 5]"
proof -
  let ?s = "(ex_bench (0 :: nat))\<lparr>vals := Some [2, 5, 9], samplecount := 3\<rparr>"
  have s: "keeps [5, 2, 9] ?s" "kbest ?s = 3" by (simp_all add: keeps_def ex_bench_def)
  from add_sample_k_best [OF s(1), of 3] obtain vs where vs:
    "add_sample 3 ?s = Some (?s\<lparr>vals := Some vs, samplecount := samplecount ?s + 1\<rparr>)"
    "length vs = nat (kbest ?s)" "take (Suc (length [5, 2, 9 :: rat])) vs = take (nat (kbest ?s)) (sort ([5, 2, 9] @ [3]))"
    by blast
  then have "vs = [2, 3, 5]" using s(2) by simp
  with vs(1) s(1) show ?thesis by (intro exI [of _ ?s] exI [of _ vs]) simp
qed

text \<open>
  C35. \<open>fcyc\<close> returns, for a function that always returns, memory that is granted and, when it
  compensates for timer interrupts, a known rate of them. (\<open>ready\<close>: when it clears the cache before each
  round, the size of a cache block, as a signed number, is that of an \<open>int\<close> or more, and the buffer ends
  a block before the end of the address space.) The loop ends after at most \<open>maxsamples\<close> rounds
  (at least one), and the result is the smallest of the samples of these rounds. It ends earlier
  only if the K smallest have converged.
\<close>

theorem fcyc_terminates:
  assumes "\<forall>w. \<exists>w'. f w = Some w'" "ready H s" "1 \<le> kbest s" "kbest s < 536870912"
    "compensate s \<longrightarrow> cyc_per_tick s \<noteq> 0"
  shows "\<exists>ys t. fcyc H f s = Some (Min (set ys), t\<lparr>vals := None\<rparr>)
    \<and> measure_rounds H f (compensate s) (length ys) (init_sampler H s) = Some (ys, t)
    \<and> ys \<noteq> [] \<and> int (length ys) \<le> max 1 (maxsamples s)
    \<and> (converged (epsilon s) (kbest s) ys \<or> maxsamples s \<le> int (length ys))"
  by (rule fcyc_ok [OF assms])

theorem fcyc_terminates_witness:
  "\<exists>x t. fcyc ex_os (\<lambda>w. Some (w + 1)) ((ex_bench 0)\<lparr>clear_cache := True\<rparr>) = Some (x, t)"
proof -
  have "ready ex_os ((ex_bench 0)\<lparr>clear_cache := True\<rparr>)"
    by (simp add: ready_def block_away_def ex_os_def ex_bench_def)
  from fcyc_terminates [OF _ this, of "\<lambda>w. Some (w + 1)"] show ?thesis
    by (auto simp: ex_bench_def)
qed

text \<open>
  C36. \<open>clear\<close>, with its buffer in place (of less than 2 GB, not wrapping around the address space),
  returns exactly when the buffer holds no \<open>int\<close>, or the pointer advances by at least one \<open>int\<close> and the
  first address past the buffer that it reaches is below \<open>2 ^ 32\<close>. With a block of 0 to 3 bytes it
  never moves; with one of -4 bytes it steps back, out of the buffer; with a block so large that
  the addition wraps it reads below the buffer.
\<close>

theorem clear_returns_iff:
  assumes "cache_buf s = Some (p, buf)" "length buf = unat (ints (cache_bytes s))"
    "length buf < 536870912" "unat p + 4 * length buf < 4294967296"
  shows "(\<exists>t. clear H s = Some t) \<longleftrightarrow>
    buf = [] \<or> 0 < stride s \<and> unat p + 4 * stop_at (stride s) (length buf) < 4294967296"
  by (rule clear_returns [OF assms])

text \<open>A buffer of two \<open>int\<close>s at address 4096, and blocks of 3, -4 and 32 bytes.\<close>

definition ex_cache :: "int \<Rightarrow> nat bench" where
  "ex_cache b = (ex_bench 0)\<lparr>cache_bytes := 8, cache_block := b, cache_buf := Some (4096, [1, 2])\<rparr>"

lemma ex_cache: "cache_buf (ex_cache b) = Some (4096, [1, 2])" "cache_bytes (ex_cache b) = 8"
    "unat (ints 8) = 2" "stride (ex_cache b) = unat (ints b)"
    "unat (ints 3) = 0" "unat (ints (- 4)) = 1073741823" "unat (ints 32) = 8"
  by (simp_all add: ex_cache_def stride_def ints_def)

theorem clear_returns_iff_witness:
  "clear ex_os (ex_cache 3) = None \<and> clear ex_os (ex_cache (- 4)) = None
    \<and> (\<exists>t. clear ex_os (ex_cache 32) = Some t)"
proof -
  have "(\<exists>t. clear ex_os (ex_cache b) = Some t) \<longleftrightarrow> 0 < unat (ints b)
      \<and> unat (4096 :: u32) + 4 * stop_at (unat (ints b)) (length [1, 2 :: u32]) < 4294967296"
    for b using clear_returns_iff [OF ex_cache(1), of b ex_os] by (simp add: ex_cache(2-4))
  from this [of 3] this [of "- 4"] this [of 32] show ?thesis by (simp add: ex_cache(5-7) stop_at_def)
qed

section \<open>The whole driver\<close>

text \<open>
  C37. The storage of a trace: when a trace has been read, replayed on the C library's allocator
  and freed again, every block of the library that was live before still is, and if the trace
  releases all it allocates, no other block is: \<open>free_trace\<close> gives back the four objects that
  \<open>read_trace\<close> obtained, in an order in which each of them is still live.
\<close>

theorem trace_storage_returned:
  assumes "libc_behaves L rep" "rep h m"
    "read_trace L E dir name h = Some (Inr (t, st, h1))" "trace_ok N t"
    "0 < unat (num_ops t * 12)" "0 < unat (num_ids t * 4)"
    "eval_libc_valid L t tn h1 s = Some (Inr (v, t', h2, s'))"
  shows "\<exists>h3 m'. free_trace L st h2 = Some h3 \<and> rep h3 m' \<and> dom m \<subseteq> dom m'
    \<and> (sizes_after (ops t) = Map.empty \<longrightarrow> dom m' = dom m)"
  by (rule trace_storage [OF assms])

definition ex_trace_bal :: trace where
  "ex_trace_bal = \<lparr>sugg_heapsize = 0, num_ids = 1, num_ops = 2, weight = 1,
     ops = [\<lparr>op_type = ALLOC, op_index = 0, op_size = 100\<rparr>, \<lparr>op_type = FREE, op_index = 0, op_size = 0\<rparr>],
     blocks = [0], block_sizes = [0]\<rparr>"

lemma ex_trace_bal_ok: "trace_ok 200 ex_trace_bal" "sizes_after (ops ex_trace_bal) = Map.empty"
  by (simp_all add: ex_trace_bal_def check_trace sizes_after_def)

lemma ex_trace_bal_header: "header_ok ex_trace_bal" "length (ops ex_trace_bal) = unat (num_ops ex_trace_bal)"
    "highest (ops ex_trace_bal) 0 = num_ids ex_trace_bal - 1" "num_ops ex_trace_bal = 2" "num_ids ex_trace_bal = 1"
  by (simp_all add: header_ok_def ex_trace_bal_def highest_def)

theorem trace_storage_returned_witness:
  "\<exists>t st h1 t' h2 h3. read_trace bump_libc (one_file (print_trace ex_trace_bal)) ''./'' ''t'' (8, [4 \<mapsto> 4])
      = Some (Inr (t, st, h1))
    \<and> eval_libc_valid bump_libc t 0 h1 boot_driver = Some (Inr (1, t', h2, boot_driver))
    \<and> free_trace bump_libc st h2 = Some h3 \<and> dom (snd h3) = {4}"
proof -
  let ?h = "(8 :: nat, [4 \<mapsto> 4 :: nat])" and ?E = "one_file (print_trace ex_trace_bal)"
  have r: "bump_rep ?h [4 \<mapsto> 4]" by (simp add: bump_rep_def)
  then have "bump_room 200 (2 + 4) ?h [4 \<mapsto> 4]" by (simp add: bump_room_def bump_in_def)
  moreover have "storable 200 (num_ops ex_trace_bal) (num_ids ex_trace_bal)"
    by (simp add: ex_trace_bal_header storable_def)
  ultimately obtain st h1 m1 where
    1: "alloc_trace bump_libc (num_ops ex_trace_bal) (num_ids ex_trace_bal) ?h = Some (Inr (st, h1))"
      "bump_room 200 2 h1 m1" using alloc_trace_served [where rep = "bump_room 200", OF bump_serves] by blast
  from read_trace_print [OF ex_trace_bal_header(1-3) one_file_serves 1(1)] obtain t where
    t: "read_trace bump_libc ?E ''./'' ''t'' ?h = Some (Inr (t, st, h1))" "num_ids t = num_ids ex_trace_bal"
      "num_ops t = num_ops ex_trace_bal" "list_all2 same_request (ops ex_trace_bal) (ops t)"
      "length (blocks t) = unat (num_ids ex_trace_bal)" "length (block_sizes t) = unat (num_ids ex_trace_bal)" by blast
  have ok: "trace_ok 200 t" by (rule trace_ok_same [OF ex_trace_bal_ok(1) t(2-6)])
  have len: "length (ops t) = 2" "length (ops ex_trace_bal) = 2"
    using t(4) ex_trace_bal_header(2,4) by (simp_all add: list_all2_lengthD [symmetric])
  then have bal: "sizes_after (ops t) = Map.empty"
    using same_requests_sizes [OF t(4), of 2] ex_trace_bal_ok(2) by simp
  have "bump_room 200 (0 + length (ops t)) h1 m1" unfolding len(1) add_0 by (rule 1(2))
  from eval_libc_valid_served [where rep = "bump_room 200", OF bump_serves ok this, of 0 boot_driver]
  obtain t' h2 where v: "eval_libc_valid bump_libc t 0 h1 boot_driver = Some (Inr (1, t', h2, boot_driver))" by blast
  have "0 < unat (num_ops t * 12)" "0 < unat (num_ids t * 4)" by (simp_all add: t(2,3) ex_trace_bal_header)
  from trace_storage_returned [where rep = bump_rep, OF bump_behaves r t(1) ok this v] bal
  obtain h3 m' where 3: "free_trace bump_libc st h2 = Some h3" "bump_rep h3 m'" "dom m' = {4}"
    by (auto simp del: fun_upd_apply)
  then have "dom (snd h3) = {4}" by (simp add: bump_rep_def)
  with t(1) v 3(1) show ?thesis by blast
qed

text \<open>
  C38. The evaluation of the package on a list of trace files, from the files to the statistics,
  with the timer \<^verbatim>\<open>config.h\<close> selects: if every file holds a well-formed trace for which the
  storage has room and no identifier that the data check misjudges, and the C library has the memory
  for eight calls per trace, then no run fails, every trace is found valid, with a utilization
  between 0 and 1, no error is counted, and no more than those calls were made.
\<close>

theorem mm_traces_correct:
  assumes "undisturbed H" "\<forall>i. nodes i \<noteq> 0" "good_files N E dir i fs ts" "driver_ready N (snd (snd (world s)))"
    "library_ready N M L rep ts" "rep (K + 8 * length ts) (fst (fst (world s))) m"
  shows "\<exists>sts s' m'. mm_traces L config_timer H nodes E dir i fs s = Some (Inr (sts, s'))
      \<and> length sts = length fs \<and> (\<forall>st \<in> set sts. good_stats st)
      \<and> errors (snd (snd (world s'))) = errors (snd (snd (world s))) \<and> rep K (fst (fst (world s'))) m'"
  by (rule mm_traces_ok [OF assms])

definition ex_memory_os :: "'e memory os" where
  "ex_memory_os = \<lparr>access_counter = (\<lambda>w. ((0, 0), w)), alpha_counter = (\<lambda>w. (0, w)), tms_utime = (\<lambda>w. (0, w)),
     sleep = (\<lambda>_ w. w), grant = (\<lambda>_ w. (4096, w)), fresh_words = (\<lambda>_ _. 0),
     gettimeofday = (\<lambda>w. ((0, 0), w)), setitimer = (\<lambda>_ _ w. w), getitimer = (\<lambda>_ w. ((0, 0), w))\<rparr>"

lemma ex_ready: "library_ready 200 200 bump_libc (bump_room 200) [ex_trace]"
    "library_ready 200 200 bump_libc (bump_room 200) [ex_trace, ex_trace]"
  by (simp_all add: library_ready_def bump_serves ex_trace_storable)

lemma ex_memory_undisturbed: "undisturbed (ex_memory_os :: ('h \<times> 'f) memory os)"
  by (simp add: undisturbed_def ex_memory_os_def)

theorem mm_traces_correct_witness:
  "\<exists>sts s'. mm_traces bump_libc config_timer ex_memory_os (\<lambda>_. 8) (\<lambda>_. one_file (print_trace ex_trace)) ''./'' 0 [''t'', ''t'']
      (ex_bench (((8, Map.empty), ()), ex_trace, boot_driver)) = Some (Inr (sts, s'))
    \<and> length sts = 2 \<and> (\<forall>st \<in> set sts. good_stats st)"
proof -
  let ?s = "ex_bench (((8 :: nat, Map.empty :: nat \<rightharpoonup> nat), ()), ex_trace, boot_driver)"
  have g: "fit_trace 200 ex_trace" "\<not> misjudges ex_trace"
    unfolding fit_trace_def misjudges_def using ex_trace_ok ex_trace_header by blast+
  have files: "good_files 200 (\<lambda>_. one_file (print_trace ex_trace)) ''./'' 0 [''t'', ''t''] [ex_trace, ex_trace]"
    using g one_file_serves [of "print_trace ex_trace"] by (simp only: good_files_def fit_files.simps simp_thms list.set ball_simps)
  have "bump_room 200 16 (8, Map.empty) Map.empty" by (rule bump_room_start) simp
  then have "driver_ready 200 (snd (snd (world ?s)))"
    "bump_room 200 (0 + 8 * length [ex_trace, ex_trace]) (fst (fst (world ?s))) Map.empty"
    by (simp_all add: ex_bench_def boot_driver_ready)
  from mm_traces_correct [where rep = "bump_room 200" and nodes = "\<lambda>_. 8",
    OF ex_memory_undisturbed _ files this(1) ex_ready(2) this(2)] show ?thesis by auto
qed

text \<open>
  C39. The program from its arguments to its exit, with the timer \<^verbatim>\<open>config.h\<close> selects and a clock
  that does not go back: if the trace files the options choose hold well-formed traces for which the
  storage has room, and the C library has the memory for the calls the run makes, then \<open>main\<close> exits
  with 0. The statistics it prints are those of the traces; for the library, where its evaluation is
  asked for, every trace is valid; for the package a trace is found correct unless it has an
  identifier that the data check misjudges, and each such trace is one error; the performance index
  is a number between 0 and 100, and 0 if there is an error.
\<close>

theorem driver_main_correct:
  assumes "undisturbed H" "clock_forward H" "\<forall>i. nodes i \<noteq> 0" "storage_ok N storage" "snd G"
    "parse_options args default_options = Some (Inr opt)"
    "fit_files N E (tracedir opt) 0 (chosen_tracefiles opt) ts"
    "library_ready N M L rep ts" "rep (calls opt ts) (fst (fst (world s))) m"
    "run_libc opt \<Longrightarrow> fst G" "run_libc opt \<Longrightarrow> fit_files N E' (tracedir opt) 0 (chosen_tracefiles opt) ts"
    "error_count s = 0" "errs = of_nat (length (filter misjudges ts))"
  shows "\<exists>lsts sts x. driver_main G L config_timer H nodes storage contents E' E args s
      = Some (0, preamble opt @ libc_printed opt lsts @ summary opt errs sts)
    \<and> (run_libc opt \<longrightarrow> list_all2 libc_stats_of ts lsts)
    \<and> list_all2 (stats_of H) ts sts \<and> numcorrect sts = length (filter (\<lambda>t. \<not> misjudges t) ts)
    \<and> perfindex errs sts = Some x \<and> 0 \<le> x \<and> x \<le> 100 \<and> (errs \<noteq> 0 \<longrightarrow> x = 0)"
  unfolding assms(13) by (rule driver_main_ok [OF assms(1-12)])

text \<open>\<^verbatim>\<open>mdriver -f t -l -g -v\<close>\<close>

theorem driver_main_correct_witness:
  "\<exists>lsts sts x. driver_main (True, True) bump_libc config_timer ex_memory_os (\<lambda>_. 8) 4096 (\<lambda>_. 0)
      (\<lambda>_. one_file (print_trace ex_trace)) (\<lambda>_. one_file (print_trace ex_trace))
      [(CHR ''f'', ''t''), (CHR ''l'', []), (CHR ''g'', []), (CHR ''v'', [])]
      (ex_bench (((8, Map.empty), ()), ex_trace, boot_driver))
    = Some (0, [Team_name ''in'', Member 1 ''ivan nikitovic'' ''in@bu.edu'', Libc_results (printresults 0 lsts),
        Mm_results (printresults 0 sts), Perf_index (Some x), Correct 1, Perfidx (Some x)])
    \<and> map stat_valid lsts = [True] \<and> 0 \<le> x \<and> x \<le> 100"
proof -
  let ?opt = "default_options\<lparr>tracedir := ''./'', tracefiles := Some [''t''], run_libc := True,
    autograder := True, verbosity := 1\<rparr>"
  let ?args = "[(CHR ''f'', ''t''), (CHR ''l'', []), (CHR ''g'', []), (CHR ''v'', [])]"
  let ?s = "ex_bench (((8 :: nat, Map.empty :: nat \<rightharpoonup> nat), ()), ex_trace, boot_driver)"
  let ?E = "\<lambda>_ :: nat. one_file (print_trace ex_trace)"
  have H: "clock_forward ex_memory_os" by (simp add: clock_forward_def ex_memory_os_def)
  have st: "storage_ok 200 4096" by (simp add: storage_ok_def MAX_HEAP_num)
  have p: "parse_options ?args default_options = Some (Inr ?opt)"
    by (simp add: parse_option_def default_options_def)
  have "fit_trace 200 ex_trace" unfolding fit_trace_def using ex_trace_ok ex_trace_header by blast
  then have f: "fit_files 200 ?E (tracedir ?opt) 0 (chosen_tracefiles ?opt) [ex_trace]"
    using one_file_serves [of "print_trace ex_trace"] by (simp add: chosen_tracefiles_def)
  have n: "calls ?opt [ex_trace] = 60" by (simp add: calls_def ex_trace_def)
  have "bump_room 200 60 (8, Map.empty) Map.empty" by (rule bump_room_start) simp
  then have m: "bump_room 200 (calls ?opt [ex_trace]) (fst (fst (world ?s))) Map.empty"
    unfolding n by (simp add: ex_bench_def)
  have "fst (True, True)" "snd (True, True)" "error_count ?s = 0"
    by (simp_all add: error_count_def ex_bench_def)
  from driver_main_correct [where rep = "bump_room 200" and nodes = "\<lambda>_. 8",
    OF ex_memory_undisturbed H _ st this(2) p f ex_ready(1) m this(1) f this(3) refl] ex_trace_ok(3) obtain lsts sts x where
    x: "driver_main (True, True) bump_libc config_timer ex_memory_os (\<lambda>_. 8) 4096 (\<lambda>_. 0) ?E ?E ?args ?s
      = Some (0, preamble ?opt @ libc_printed ?opt lsts @ summary ?opt 0 sts)"
      "list_all2 libc_stats_of [ex_trace] lsts" "numcorrect sts = length [ex_trace]"
      "perfindex 0 sts = Some x" "0 \<le> x" "x \<le> 100" by (fastforce simp: misjudges_def)
  have "preamble ?opt = [Team_name ''in'', Member 1 ''ivan nikitovic'' ''in@bu.edu'']"
    by (simp add: preamble_def team_lines_def team_def default_options_def)
  moreover have "libc_printed ?opt lsts = [Libc_results (printresults 0 lsts)]" by (simp add: libc_printed_def)
  moreover have "summary ?opt 0 sts
      = [Mm_results (printresults 0 sts), Perf_index (Some x), Correct 1, Perfidx (Some x)]"
    using x(3,4) by (simp add: summary_def)
  moreover have "map stat_valid lsts = [True]" using x(2) by (auto simp: list_all2_Cons1 libc_stats_of_def)
  ultimately show ?thesis using x(1,5,6) by auto
qed

text \<open>
  C40. The options keep the driver's directory a path that ends with a slash and fits its
  buffer, and the list of trace files nonempty, whatever options are given in whatever order.
\<close>

theorem options_well_formed:
  assumes "parse_options as default_options = Some (Inr opt)"
  shows "dir_ok opt"
  by (rule parse_options_ok [OF default_options_ok assms])

theorem options_well_formed_witness:
  "\<exists>opt. parse_options [(CHR ''t'', ''abc''), (CHR ''v'', [])] default_options = Some (Inr opt)
    \<and> tracedir opt = ''abc/'' \<and> dir_ok opt"
proof -
  let ?opt = "default_options\<lparr>tracedir := ''abc/'', verbosity := 1\<rparr>"
  have p: "parse_options [(CHR ''t'', ''abc''), (CHR ''v'', [])] default_options = Some (Inr ?opt)"
    by (simp add: parse_option_def default_options_def MAXLINE_def)
  have "tracedir ?opt = ''abc/''" by simp
  with p options_well_formed [OF p] show ?thesis by blast
qed

end
