(* ===== verification/Spec2Isabelle.thy ===== *)
theory Spec2Isabelle
  imports Client Mm_Check Sbrk_Calls Driver_Claims
begin

text \<open>
  A verification of the segregated-list memory allocator in \<^verbatim>\<open>src/mm.c\<close>, of the simulated
  memory system it runs on (\<^verbatim>\<open>src/memlib.c\<close>), and of the driver that checks and times it
  (\<^verbatim>\<open>src/mdriver.c\<close>, \<^verbatim>\<open>fcyc.c\<close>, \<^verbatim>\<open>clock.c\<close>, \<^verbatim>\<open>ftimer.c\<close>, \<^verbatim>\<open>fsecs.c\<close>). The program is built for a
  32-bit machine: a pointer and a \<^verbatim>\<open>size_t\<close> are 32-bit words, and so is an \<^verbatim>\<open>int\<close>, read as a signed
  number where the code compares it as one.

  \<^bold>\<open>The program.\<close> \<open>mem_init\<close> obtains 20 MB of storage from the C library and \<open>mem_sbrk\<close> moves a
  break pointer through it. The allocator keeps in this storage an array of 32 list heads, then
  a row of blocks, each with its size and an allocated bit in a header and a footer. A free
  block is also on one doubly linked list, chosen by its size; the links are in the block itself.
  \<open>mm_malloc\<close> searches the lists from the bucket of the request upwards, or extends the heap;
  \<open>place\<close> splits; \<open>mm_free\<close> merges with free neighbours; \<open>mm_realloc\<close> allocates, copies and frees.
  The driver reads trace files, replays their requests on the package three times, to check
  it, to measure its space and its time, and condenses the results into an index.

  \<^bold>\<open>The theories.\<close>
  \<^item> Alloc_Prelude: words as numbers (\<open>w32\<close>, \<open>unat\<close>, \<open>sint\<close>), the simplification rules all share.
  \<^item> Memlib: \<^verbatim>\<open>memlib.c\<close>. The state is a record of its three pointers, \<open>errno\<close>, the bounds of the
    storage and its contents, a function from addresses to words. \<open>GET\<close> and \<open>PUT\<close> access an
    aligned word inside the storage, also above the break; any other access is undefined, \<open>None\<close>.
  \<^item> Blocks: the constants and macros of \<^verbatim>\<open>mm.c\<close>.
  \<^item> Seglist: the bucket array and its lists (\<open>buckets_init\<close>, \<open>find_bucket\<close>, \<open>find_fit\<close>,
    \<open>add_to_bucket\<close>, \<open>remove_from_bucket\<close>), and that they are lists of block pointers.
  \<^item> Heap_Layout: the abstract heap, a list of blocks \<open>Blk p n u\<close> (pointer, size, in use), and the
    invariant \<open>heap_inv\<close> that ties it to the words of the storage and to the free lists.
  \<^item> Free_Index, Heap_Ops, Place_Extend: which list a block is on; \<open>coalesce\<close>, \<open>place\<close> and
    \<open>extend_heap\<close> as operations on the abstract heap.
  \<^item> Malloc: \<open>mm_init\<close>, \<open>mm_malloc\<close>, \<open>mm_free\<close>, \<open>mm_realloc\<close>, with a lemma for every branch.
  \<^item> Byte_Store: bytes inside words, \<open>memcpy\<close> and \<open>memset\<close>; a locale for a store of bytes and its
    interpretation on the words of the storage.
  \<^item> Allocator: the interface of an allocator as three locales (allocate and release, write,
    resize), with the client's view of its payloads proved correct inside them.
  \<^item> Payloads: the package implements the interface; the interpretations \<open>mm\<close>.
  \<^item> Client: the histories of calls a client can make, as a step relation, and that its view of
    its payloads is right in every reachable state.
  \<^item> Mm_Check: \<open>mm_check\<close>, the printers, by the lines they print, and the self-test \<open>main\<close> of \<^verbatim>\<open>mm.c\<close>.
  \<^item> Sbrk_Calls: sequences of calls of \<^verbatim>\<open>memlib.c\<close>, and the areas they return.
  \<^item> Trace: requests, traces and the state of the driver in \<^verbatim>\<open>mdriver.c\<close>; the loop over the
    requests, with its rule. Requests: what a trace asks for, and how the driver's arrays follow
    the payloads. Ranges: the list of payload extents. Replay: one call of a replay.
  \<^item> Eval_Valid, Eval_Util, Eval_Speed: \<open>eval_mm_valid\<close>, \<open>eval_mm_util\<close>, \<open>eval_mm_speed\<close>.
  \<^item> Libc: the calls of the C library's allocator, a parameter of the driver, and what is relied on:
    \<open>libc_behaves\<close> (the standard; a call may fail) and \<open>libc_serves\<close> (it has the memory for so many
    calls). Bump_Library: an example that fulfils both.
  \<^item> Trace_Memory: the storage of a trace in the C library, obtained (\<open>alloc_arrays\<close>) and given back
    (\<open>free_trace\<close>). Read_Trace: \<open>read_trace\<close>, with the conversions of \<open>fscanf\<close> it uses, and a printer.
  \<^item> Eval_Libc: \<open>eval_libc_valid\<close> and \<open>eval_libc_speed\<close>, for any such library.
  \<^item> Clock, Fcyc, Fsecs: the cycle counters, the K-best scheme, the interval timers and the choice
    between them. The calls of the system are functions on an abstract world.
  \<^item> Driver: options, team check, the loop over the trace files, the performance index.
  \<^item> Main_Routine: the loop for the C library, and \<open>main\<close> from its options to its exit code, with
    what it prints.
  \<^item> Driver_Claims: the properties of the driver (C22 to C40); those of the package (C1 to C21)
    are in this theory.

  \<^bold>\<open>Conventions.\<close> A definition has the name of the C function it models. \<open>None\<close> is a fault: an
  access outside the storage or an array, or through a null pointer. Where a program may also
  exit, the result is a sum whose left side is the message or the exit code; an exit inside a
  function that is timed, and a null pointer from the C library in \<open>add_range\<close> and \<open>clear\<close>, are
  \<open>None\<close> too. Messages are values, where a property speaks of them, and otherwise left out.

  \<^bold>\<open>Loops and bounds.\<close> The searches of the allocator end by their own structure: they are
  \<open>partial_function\<close>s, and the properties state that they return on a sound heap. Loops over arrays
  and requests are recursions on the list; the reader of trace files has a termination proof.
  \<open>clear\<close>, \<open>fcyc\<close> and \<open>callibrate\<close> may run forever and are \<open>partial_function\<close>s; C35 and C36 say
  when the first two return. The pointer of \<open>clear\<close> is a 32-bit address that wraps, and it may read only
  inside its buffer; a cache block of at least one \<open>int\<close> and a buffer a block away from the end of the
  address space (\<open>ready\<close>) are enough. \<open>N\<close> bounds the requests so that no size wraps and no pointer passes
  the end of the address space (\<open>small_requests\<close>); \<open>room\<close> asks that the storage holds the initial
  heap and one extension per request, so that no fragmentation can exhaust it. \<open>calls\<close> counts the calls
  of the C library in a run: eight per trace and loop for its storage, and for the evaluation of the
  library eleven per request, the check and the ten runs that are timed.

  \<^bold>\<open>What the lemmas show.\<close> The invariant \<open>heap_inv\<close> is kept by every operation and every branch has
  its result; the package refines the allocator interface, so that clients read back what they
  wrote; faults and wrap-around are stated where the code has them. Over any sequence of calls
  \<open>mem_sbrk\<close> grants what fits and tiles the heap (C17). For the driver: what its checks
  find on this package, that its measurements are the quantities they should be, that trace files
  are read back as printed, that the sampler keeps the best samples and stops, that the storage of a
  trace is given back, and that \<open>main\<close>, on trace files that fit, exits with the statistics of the traces.

  \<^bold>\<open>Not modelled.\<close> \<open>mem_pagesize\<close>, which returns what the C library does, and the unused macros
  \<open>SIZE_T_SIZE\<close> and \<open>GET_ALLOC_PREV\<close>; the usage text, the messages that only show progress, and the
  digits of the numbers printed; the inline assembly and the counter for unsupported machines, which
  exits. The C library's allocator serves the traces and its own evaluation; its answers to \<open>calloc\<close> for
  the tables, and to \<open>malloc\<close> in \<open>mem_init\<close>, \<open>add_range\<close> and the sampler, are separate parameters.
  A \<^verbatim>\<open>double\<close> is a rational number. The cycle counts of the x86 are formed and returned in an 80-bit
  register, which holds them exactly; the count of the Alpha is rounded to 53 bits (\<open>to_double\<close>). The other values
  are quotients and products of them, whose rounding is not modelled.
\<close>

section \<open>A first call, for the examples\<close>

lemma boot_malloc:
  obtains t u fl fl' where "mm_init boot = Some (0, t)" "mm_malloc (w32 100) t = Some (w32 4248, u)"
    "heap_inv t [Blk 4240 4096 False] fl"
    "heap_inv u [Blk 4240 136 True, Blk 4376 3960 False] fl'"
    "reachable 100000000 (u, [4248 \<mapsto> stored peek u 4248 100])"
    "lo u = 4096" "hi u = 8336" "mm_rep 100000000 u [4248 \<mapsto> 120]"
proof -
  obtain t fl where t: "mm_init boot = Some (0, t)" "heap_inv t [Blk 4240 4096 False] fl"
    "hi t = 8336" "lo t = 4096"
    using boot_init by metis
  have "\<exists>xs p m ys W fl'. [Blk 4240 4096 False] = xs @ Blk p m False # ys \<and> request 100 \<le> m
    \<and> mm_malloc (w32 100) t = Some (w32 (p + 8), t\<lparr>words := W\<rparr>)
    \<and> heap_inv (t\<lparr>words := W\<rparr>) (placed xs p m (request 100) ys) fl'
    \<and> preserves {} [Blk 4240 4096 False] (words t) W"
    by (rule mm_malloc_fit [OF t(2), of _ 4240 4096]) (simp_all add: request_def)
  then obtain W fl' where u: "mm_malloc (w32 100) t = Some (w32 4248, t\<lparr>words := W\<rparr>)"
    "heap_inv (t\<lparr>words := W\<rparr>) [Blk 4240 136 True, Blk 4376 3960 False] fl'"
    by (auto simp: Cons_eq_append_conv placed_def request_def)
  let ?u = "t\<lparr>words := W\<rparr>"
  have "reachable 100000000 (t, Map.empty)"
    using reach_init [OF boot_fresh(1) boot_small t(1)] by simp
  then have "reachable 100000000 (?u, [4248 \<mapsto> stored peek ?u 4248 100])"
    by (rule reach_step) (rule step_malloc [OF _ _ u(1)]; simp)
  moreover have "payloads [Blk 4240 136 True, Blk 4376 3960 False] = [4248 \<mapsto> 120]"
    by (simp add: payloads_def)
  with u(2) t(4) have "mm_rep 100000000 ?u [4248 \<mapsto> 120]"
    unfolding mm_rep_def by (fastforce simp: MAX_HEAP_num)
  ultimately show ?thesis using t u that [OF t(1) u(1) t(2) u(2)] by simp
qed

section \<open>What a client of the package may rely on\<close>

text \<open>
  C1. In every state a client can reach by calling \<open>mm_malloc\<close>, \<open>mm_free\<close> and \<open>mm_realloc\<close>
  after \<open>mm_init\<close>, and by writing into its payloads, each byte of each live payload is
  accessible and reads as the client last wrote it (or as it was moved by \<open>mm_realloc\<close>).
\<close>

theorem client_reads_back:
  assumes "reachable N (s, C)" "C a = Some bs" "i < length bs"
  shows "load_byte (w32 (a + i)) s = Some (bs ! i)"
  using backs_load [OF reachable_backs [OF assms(1)] assms(2,3)] .

theorem client_reads_back_witness:
  "\<exists>t u v. mm_init boot = Some (0, t) \<and> mm_malloc (w32 100) t = Some (w32 4248, u)
    \<and> store_byte (w32 (4248 + 5)) 7 u = Some v \<and> load_byte (w32 (4248 + 5)) v = Some 7"
proof -
  obtain t u where u: "mm_init boot = Some (0, t)" "mm_malloc (w32 100) t = Some (w32 4248, u)"
    "reachable 100000000 (u, [4248 \<mapsto> stored peek u 4248 100])"
    using boot_malloc by metis
  let ?C = "[4248 \<mapsto> stored peek u 4248 100]"
  obtain v where v: "store_byte (w32 (4248 + 5)) 7 u = Some v"
    using mm.backs_put [OF reachable_backs [OF u(3)], of 4248 "stored peek u 4248 100" 5 7] by auto
  have "reachable 100000000 (v, ?C(4248 \<mapsto> (stored peek u 4248 100)[5 := 7]))"
    by (rule reach_step [OF u(3)]) (rule step_write [OF _ _ v]; simp)
  from client_reads_back [OF this, of 4248 _ 5] u(1,2) v show ?thesis by auto
qed

text \<open>
  C2. In every reachable state the live payloads are 8-byte aligned, lie inside the heap, and
  any two of them are at least 16 bytes apart (a footer, a header and two unused words).
\<close>

theorem client_payloads_apart:
  assumes "reachable N (s, C)" "C a = Some bs"
  shows "8 dvd a \<and> lo s + 152 \<le> a \<and> a + length bs + 8 \<le> hi s
    \<and> (\<forall>b cs. C b = Some cs \<longrightarrow> b \<noteq> a \<longrightarrow> a + length bs + 16 \<le> b \<or> b + length cs + 16 \<le> a)"
proof -
  obtain m where m: "mm_rep N s m" "dom C = dom m" "\<forall>a bs c. C a = Some bs \<longrightarrow> m a = Some c \<longrightarrow>
      length bs \<le> c \<and> bs = stored peek s a (length bs)"
    using reachable_backs [OF assms(1)] by (auto simp: backs_def)
  then obtain blks fl where inv: "heap_inv s blks fl" and p: "m = payloads blks"
    by (auto simp: mm_rep_def)
  have live: "\<exists>d. payloads blks b = Some d \<and> length cs \<le> d" if "C b = Some cs" for b cs
    using m(2,3) p that by (metis domD domI)
  obtain c where c: "payloads blks a = Some c" "length bs \<le> c" using live assms(2) by blast
  have "a + length bs + 16 \<le> b \<or> b + length cs + 16 \<le> a" if "C b = Some cs" "b \<noteq> a" for b cs
    using live [OF that(1)] payload_apart [OF inv c(1)] that(2) c(2) by fastforce
  with payload_range [OF inv c(1)] c(2) show ?thesis by auto
qed

theorem client_payloads_apart_witness:
  "\<exists>(u :: mm_state) C. reachable 100000000 (u, C) \<and> C 4248 \<noteq> None \<and> lo u + 152 \<le> 4248 \<and> 4248 + 100 + 8 \<le> hi u"
proof -
  obtain u :: mm_state where u: "reachable 100000000 (u, [4248 \<mapsto> stored peek u 4248 100])"
    using boot_malloc by metis
  from client_payloads_apart [OF u, of 4248] u show ?thesis
    by (intro exI [of _ u] exI [of _ "[4248 \<mapsto> stored peek u 4248 100]"]) simp
qed

text \<open>
  C3. No call faults or runs forever in a reachable state: \<open>mm_malloc\<close> returns (the null
  pointer or a payload the client does not hold already), \<open>mm_free\<close> of a live payload
  returns, and so does a write inside one.
\<close>

theorem client_progress:
  assumes "reachable N (s, C)"
  shows "(\<forall>n. 0 < n \<and> n \<le> N \<longrightarrow> (\<exists>r t. mm_malloc (w32 n) s = Some (r, t) \<and> (r \<noteq> 0 \<longrightarrow> C (unat r) = None)))
    \<and> (\<forall>a bs. C a = Some bs \<longrightarrow> (\<exists>t. mm_free (w32 a) s = Some t))
    \<and> (\<forall>a bs i v. C a = Some bs \<and> i < length bs \<longrightarrow> (\<exists>t. store_byte (w32 (a + i)) v s = Some t))"
proof (intro conjI allI impI; (elim conjE)?)
  note b = reachable_backs [OF assms]
  fix n assume n: "0 < n" "n \<le> N"
  from mm.backs_allocate [OF b this] obtain r t where rt: "mm_malloc (w32 n) s = Some (r, t)"
    "r = 0 \<or> (\<exists>a. r = w32 a \<and> C a = None \<and> backs (mm_rep N) peek t (C(a \<mapsto> stored peek t a n)))"
    by blast
  have "C (unat r) = None" if nz: "r \<noteq> 0"
  proof -
    obtain a where a: "r = w32 a" "C a = None" "backs (mm_rep N) peek t (C(a \<mapsto> stored peek t a n))"
      using rt(2) nz by blast
    with mm.backs_bounds(3) [OF a(3), of a] show ?thesis by (simp add: unat_w32)
  qed
  with rt(1) show "\<exists>r t. mm_malloc (w32 n) s = Some (r, t) \<and> (r \<noteq> 0 \<longrightarrow> C (unat r) = None)" by blast
next
  fix a bs assume "C a = Some bs"
  from mm.backs_release [OF reachable_backs [OF assms] this] show "\<exists>t. mm_free (w32 a) s = Some t" by blast
next
  fix a bs i v assume "C a = Some bs" "i < length bs"
  from mm.backs_put [OF reachable_backs [OF assms] this]
  show "\<exists>t. store_byte (w32 (a + i)) v s = Some t" by blast
qed

theorem client_progress_witness:
  "\<exists>(u :: mm_state) v. reachable 100000000 (u, [4248 \<mapsto> stored peek u 4248 100]) \<and> mm_free (w32 4248) u = Some v"
proof -
  obtain u :: mm_state where u: "reachable 100000000 (u, [4248 \<mapsto> stored peek u 4248 100])"
    using boot_malloc by metis
  from client_progress [OF u] u show ?thesis by auto
qed

section \<open>The calls, one by one\<close>

text \<open>
  C4. \<open>mm_malloc\<close> on a sound heap: it returns, the heap is sound again, and the result is the
  null pointer if and only if no free block is large enough and the storage cannot be
  extended. Then only \<open>errno\<close> has changed; otherwise the result is a new payload whose capacity
  exceeds the request by at least 16 and the rounded request by less than 16 bytes more,
  and the words of all blocks in use are as they were.
\<close>

theorem mm_malloc_correct:
  assumes inv: "heap_inv s bs fl" and n: "0 < n" "n + 39 < 2147483648"
    and top: "hi s + max (request n) 4096 < 4294967296"
  shows "\<exists>r t bs' fl'. mm_malloc (w32 n) s = Some (r, t) \<and> heap_inv t bs' fl'
    \<and> (r = 0 \<longleftrightarrow> (\<forall>p k. Blk p k False \<in> set bs \<longrightarrow> k < request n)
          \<and> lo s + MAX_HEAP < hi s + max (request n) 4096)
    \<and> (r = 0 \<longrightarrow> t = s\<lparr>errno := ENOMEM\<rparr> \<and> bs' = bs)
    \<and> (r \<noteq> 0 \<longrightarrow> (\<exists>a c. r = w32 a \<and> a < 4294967296 \<and> payloads bs a = None
          \<and> payloads bs' = (payloads bs)(a \<mapsto> c) \<and> n + 16 \<le> c \<and> c < request n + 16
          \<and> preserves {} bs (words s) (words t)))"
proof (cases "exhausted n s bs")
  case True
  have "heap_inv (s\<lparr>errno := ENOMEM\<rparr>) bs fl" using inv by simp
  with mm_malloc_null [OF inv n True top] True [unfolded exhausted_def] show ?thesis by blast
next
  case False
  from mm_malloc_placed [OF inv n False top] obtain t xs p k ys fl' where
    *: "mm_malloc (w32 n) s = Some (w32 (p + 8), t)" "heap_inv t (placed xs p k (request n) ys) fl'"
      "request n \<le> k" "filter used bs = filter used xs @ filter used ys" "preserves {} bs (words s) (words t)"
    by blast
  obtain c where c: "n + 16 \<le> c" "c < request n + 16" "payloads bs (p + 8) = None"
    "payloads (placed xs p k (request n) ys) = (payloads bs)(p + 8 \<mapsto> c)" "p + 8 < 4294967296"
    using placed_payload [OF *(2) request_props(1) *(3,4)] by blast
  have "w32 (p + 8) \<noteq> 0" using c(5) by (simp add: w32_eq_0)
  with *(1,2,5) c False [unfolded exhausted_def] show ?thesis by blast
qed

theorem mm_malloc_correct_witness:
  "\<exists>t r u. mm_init boot = Some (0, t) \<and> mm_malloc (w32 5000) t = Some (r, u) \<and> r \<noteq> 0"
proof -
  obtain t fl where t: "mm_init boot = Some (0, t)" "heap_inv t [Blk 4240 4096 False] fl"
    "hi t = 8336" "lo t = 4096"
    using boot_init by metis
  from mm_malloc_correct [OF t(2), of 5000] t show ?thesis
    by (auto simp: request_def MAX_HEAP_num)
qed

text \<open>
  C5. \<open>mm_free\<close> of a live payload: it returns, exactly this payload is gone, no two neighbouring
  blocks of the resulting heap are both free, and the bytes of every other payload are
  untouched.
\<close>

theorem mm_free_correct:
  assumes inv: "heap_inv s bs fl" and a: "payloads bs a = Some c"
  shows "\<exists>W bs' fl'. mm_free (w32 a) s = Some (s\<lparr>words := W\<rparr>) \<and> heap_inv (s\<lparr>words := W\<rparr>) bs' fl'
    \<and> payloads bs' = (payloads bs)(a := None) \<and> no_free_pair bs'
    \<and> (\<forall>b d i. payloads bs b = Some d \<longrightarrow> b \<noteq> a \<longrightarrow> i < d \<longrightarrow>
          byte_of W (b + i) = byte_of (words s) (b + i))"
proof -
  obtain p n where b: "Blk p n True \<in> set bs" "a = p + 8"
    using payloads_iff [OF heap_inv_chain [OF inv]] a by auto
  then obtain xs ys where bs: "bs = xs @ Blk p n True # ys" by (meson split_list)
  obtain xs' p' n' ys' where j: "join_free xs p n ys = (xs', p', n', ys')" by (metis prod_cases4)
  obtain W fl' where W: "mm_free (w32 (p + 8)) s = Some (s\<lparr>words := W\<rparr>)"
    "heap_inv (s\<lparr>words := W\<rparr>) (xs' @ Blk p' n' False # ys') fl'" "preserves {p} bs (words s) W"
    using mm_free_spec [OF inv [unfolded bs] j] bs by blast
  have "payloads (xs' @ Blk p' n' False # ys') = (payloads bs)(a := None)"
    unfolding b(2) by (rule payloads_delete [OF heap_inv_chain [OF inv], of "filter used xs" p n "filter used ys"])
      (simp_all add: bs join_free_props [OF j])
  moreover have "no_free_pair (xs' @ Blk p' n' False # ys')"
    using heap_inv_core [OF W(2)] by (simp add: heap_core_def)
  moreover have "byte_of W (b + i) = byte_of (words s) (b + i)"
    if "payloads bs b = Some d" "b \<noteq> a" "i < d" for b d i
    using preserves_peek [OF heap_inv_chain [OF inv] that(1,3) _ W(3)] that(2) \<open>a = p + 8\<close> by simp
  ultimately show ?thesis using W(1,2) b(2) by blast
qed

theorem mm_free_correct_witness:
  "\<exists>(u :: mm_state) v bs fl. mm_free (w32 4248) u = Some v \<and> heap_inv v bs fl \<and> payloads bs = Map.empty"
proof -
  obtain u :: mm_state and fl where u: "heap_inv u [Blk 4240 136 True, Blk 4376 3960 False] fl"
    using boot_malloc by metis
  have p: "payloads [Blk 4240 136 True, Blk 4376 3960 False] = [4248 \<mapsto> 120]"
    by (simp add: payloads_def)
  obtain W bs' fl' where "mm_free (w32 4248) u = Some (u\<lparr>words := W\<rparr>)"
    "heap_inv (u\<lparr>words := W\<rparr>) bs' fl'" "payloads bs' = ([4248 \<mapsto> 120])(4248 := None)"
    using mm_free_correct [OF u, of 4248 120] unfolding p by auto
  then show ?thesis by auto
qed

text \<open>
  C6. \<open>coalesce\<close>, all four cases: given a block whose tags say free while its neighbours satisfy
  the invariant, it merges it with exactly the free ones among its two neighbours
  (\<open>join_free\<close>), files the result in its bucket, returns its pointer, and restores the heap
  invariant.
\<close>

theorem coalesce_correct:
  assumes "heap_core {p} s (xs @ Blk p n True # ys) fl"
    and "words s (p - 4) = tag n False" "words s (p + n - 8) = tag n False"
  shows "\<exists>xs' p' n' ys' W fl'. join_free xs p n ys = (xs', p', n', ys')
    \<and> coalesce (w32 p) s = Some (w32 p', s\<lparr>words := W\<rparr>)
    \<and> heap_core {} (s\<lparr>words := W\<rparr>) (xs' @ Blk p' n' False # ys') fl'
    \<and> preserves {p} (xs @ Blk p n True # ys) (words s) W"
  using coalesce_spec [OF assms] by (metis prod_cases4)

theorem coalesce_correct_witness:
  "\<exists>(v :: mm_state) w. words v 4236 = tag 136 False \<and> coalesce (w32 4240) v = Some (w32 4240, w)"
proof -
  obtain u :: mm_state and fl where u: "heap_inv u [Blk 4240 136 True, Blk 4376 3960 False] fl"
    using boot_malloc by metis
  let ?bs = "[] @ Blk 4240 136 True # [Blk 4376 3960 False]"
  let ?v = "u\<lparr>words := tag_words 4240 136 False (words u)\<rparr>"
  have "heap_core {4240} u ?bs fl" using core_open [OF heap_inv_core [OF u]] by simp
  from core_retag(1) [OF this, of 4240 136 False] have "heap_core {4240} ?v ?bs fl" by simp
  from coalesce_correct [OF this] have "\<exists>w. coalesce (w32 4240) ?v = Some (w32 4240, w)"
    by (auto simp: join_free_def prev_used_def next_used_def)
  then show ?thesis by (intro exI [of "\<lambda>v. \<exists>w. words v 4236 = _ \<and> coalesce _ v = Some (_, w)" ?v]) simp
qed

text \<open>
  C7. \<open>place\<close> takes a free block for a request: it is split, the rest being filed as a free
  block, exactly when at least 32 bytes are left over, and used whole otherwise.
\<close>

theorem place_correct:
  assumes "heap_core {} s (xs @ Blk p n False # ys) fl" "32 \<le> sz" "8 dvd sz" "sz \<le> n"
  shows "\<exists>W fl'. place (w32 p) (w32 sz) s = Some (s\<lparr>words := W\<rparr>)
    \<and> heap_core {} (s\<lparr>words := W\<rparr>)
        (if 32 \<le> n - sz then xs @ Blk p sz True # Blk (p + sz) (n - sz) False # ys
         else xs @ Blk p n True # ys) fl'
    \<and> preserves {} (xs @ Blk p n False # ys) (words s) W"
  using place_spec [OF assms] by (simp add: placed_def)

theorem place_correct_witness:
  "\<exists>(t :: mm_state) W fl. place (w32 4240) (w32 64) t = Some (t\<lparr>words := W\<rparr>)
    \<and> heap_core {} (t\<lparr>words := W\<rparr>) [Blk 4240 64 True, Blk 4304 4032 False] fl"
proof -
  obtain t :: mm_state and fl where t: "heap_inv t [Blk 4240 4096 False] fl"
    using boot_init by metis
  have "heap_core {} t ([] @ Blk 4240 4096 False # []) fl" using heap_inv_core [OF t] by simp
  from place_correct [OF this, of 64] show ?thesis by auto
qed

text \<open>
  C8. \<open>find_fit\<close> is a first fit through the segregated lists: it returns the first block, in the
  order of the lists from the bucket of the request upwards, whose size suffices, and the
  null pointer when there is none.
\<close>

theorem find_fit_correct:
  assumes "heap_core {} s bs fl" "8 dvd n" "n \<le> 2147483648"
  shows "find_fit (w32 n div 4) s =
    Some (ptr_of (find (\<lambda>p. n \<le> size_at bs p) (concat (map fl [bucket_index n..<32]))))"
  using find_fit_first [OF assms] .

theorem find_fit_correct_witness:
  "\<exists>(t :: mm_state) fl. heap_core {} t [Blk 4240 4096 False] fl \<and> find_fit (w32 4096 div 4) t =
    Some (ptr_of (find (\<lambda>p. 4096 \<le> size_at [Blk 4240 4096 False] p) (concat (map fl [12..<32]))))"
proof -
  obtain t :: mm_state and fl where t: "heap_inv t [Blk 4240 4096 False] fl"
    using boot_init by metis
  have "bucket_index 4096 = 12" by code_simp
  with find_fit_correct [OF heap_inv_core [OF t], of 4096] heap_inv_core [OF t] show ?thesis by auto
qed

text \<open>
  C9. \<open>extend_heap\<close> on a sound heap and a multiple of 8 bytes: when the storage has room, the
  heap grows by exactly these bytes, which become (with a free last block, if there is one)
  a free block whose pointer is returned; otherwise the null pointer is returned and only
  \<open>errno\<close> changes.
\<close>

theorem extend_heap_correct:
  assumes core: "heap_core {} s bs fl"
    and sz: "32 \<le> sz" "8 dvd sz" "sz < 2147483648" "hi s + sz < 4294967296"
  shows "if hi s + sz \<le> lo s + MAX_HEAP
    then \<exists>xs p n ys W fl'. join_free bs (hi s) sz [] = (xs, p, n, ys) \<and> sz \<le> n
      \<and> extend_heap (w32 sz div 4) s = Some (w32 p, s\<lparr>mem_brk := w32 (hi s + sz), words := W\<rparr>)
      \<and> heap_core {} (s\<lparr>mem_brk := w32 (hi s + sz), words := W\<rparr>) (xs @ Blk p n False # ys) fl'
      \<and> preserves {} bs (words s) W
    else extend_heap (w32 sz div 4) s = Some (0, s\<lparr>errno := ENOMEM\<rparr>)"
proof (cases "hi s + sz \<le> lo s + MAX_HEAP")
  case True
  obtain xs p n ys where j: "join_free bs (hi s) sz [] = (xs, p, n, ys)" by (metis prod_cases4)
  from extend_heap_spec [OF core sz True j] join_free_props(1) [OF j] j True show ?thesis by auto
next
  case False
  with extend_heap_full [OF core sz(2-4)] show ?thesis by simp
qed

theorem extend_heap_correct_witness:
  "\<exists>(t :: mm_state) u. extend_heap (w32 64 div 4) t = Some (w32 4240, u) \<and> hi t = 8336 \<and> hi u = 8400"
proof -
  obtain t :: mm_state and fl where t: "heap_inv t [Blk 4240 4096 False] fl" "hi t = 8336" "lo t = 4096"
    using boot_init by metis
  from extend_heap_correct [OF heap_inv_core [OF t(1)], of 64] t(2,3)
  obtain W where "extend_heap (w32 64 div 4) t = Some (w32 4240, t\<lparr>mem_brk := w32 8400, words := W\<rparr>)"
    by (auto simp: MAX_HEAP_num join_free_def prev_used_def next_used_def)
  moreover have "hi (t\<lparr>mem_brk := w32 8400, words := W\<rparr>) = 8400" by (simp add: unat_w32)
  ultimately show ?thesis using t(2) by blast
qed

text \<open>
  C10. \<open>mm_init\<close> on fresh storage: it succeeds, and builds a sound heap whose 32 buckets, prologue
  and epilogue take 144 bytes, with one free block of \<open>CHUNKSIZE\<close> bytes and no payload.
\<close>

theorem mm_init_correct:
  assumes "fresh_heap s"
  shows "\<exists>t fl. mm_init s = Some (0, t) \<and> heap_inv t [Blk (lo s + 144) 4096 False] fl
    \<and> lo t = lo s \<and> payloads [Blk (lo s + 144) 4096 False] = Map.empty"
  using mm_init_spec [OF assms] by (auto simp: payloads_def)

theorem mm_init_correct_witness:
  "\<exists>t fl. mm_init boot = Some (0, t) \<and> heap_inv t [Blk 4240 4096 False] fl"
  using mm_init_correct [OF boot_fresh(1)] by (auto simp: boot_fresh(2))

text \<open>
  C11. \<open>mm_realloc\<close> of a live payload, when \<open>mm_malloc\<close> succeeds and the old block does not end
  at the very end of the storage: it returns a new payload of at least the requested size
  that starts with the old contents, as far as both reach; the old payload is gone and all
  other payloads keep their bytes.
\<close>

theorem mm_realloc_correct:
  assumes "mm_rep N s m" "m a = Some c" "0 < n" "n \<le> N"
    and "mm_malloc (w32 n) s = Some (r, t)" "r \<noteq> 0" "a + min n (c + 16) \<le> lo s + MAX_HEAP"
  shows "\<exists>b d u. r = w32 b \<and> n \<le> d \<and> m b = None
    \<and> mm_realloc (w32 a) (w32 n) s = Some (w32 b, u) \<and> mm_rep N u ((m(a := None))(b \<mapsto> d))
    \<and> (\<forall>i < min n c. peek u (b + i) = peek s (a + i)) \<and> same_bytes peek (m(a := None)) s u"
  using mm_realloc_rep [OF assms] by blast


theorem mm_realloc_correct_witness:
  "\<exists>(s :: mm_state) u b. mm_rep 100000000 s [4248 \<mapsto> 120] \<and> mm_realloc (w32 4248) (w32 200) s = Some (w32 b, u)
    \<and> (\<forall>i < 120. peek u (b + i) = peek s (4248 + i))"
proof -
  obtain s :: mm_state and fl where s: "heap_inv s [Blk 4240 136 True, Blk 4376 3960 False] fl"
    "lo s = 4096" "mm_rep 100000000 s [4248 \<mapsto> 120]"
    using boot_malloc by metis
  have "\<exists>xs p m ys W fl'. [Blk 4240 136 True, Blk 4376 3960 False] = xs @ Blk p m False # ys
    \<and> request 200 \<le> m \<and> mm_malloc (w32 200) s = Some (w32 (p + 8), s\<lparr>words := W\<rparr>)
    \<and> heap_inv (s\<lparr>words := W\<rparr>) (placed xs p m (request 200) ys) fl'
    \<and> preserves {} [Blk 4240 136 True, Blk 4376 3960 False] (words s) W"
    by (rule mm_malloc_fit [OF s(1), of _ 4376 3960]) (simp_all add: request_def)
  then obtain t where "mm_malloc (w32 200) s = Some (w32 4384, t)"
    by (auto simp: Cons_eq_append_conv)
  from mm_realloc_correct [OF s(3) _ _ _ this, of 4248 120] s(2,3) show ?thesis
    by (auto simp: w32_eq_0 MAX_HEAP_num)
qed

section \<open>Errors\<close>

text \<open>
  C12. When the memory is exhausted, \<open>mm_realloc\<close> of a live payload does not return the null
  pointer: it has no defined result, as it copies to the null pointer that \<open>mm_malloc\<close> gave
  it.
\<close>

theorem mm_realloc_faults:
  assumes "mm_rep N s m" "m a = Some c" "0 < n" "n \<le> N" "mm_malloc (w32 n) s = Some (0, t)"
  shows "mm_realloc (w32 a) (w32 n) s = None"
  using mm_realloc_exhausted [OF assms] .

theorem mm_realloc_faults_witness:
  "\<exists>(s :: mm_state) t. mm_malloc (w32 30000000) s = Some (0, t)
    \<and> mm_realloc (w32 4248) (w32 30000000) s = None"
proof -
  obtain s :: mm_state and fl where s: "heap_inv s [Blk 4240 136 True, Blk 4376 3960 False] fl"
    "lo s = 4096" "hi s = 8336" "mm_rep 100000000 s [4248 \<mapsto> 120]"
    using boot_malloc by metis
  have full: "mm_malloc (w32 30000000) s = Some (0, s\<lparr>errno := ENOMEM\<rparr>)"
    by (rule mm_malloc_exhausted [OF s(1)]) (auto simp: request_def MAX_HEAP_num s(2,3))
  from mm_realloc_faults [OF s(4) _ _ _ full, of 4248 120] full show ?thesis by auto
qed

text \<open>
  C13. A request whose block would be larger than \<open>2 ^ 31\<close> bytes (and whose size does not wrap)
  is not answered with the null pointer either: \<open>find_bucket\<close> finds no bucket for it, and
  \<open>find_fit\<close> dereferences the null pointer it gets.
\<close>

theorem mm_malloc_huge_faults:
  assumes "heap_inv s bs fl" "2147483648 < request n" "n + 39 < 4294967296"
  shows "mm_malloc (w32 n) s = None"
proof -
  have core: "heap_core {} s bs fl" using assms(1) by (simp add: heap_inv_def)
  have n: "0 < n" "request n < 4294967296" using assms(2,3) request_props(2) [of n] by auto
  have "4 dvd request n" using request_props(3) [of n] by presburger
  then have "w32 (request n) div 4 * 4 = w32 (request n)" using n(2) by (rule div4_mult4)
  moreover have "mem_heap_lo s = w32 (lo s)" "0 < store_lo s" "lo s + 128 < 4294967296"
    using heap_core_region [OF core] unat_lt32 [of "mem_max_addr s"]
    by (simp_all add: mem_heap_lo_def region_ok_def MAX_HEAP_num)
  ultimately have "find_fit (w32 (request n) div 4) s = None"
    using find_fit_null assms(2) n(2) by blast
  moreover have "w32 n \<noteq> 0" using n assms(3) by (simp add: w32_eq_0)
  ultimately show ?thesis
    using heap_inv_listp [OF assms(1)] ALIGN_request [OF assms(3)] by (simp add: mm_malloc_def)
qed

theorem mm_malloc_huge_faults_witness:
  "\<exists>t. mm_init boot = Some (0, t) \<and> mm_malloc (w32 2147483647) t = None"
proof -
  obtain t fl where "mm_init boot = Some (0, t)" "heap_inv t [Blk 4240 4096 False] fl"
    using boot_init by metis
  with mm_malloc_huge_faults [of t _ fl 2147483647] show ?thesis by (auto simp: request_def)
qed

text \<open>
  C14. The size computation of \<open>mm_malloc\<close>: the block size is the request plus 32, rounded up to
  a multiple of 8, as long as the request is below \<open>2 ^ 32 - 39\<close>; from there on it wraps to
  at most 32 bytes, whatever was asked for.
\<close>

theorem malloc_size_computation:
  "unat (ALIGN (sz + OVERHEAD)) =
    (if unat sz + 39 < 4294967296 then (unat sz + 39) div 8 * 8 else (unat sz + 39 - 4294967296) div 8 * 8)"
proof (cases "unat sz + 39 < 4294967296")
  case True
  then have "ALIGN (w32 (unat sz) + OVERHEAD) = w32 (request (unat sz))" by (rule ALIGN_request)
  with True request_props(2) [of "unat sz"] show ?thesis
    by (simp add: unat_w32) (simp add: request_def)
next
  case False
  have e: "sz + OVERHEAD + (ALIGNMENT - 1) = sz + 39" by (simp add: add.assoc)
  have "unat (sz + 39) = (unat sz + 39) mod 4294967296" by (simp add: unat_word_ariths)
  also have "\<dots> = unat sz + 39 - 4294967296"
    using False unat_lt32 [of sz] by (simp add: mod_if)
  finally have "unat ((sz + 39) AND - 8) = (unat sz + 39 - 4294967296) div 8 * 8"
    by (simp add: unat_and_not_7)
  with False show ?thesis unfolding ALIGN_def e not_7 by simp
qed

text \<open>
  C15. The checker's verdict on a sound heap: \<open>mm_check\<close> returns 1 if and only if no block of
  the heap is free; any heap with a free block is declared inconsistent (its second loop
  returns 0 at the first non-empty bucket).
\<close>

theorem mm_check_rejects_free_blocks:
  assumes "heap_inv s bs fl"
  shows "mm_check s = Some (if \<forall>b \<in> set bs. used b then 1 else 0)"
  using mm_check_verdict [OF assms] .

theorem mm_check_rejects_free_blocks_witness:
  "\<exists>t. mm_init boot = Some (0, t) \<and> mm_check t = Some 0"
proof -
  obtain t fl where "mm_init boot = Some (0, t)" "heap_inv t [Blk 4240 4096 False] fl"
    using boot_init by metis
  with mm_check_rejects_free_blocks [of t "[Blk 4240 4096 False]" fl] show ?thesis by auto
qed

text \<open>
  C16. The self-test of \<^verbatim>\<open>mm.c\<close>, on any aligned storage: the three allocations, the three frees
  and the printing of the heap all return, the frees merge everything back into the one free
  block \<open>mm_init\<close> had made, and \<open>mm_check\<close> nevertheless returns 0. The exit status is 0 (the first
  component; the second is the verdict of \<open>mm_check\<close>, which \<open>main\<close> ignores).
\<close>

theorem self_test_returns:
  assumes "0 < a" "8 dvd a" "a + MAX_HEAP < 4294967296"
  shows "\<exists>t fl. mm_main (w32 a) contents s = Some (0, 0, t) \<and> heap_inv t [Blk (a + 144) 4096 False] fl"
  using mm_main_spec [OF assms] .

theorem self_test_returns_witness:
  "\<exists>t fl. mm_main (w32 4096) (\<lambda>_. 0) boot = Some (0, 0, t) \<and> heap_inv t [Blk 4240 4096 False] fl"
  using self_test_returns [of 4096 "\<lambda>_. 0" boot] by (simp add: MAX_HEAP_num)

section \<open>Components\<close>

text \<open>
  C17. The simulated heap, over any sequence of calls of \<open>mem_sbrk\<close> and \<open>mem_reset_brk\<close> after
  \<open>mem_init\<close>: a call is granted exactly if its increment is not negative and the increments granted
  since the last reset stay within \<open>MAX_HEAP\<close> (\<open>granted\<close>). The areas returned lie one after the other
  from the start of the storage, so they are disjoint and inside it; the size and the bounds
  reported are those of all the areas together; and nothing changes but the break and, if a call
  failed, \<open>errno\<close>. (For storage below the end of the address space, and increments that do not take a sum
  past it.)
\<close>

theorem sbrk_calls_granted:
  assumes init: "mem_init storage contents s = Some s0" and a: "unat storage + MAX_HEAP < 4294967295"
    and w: "\<forall>n. Sbrk n \<in> set cs \<longrightarrow> sint n < 0 \<or> unat storage + MAX_HEAP + unat n < 4294967296"
    and g: "granted MAX_HEAP cs ([], False) = (ns, failed)"
  shows "\<exists>rs t. mem_calls cs [] s0 = (rs, t) \<and> rs = areas (unat storage) ns
    \<and> sorted_wrt (\<lambda>(x, n) (y, m). x + n \<le> y) rs
    \<and> (\<forall>(x, n) \<in> set rs. unat storage \<le> x \<and> x + n \<le> unat (mem_heap_hi t) + 1)
    \<and> mem_heap_lo t = storage \<and> unat (mem_heap_hi t) + 1 = unat storage + sum_list ns
    \<and> unat (mem_heapsize t) = sum_list ns \<and> sum_list ns \<le> MAX_HEAP
    \<and> t = s0\<lparr>mem_brk := mem_brk t, errno := if failed then ENOMEM else errno s0\<rparr>"
proof -
  let ?p = "unat storage + sum_list ns"
  let ?t = "s0\<lparr>mem_brk := w32 ?p, errno := if failed then ENOMEM else errno s0\<rparr>"
  have run: "mem_calls cs [] s0 = (areas (unat storage) ns, ?t)" "sum_list ns \<le> MAX_HEAP"
    using mem_init_granted [OF assms] by simp_all
  have s0: "mem_start_brk s0 = storage" "storage \<noteq> 0" using init by (auto simp: mem_init_def split: if_splits)
  note bounds = brk_bounds [OF s0(2) _ run(2)] a
  have "unat (mem_heap_hi ?t) + 1 = ?p" "unat (mem_heapsize ?t) = sum_list ns"
    using bounds s0(1) by (simp_all add: mem_heap_hi_def mem_heapsize_def)
  moreover have "\<forall>(x, n) \<in> set (areas (unat storage) ns). unat storage \<le> x \<and> x + n \<le> ?p"
    by (auto dest: areas_within)
  ultimately show ?thesis using run s0(1) areas_apart
    by (intro exI [of _ "areas (unat storage) ns"] exI [of _ ?t]) (simp add: mem_heap_lo_def)
qed

text \<open>Storage at 4096: after a reset, one increment is negative and one exceeds what is left.\<close>

theorem sbrk_calls_granted_witness:
  "\<exists>s0 t. mem_init 4096 (\<lambda>_. 0) boot = Some s0
    \<and> mem_calls [Sbrk 8, Reset_brk, Sbrk 100, Sbrk (- 1), Sbrk 20971500, Sbrk 28] [] s0 = ([(4096, 100), (4196, 28)], t)
    \<and> unat (mem_heapsize t) = 128 \<and> errno t = ENOMEM"
proof -
  let ?cs = "[Sbrk 8, Reset_brk, Sbrk 100, Sbrk (- 1), Sbrk 20971500, Sbrk 28]"
  obtain s0 where s0: "mem_init 4096 (\<lambda>_. 0) boot = Some s0" by (simp add: mem_init_def)
  have g: "granted MAX_HEAP ?cs ([], False) = ([100, 28], True)" by (simp add: MAX_HEAP_num)
  from sbrk_calls_granted [OF s0 _ _ g] obtain t where
    t: "mem_calls ?cs [] s0 = (areas 4096 [100, 28], t)" "unat (mem_heapsize t) = 128"
      "t = s0\<lparr>mem_brk := mem_brk t, errno := ENOMEM\<rparr>" by (auto simp: MAX_HEAP_num)
  from t(3) have "errno t = ENOMEM" by (metis memlib.select_convs(4) memlib.surjective memlib.update_convs(4))
  with s0 t(1,2) show ?thesis by auto
qed

text \<open>
  C18. \<open>find_bucket\<close>: the bucket of a block of \<open>n\<close> bytes is the first of the 32 whose bound
  \<open>2 ^ k\<close> is at least \<open>n\<close>; a size above \<open>2 ^ 31\<close> has none, and the null pointer is returned.
\<close>

theorem find_bucket_correct:
  assumes "wds * 4 = w32 n" "n < 4294967296"
  shows "if n \<le> 2147483648
    then \<exists>k < 32. find_bucket wds s = mem_heap_lo s + w32 (4 * k) \<and> n \<le> 2 ^ k \<and> (\<forall>j < k. 2 ^ j < n)
    else find_bucket wds s = 0"
  using find_bucket_eq [OF assms, of s] bucket_index_spec [of n] bucket_index_none [of n] by auto

theorem find_bucket_correct_witness:
  "\<exists>k < 32. find_bucket 34 boot = mem_heap_lo boot + w32 (4 * k) \<and> 136 \<le> (2 :: nat) ^ k \<and> (\<forall>j < k. 2 ^ j < (136 :: nat))"
  using find_bucket_correct [of 34 136 boot] by (simp add: w32_numeral)

text \<open>
  C19. The free lists are last-in first-out: \<open>add_to_bucket\<close> puts a block at the head of the list,
  and \<open>remove_from_bucket\<close> takes a block out of the list, wherever it stands, keeping the
  order of the others. Neither writes a word other than the bucket and the link words of the
  blocks on the list.
\<close>

theorem bucket_operations:
  assumes "cell s b" "bucket_list (words s) b ps" "\<forall>q \<in> set (p # ps). node_ok s b q" "distinct (p # ps)"
  shows "\<exists>W. add_to_bucket (w32 p) (w32 b) s = Some (s\<lparr>words := W\<rparr>) \<and> bucket_list W b (p # ps)
    \<and> (\<forall>a. a \<noteq> b \<longrightarrow> a \<notin> link_cells (p # ps) \<longrightarrow> W a = words s a)
    \<and> (\<forall>q \<in> set (p # ps). \<exists>V. remove_from_bucket (w32 q) (w32 b) (s\<lparr>words := W\<rparr>) = Some (s\<lparr>words := V\<rparr>)
        \<and> bucket_list V b (remove1 q (p # ps))
        \<and> (\<forall>a. a \<noteq> b \<longrightarrow> a \<notin> link_cells (p # ps) \<longrightarrow> V a = words s a))"
proof -
  obtain W where W: "add_to_bucket (w32 p) (w32 b) s = Some (s\<lparr>words := W\<rparr>)"
    "bucket_list W b (p # ps)" "\<forall>a. a \<noteq> b \<longrightarrow> a \<notin> link_cells (p # ps) \<longrightarrow> W a = words s a"
    using add_to_bucket_spec [OF assms] by blast
  have "\<exists>V. remove_from_bucket (w32 q) (w32 b) (s\<lparr>words := W\<rparr>) = Some (s\<lparr>words := V\<rparr>)
      \<and> bucket_list V b (remove1 q (p # ps))
      \<and> (\<forall>a. a \<noteq> b \<longrightarrow> a \<notin> link_cells (p # ps) \<longrightarrow> V a = words s a)"
    if q: "q \<in> set (p # ps)" for q
  proof -
    obtain V where "remove_from_bucket (w32 q) (w32 b) (s\<lparr>words := W\<rparr>) = Some (s\<lparr>words := W\<rparr>\<lparr>words := V\<rparr>)"
      "bucket_list V b (remove1 q (p # ps))" "\<forall>a. a \<noteq> b \<longrightarrow> a \<notin> link_cells (p # ps) \<longrightarrow> V a = W a"
      using remove_from_bucket_spec [of "s\<lparr>words := W\<rparr>" b "p # ps" q] assms(1,3,4) W(2) q by auto
    with W(3) show ?thesis by auto
  qed
  with W show ?thesis by blast
qed

theorem bucket_operations_witness:
  "\<exists>W. add_to_bucket (w32 4240) (w32 4116) boot = Some (boot\<lparr>words := W\<rparr>) \<and> bucket_list W 4116 [4240]"
proof -
  have "cell boot 4116" "bucket_list (words boot) 4116 []" "\<forall>q \<in> set [4240]. node_ok boot 4116 q"
    by (simp_all add: boot_def cell_def node_ok_def bucket_list_def MAX_HEAP_num)
  from bucket_operations [OF this] show ?thesis by auto
qed

text \<open>
  C20. The boundary tags round trip: after a size (a multiple of 8 below \<open>2 ^ 32\<close>) and an
  allocated bit are packed and stored in a word of the storage, \<open>GET_SIZE\<close> and \<open>GET_ALLOC\<close> of
  this word return them.
\<close>

theorem tag_roundtrip:
  assumes "cell s a" "8 dvd n"
  shows "\<exists>t. PUT (w32 a) (PACK (w32 n) (if u then 1 else 0)) s = Some t
    \<and> GET_SIZE (w32 a) t = Some (w32 n) \<and> GET_ALLOC (w32 a) t = Some (if u then 1 else 0)"
proof -
  let ?t = "s\<lparr>words := (words s)(a := tag n u)\<rparr>"
  have "PUT (w32 a) (PACK (w32 n) (if u then 1 else 0)) s = Some ?t"
    using PUT_cell [OF assms(1)] by (simp add: tag_def)
  moreover have "GET_SIZE (w32 a) ?t = Some (w32 n)" "GET_ALLOC (w32 a) ?t = Some (if u then 1 else 0)"
    using assms by (simp_all add: GET_SIZE_cell GET_ALLOC_cell)
  ultimately show ?thesis by blast
qed

theorem tag_roundtrip_witness:
  "\<exists>t. PUT (w32 4236) (PACK (w32 4096) 1) boot = Some t \<and> GET_SIZE (w32 4236) t = Some (w32 4096)
    \<and> GET_ALLOC (w32 4236) t = Some 1"
proof -
  have "cell boot 4236" by (simp add: boot_def cell_def MAX_HEAP_num)
  from tag_roundtrip [OF this, of 4096 True] show ?thesis by auto
qed

text \<open>
  C21. What the two printers show of a sound heap. \<open>print_heap\<close> prints every word of the heap with its
  address, so the header and the footer of each block are among its lines. \<open>print_seglist\<close> prints
  the first 33 of these lines, one more than there are buckets: line \<open>k < 32\<close> shows the first
  block of list \<open>k\<close>, or 0 exactly if no free block has a size of this class; the last line is the
  word after the array.
\<close>

theorem printers_correct:
  assumes "heap_inv s bs fl"
  shows "\<exists>d. print_heap s = Some d \<and> print_seglist s = Some (take 33 d)
    \<and> lo s + 4 * length d = hi s \<and> 33 \<le> length d
    \<and> (\<forall>i < length d. d ! i = (w32 (lo s + 4 * i), words s (lo s + 4 * i)))
    \<and> (\<forall>p n u. Blk p n u \<in> set bs \<longrightarrow> (w32 (p - 4), tag n u) \<in> set d \<and> (w32 (p + n - 8), tag n u) \<in> set d)
    \<and> (\<forall>k < 32. d ! k = (w32 (lo s + 4 * k), if fl k = [] then 0 else w32 (hd (fl k)))
        \<and> (snd (d ! k) \<noteq> 0 \<longleftrightarrow> (\<exists>p n. Blk p n False \<in> set bs \<and> bucket_index n = k)))"
proof -
  have core: "heap_core {} s bs fl" using assms by (rule heap_inv_core)
  let ?m = "(hi s - lo s) div 4"
  let ?d = "word_dump (words s) (lo s) ?m"
  have m: "lo s + 4 * ?m = hi s" "33 \<le> ?m" by (rule dump_length [OF core])+
  have lines: "?d ! i = (w32 (lo s + 4 * i), words s (lo s + 4 * i))" if "i < ?m" for i
    using that by simp
  have bucket: "?d ! k = (w32 (lo s + 4 * k), if fl k = [] then 0 else w32 (hd (fl k)))
      \<and> (snd (?d ! k) \<noteq> 0 \<longleftrightarrow> (\<exists>p n. Blk p n False \<in> set bs \<and> bucket_index n = k))" if k: "k < 32" for k
    using lines [of k] k m(2) dump_bucket [OF core k] by simp
  have len: "lo s + 4 * length ?d = hi s" "33 \<le> length ?d" "print_seglist s = Some (take 33 ?d)"
    using m print_seglist_spec [OF core] by (simp_all add: take_word_dump)
  have "\<forall>i < length ?d. ?d ! i = (w32 (lo s + 4 * i), words s (lo s + 4 * i))" using lines by simp
  then show ?thesis using print_heap_spec [OF core] len bucket dump_tags [OF core] by blast
qed

theorem printers_correct_witness:
  "\<exists>t d. mm_init boot = Some (0, t) \<and> print_heap t = Some d \<and> (w32 4236, tag 4096 False) \<in> set d
    \<and> print_seglist t = Some (take 33 d)"
proof -
  obtain t fl where t: "mm_init boot = Some (0, t)" "heap_inv t [Blk 4240 4096 False] fl"
    using boot_init by metis
  from printers_correct [OF t(2)] obtain d where
    "print_heap t = Some d" "print_seglist t = Some (take 33 d)"
    "\<forall>p n u. Blk p n u \<in> set [Blk 4240 4096 False] \<longrightarrow> (w32 (p - 4), tag n u) \<in> set d" by blast
  with t(1) show ?thesis by fastforce
qed

end
